(* ===== verification/Prelude.thy ===== *)
theory Prelude
  imports Main "HOL-Library.Word" "HOL-Library.Monad_Syntax"
begin

text \<open>
  Shared ground of the development: the machine integer types of the C sources
  (\<open>uint8_t\<close>, \<open>uint16_t\<close>, \<open>uint32_t\<close>, \<open>uint64_t\<close>; \<open>size_t\<close> and pointers are
  64 bits wide on AArch64, \<open>char\<close> is unsigned there), string literals as byte lists,
  the collections of rewrite rules the component theories fill, and the generic facts
  about words and lists that several components use.
\<close>

unbundle bit_operations_syntax

type_synonym u8 = "8 word"
type_synonym u16 = "16 word"
type_synonym u32 = "32 word"
type_synonym u64 = "64 word"

named_theorems mem_simps \<open>reads after writes in byte memory\<close>
named_theorems frame_simps \<open>state components an operation leaves alone\<close>

abbreviation NULL :: u64 where "NULL \<equiv> 0"

definition bytes :: "string \<Rightarrow> u8 list" where
  "bytes s = map of_char s"

lemma bytes_simps [simp]:
  "bytes [] = []"
  "bytes (c # s) = of_char c # bytes s"
  "bytes (s @ t) = bytes s @ bytes t"
  "length (bytes s) = length s"
  by (simp_all add: bytes_def)

subsection \<open>64-bit words\<close>

lemma unat_sub_Suc:
  fixes x a :: u64
  assumes "x \<noteq> a"
  shows "unat (x - a) = Suc (unat (x - (a + 1)))"
proof -
  have "x - a \<noteq> 0" using assms by simp
  then have "unat (x - a - 1) = unat (x - a) - 1" and "unat (x - a) \<noteq> 0"
    by (simp_all add: unat_minus_one unat_eq_0)
  then show ?thesis by (simp add: diff_diff_eq)
qed

lemma unat_u64_lt: "unat (x :: u64) < 2 ^ 64"
  using unsigned_less [of x, where 'a = nat] by simp

lemma unat_minus1_u64 [simp]: "unat (- 1 :: u64) = 18446744073709551615"
  by (simp add: unsigned_minus_1_eq_mask mask_eq_exp_minus_1)

lemma unat_of_nat64: "n < 2 ^ 64 \<Longrightarrow> unat (of_nat n :: u64) = n"
  by (simp add: unat_of_nat)

subsection \<open>Casts to and from 64 bits\<close>

lemma unat_u32_lt: "unat (x :: u32) < 2 ^ 32"
  using unsigned_less [of x, where 'a = nat] by simp

lemma unat_ucast_u32: "unat (ucast (x :: u32) :: u64) = unat x"
  using unat_u32_lt [of x] by (simp add: unsigned_ucast_eq take_bit_eq_mod)

lemma unat_ucast_low: "unat (ucast (x :: u64) :: u32) = unat x mod 2 ^ 32"
  by (simp add: unsigned_ucast_eq take_bit_eq_mod unat_mod)

lemma ucast_u32 [simp]: "ucast (ucast (x :: u32) :: u64) = x"
  using unat_u32_lt [of x] by (simp add: word_unat_eq_iff unat_ucast_low unat_ucast_u32)

lemma unat_ucast_u8: "unat (ucast (x :: u8) :: u64) = unat x"
  using unsigned_less [of x, where 'a = nat] by (simp add: unsigned_ucast_eq take_bit_eq_mod)

lemma ucast_u8 [simp]: "ucast (ucast (x :: u8) :: u64) = x"
proof -
  have "unat (ucast y :: u8) = unat y mod 2 ^ 8" for y :: u64
    by (simp add: unsigned_ucast_eq take_bit_eq_mod unat_mod)
  then show ?thesis using unsigned_less [of x, where 'a = nat] by (simp add: word_unat_eq_iff unat_ucast_u8)
qed

lemma ucast_u8_u32 [simp]: "ucast (ucast (x :: u8) :: u32) = x"
proof -
  have "unat (ucast x :: u32) = unat x"
    using unsigned_less [of x, where 'a = nat] by (simp add: unsigned_ucast_eq take_bit_eq_mod)
  moreover have "unat (ucast y :: u8) = unat y mod 2 ^ 8" for y :: u32
    by (simp add: unsigned_ucast_eq take_bit_eq_mod unat_mod)
  ultimately show ?thesis using unsigned_less [of x, where 'a = nat] by (simp add: word_unat_eq_iff)
qed

end
