(* ===== verification/Memory.thy ===== *)
theory Memory
  imports Prelude
begin

text \<open>
  The byte-addressed physical memory every component shares, and the two bulk operations
  of \<open>src/src/lib/string.c\<close> on it, \<open>memset\<close> and \<open>memcpy\<close>.  Memory is a total function
  from 64-bit addresses to bytes; multi-byte accesses are little-endian, as on AArch64.
  The loops of the two operations are translated as they stand and then characterised by
  closed forms (\<open>memset_eq\<close>, \<open>memcpy_eq\<close>), which the component proofs use.
\<close>

type_synonym mem = "u64 \<Rightarrow> u8"

subsection \<open>Address ranges\<close>

definition span :: "u64 \<Rightarrow> nat \<Rightarrow> u64 set" where
  "span a n = {x. unat (x - a) < n}"

definition apart :: "u64 \<Rightarrow> nat \<Rightarrow> u64 \<Rightarrow> nat \<Rightarrow> bool" where
  "apart a n b k \<longleftrightarrow> n \<le> unat (b - a) \<and> k \<le> unat (a - b)"

lemma mem_span: "x \<in> span a n \<longleftrightarrow> unat (x - a) < n"
  by (simp add: span_def)

lemma span_0 [simp]: "span a 0 = {}"
  by (simp add: span_def)

lemma apart_sym: "apart a n b k \<longleftrightarrow> apart b k a n"
  by (auto simp: apart_def)

lemma apart_disjoint: "apart a n b k \<Longrightarrow> span a n \<inter> span b k = {}"
proof -
  have "False" if "n \<le> unat (b - a)" "k \<le> unat (a - b)" "unat (x - a) < n" "unat (x - b) < k" for x
    using that by unat_arith
  then show "apart a n b k \<Longrightarrow> ?thesis" by (auto simp: apart_def span_def)
qed

subsection \<open>Little-endian loads and stores\<close>

fun load_le :: "nat \<Rightarrow> mem \<Rightarrow> u64 \<Rightarrow> u64" where
  "load_le 0 m a = 0"
| "load_le (Suc n) m a = ucast (m a) OR push_bit 8 (load_le n m (a + 1))"

fun store_le :: "nat \<Rightarrow> mem \<Rightarrow> u64 \<Rightarrow> u64 \<Rightarrow> mem" where
  "store_le 0 m a v = m"
| "store_le (Suc n) m a v = store_le n (m(a := ucast v)) (a + 1) (drop_bit 8 v)"

lemma store_le_eq: "n \<le> 8 \<Longrightarrow> store_le n m a v x =
   (if unat (x - a) < n then ucast (drop_bit (8 * unat (x - a)) v) else m x)"
proof (induction n arbitrary: m a v)
  case (Suc n)
  show ?case
  proof (cases "x = a")
    case True
    with Suc show ?thesis by simp
  next
    case False
    with Suc show ?thesis by (simp add: unat_sub_Suc add.commute)
  qed
qed simp

lemma load_le_cong:
  "(\<And>x. x \<in> span a n \<Longrightarrow> m x = m' x) \<Longrightarrow> n \<le> 8 \<Longrightarrow> load_le n m a = load_le n m' a"
proof (induction n arbitrary: a)
  case (Suc n)
  have "load_le n m (a + 1) = load_le n m' (a + 1)"
  proof (rule Suc.IH)
    fix x assume "x \<in> span (a + 1) n"
    then have "x \<in> span a (Suc n)"
      by (cases "x = a") (simp_all add: span_def unat_sub_Suc)
    then show "m x = m' x" by (rule Suc.prems(1))
  qed (use Suc.prems in simp)
  moreover have "m a = m' a" by (rule Suc.prems(1)) (simp add: span_def)
  ultimately show ?case by simp
qed simp

lemma load_le_store_le_same:
  "n \<le> 8 \<Longrightarrow> load_le n (store_le n m a v) a = take_bit (8 * n) v"
proof (induction n arbitrary: m a v)
  case (Suc n)
  have "store_le n (m(a := ucast v)) (a + 1) (drop_bit 8 v) a = ucast v"
    using Suc.prems by (simp add: store_le_eq)
  moreover have "ucast (ucast v :: u8) OR push_bit 8 (take_bit (8 * n) (drop_bit 8 v))
      = take_bit (8 + 8 * n) v"
    by (rule bit_eqI) (auto simp: bit_simps)
  ultimately show ?case using Suc by simp
qed simp

lemma load_le_store_le_apart:
  "apart a n b k \<Longrightarrow> n \<le> 8 \<Longrightarrow> k \<le> 8 \<Longrightarrow> load_le k (store_le n m a v) b = load_le k m b"
  by (rule load_le_cong)
    (use apart_disjoint [of a n b k] in \<open>auto simp: store_le_eq mem_span disjoint_iff\<close>)

subsection \<open>Parts of ranges\<close>

lemma apart_sub:
  assumes "apart a n b k" and "unat x + p \<le> n" and "unat y + q \<le> k" and "0 < p" and "0 < q"
  shows "apart (a + x) p (b + y) q"
proof -
  define d where "d = b - a"
  have D: "n \<le> unat d" "k \<le> unat (- d)" using assms(1) by (simp_all add: apart_def d_def)
  have "d \<noteq> 0" using D assms(2,4) by auto
  then have neg: "unat (- d) = 2 ^ 64 - unat d" "unat d < 2 ^ 64"
    using unat_sub_if' [of 0 d] unat_u64_lt [of d] by (simp_all add: unat_eq_0 word_size)
  have "unat (d - x) = unat d - unat x" using D assms(2) by (simp add: unat_sub_if')
  then have "unat (d - x + y) = unat d - unat x + unat y"
    using D neg assms by (simp add: unat_plus_if')
  moreover have "unat (- d - y) = unat (- d) - unat y" using D assms(3) by (simp add: unat_sub_if')
  then have "unat (- d - y + x) = unat (- d) - unat y + unat x"
    using D neg assms by (simp add: unat_plus_if')
  moreover have e: "b + y - (a + x) = d - x + y" "a + x - (b + y) = - d - y + x" by (simp_all add: d_def)
  ultimately show ?thesis using D assms unfolding apart_def e by (intro conjI) arith+
qed

lemma load_le_upd_apart: "apart x 1 a n \<Longrightarrow> n \<le> 8 \<Longrightarrow> load_le n (m(x := v)) a = load_le n m a"
  by (rule load_le_cong) (use apart_disjoint [of x 1 a n] in \<open>auto simp: mem_span disjoint_iff\<close>)

lemma store_le_apart: "apart a n x 1 \<Longrightarrow> n \<le> 8 \<Longrightarrow> store_le n m a v x = m x"
  by (simp add: store_le_eq apart_def)

lemma load_store_8 [simp]: "load_le 8 (store_le 8 m a v) a = v"
  by (simp add: load_le_store_le_same take_bit_word_eq_self)

lemma span_sub:
  assumes "unat y + k \<le> n" and "n < 2 ^ 64"
  shows "span (a + y) k \<subseteq> span a n"
proof
  fix x assume "x \<in> span (a + y) k"
  then have lt: "unat (x - a - y) < k" by (simp add: mem_span diff_diff_eq)
  then have "unat (x - a - y + y) = unat (x - a - y) + unat y"
    using assms unat_add_lem [of "x - a - y" y] by simp
  with lt assms show "x \<in> span a n" by (simp add: mem_span)
qed

lemma apart_nat:
  fixes a b :: u64
  assumes "unat a + n \<le> unat b" and "unat b + k \<le> 2 ^ 64" and "0 < n"
  shows "apart a n b k"
proof -
  have "unat (b - a) = unat b - unat a" using assms(1) by (simp add: unat_sub_if')
  moreover have "unat (a - b) = 2 ^ 64 + unat a - unat b" using assms(1,3) by (simp add: unat_sub_if' word_size)
  ultimately show ?thesis using assms unfolding apart_def by linarith
qed

lemma span_nat:
  fixes a x :: u64
  assumes "unat a + n \<le> 2 ^ 64"
  shows "x \<in> span a n \<longleftrightarrow> unat a \<le> unat x \<and> unat x < unat a + n"
proof (cases "a \<le> x")
  case True
  then have "unat (x - a) = unat x - unat a" by (simp add: unat_sub)
  with True show ?thesis by (auto simp: mem_span word_le_nat_alt)
next
  case False
  then have "unat (x - a) = 2 ^ 64 + unat x - unat a"
    using unat_u64_lt [of a] by (simp add: unat_sub_if' word_le_nat_alt word_size)
  with False assms show ?thesis by (auto simp: mem_span word_le_nat_alt)
qed

subsection \<open>memset\<close>

fun memset_loop :: "mem \<Rightarrow> u64 \<Rightarrow> u8 \<Rightarrow> nat \<Rightarrow> mem" where
  "memset_loop m p uc 0 = m"
| "memset_loop m p uc (Suc n) = memset_loop (m(p := uc)) (p + 1) uc n"

definition memset :: "mem \<Rightarrow> u64 \<Rightarrow> u32 \<Rightarrow> u64 \<Rightarrow> mem" where
  "memset m s c n = memset_loop m s (ucast c) (unat n)"

lemma memset_loop_eq:
  "n < 2 ^ 64 \<Longrightarrow> memset_loop m p uc n x = (if unat (x - p) < n then uc else m x)"
proof (induction n arbitrary: m p)
  case (Suc n)
  show ?case
  proof (cases "x = p")
    case True
    with Suc show ?thesis by simp
  next
    case False
    with Suc show ?thesis by (simp add: unat_sub_Suc)
  qed
qed simp

lemma memset_eq: "memset m s c n x = (if x \<in> span s (unat n) then ucast c else m x)"
  using unat_u64_lt [of n] by (simp add: memset_def memset_loop_eq mem_span)

lemma load_le_memset_apart:
  "apart s (unat n) b k \<Longrightarrow> k \<le> 8 \<Longrightarrow> load_le k (memset m s c n) b = load_le k m b"
  by (rule load_le_cong) (use apart_disjoint in \<open>fastforce simp: memset_eq\<close>)+

lemma load_le_zero: "(\<And>x. x \<in> span a n \<Longrightarrow> m x = 0) \<Longrightarrow> n \<le> 8 \<Longrightarrow> load_le n m a = 0"
proof -
  assume "\<And>x. x \<in> span a n \<Longrightarrow> m x = 0" "n \<le> 8"
  then have "load_le n m a = load_le n (\<lambda>_. 0) a" by (intro load_le_cong) simp_all
  moreover have "load_le n (\<lambda>_. 0) a = 0" by (induction n arbitrary: a) simp_all
  ultimately show ?thesis by simp
qed

subsection \<open>memcpy\<close>

fun memcpy_loop :: "mem \<Rightarrow> u64 \<Rightarrow> u64 \<Rightarrow> nat \<Rightarrow> mem" where
  "memcpy_loop m d s 0 = m"
| "memcpy_loop m d s (Suc n) = memcpy_loop (m(d := m s)) (d + 1) (s + 1) n"

definition memcpy :: "mem \<Rightarrow> u64 \<Rightarrow> u64 \<Rightarrow> u64 \<Rightarrow> mem" where
  "memcpy m dest src n = memcpy_loop m dest src (unat n)"

lemma memcpy_loop_eq:
  "n < 2 ^ 64 \<Longrightarrow> n \<le> unat (d - s) \<Longrightarrow>
   memcpy_loop m d s n x = (if unat (x - d) < n then m (s + (x - d)) else m x)"
proof (induction n arbitrary: m d s)
  case (Suc n)
  show ?case
  proof (cases "x = d")
    case True
    with Suc show ?thesis by simp
  next
    case False
    have ne: "s + (x - d) \<noteq> d" if "unat (x - d) < Suc n"
    proof
      assume "s + (x - d) = d"
      then have "x - d = d - s" by (simp add: algebra_simps)
      with that Suc.prems show False by simp
    qed
    have eq: "s + 1 + (x - (d + 1)) = s + (x - d)" by (simp add: algebra_simps)
    have lt: "n < 2 ^ 64" using Suc.prems by simp
    have le: "n \<le> unat (d + 1 - (s + 1))" using Suc.prems by simp
    have "memcpy_loop m d s (Suc n) x =
        (if unat (x - (d + 1)) < n then (m(d := m s)) (s + (x - d)) else m x)"
      by (simp only: memcpy_loop.simps Suc.IH [OF lt le] eq fun_upd_other [OF False])
    with ne False show ?thesis by (simp add: unat_sub_Suc)
  qed
qed simp

lemma memcpy_eq:
  "apart dest (unat n) src (unat n) \<Longrightarrow>
   memcpy m dest src n x = (if x \<in> span dest (unat n) then m (src + (x - dest)) else m x)"
  using unat_u64_lt [of n] by (simp add: memcpy_def memcpy_loop_eq apart_def mem_span)

end
