(* ===== verification/Uart.thy ===== *)
theory Uart
  imports Memory
begin

text \<open>
  The PL011 driver, \<open>src/src/lib/uart.c\<close>.  The device itself is hardware: the model takes
  what it answers as data.  \<open>fr_at t\<close> is the value the \<open>t\<close>-th read of the flag register
  returns and \<open>dr_at t\<close> the value of the \<open>t\<close>-th read of the data register; the two
  counters say how many reads were made.  Every register write the driver makes is logged
  in order, with its address.  A polling loop that the hardware never ends is \<open>None\<close>;
  \<open>tx_drains\<close> states the documented behaviour that the transmit FIFO keeps emptying.
\<close>

record uart =
  fr_at :: "nat \<Rightarrow> u32"
  fr_reads :: nat
  dr_at :: "nat \<Rightarrow> u32"
  dr_reads :: nat
  writes :: "(u64 \<times> u32) list"

definition UART_BASE :: u64 where "UART_BASE = 0x09000000"
definition UART_DR :: u64 where "UART_DR = UART_BASE + 0x00"
definition UART_FR :: u64 where "UART_FR = UART_BASE + 0x18"
definition UART_IBRD :: u64 where "UART_IBRD = UART_BASE + 0x24"
definition UART_FBRD :: u64 where "UART_FBRD = UART_BASE + 0x28"
definition UART_LCRH :: u64 where "UART_LCRH = UART_BASE + 0x2C"
definition UART_CR :: u64 where "UART_CR = UART_BASE + 0x30"
definition UART_IMSC :: u64 where "UART_IMSC = UART_BASE + 0x38"

definition UART_FR_RXFE :: u32 where "UART_FR_RXFE = 0x10"
definition UART_FR_TXFF :: u32 where "UART_FR_TXFF = 0x20"
definition UART_LCRH_FEN :: u32 where "UART_LCRH_FEN = 0x10"
definition UART_LCRH_WLEN_8 :: u32 where "UART_LCRH_WLEN_8 = 0x60"
definition UART_CR_UARTEN :: u32 where "UART_CR_UARTEN = 0x01"
definition UART_CR_TXE :: u32 where "UART_CR_TXE = 0x100"
definition UART_CR_RXE :: u32 where "UART_CR_RXE = 0x200"

subsection \<open>Register accesses\<close>

definition write_reg :: "u64 \<Rightarrow> u32 \<Rightarrow> uart \<Rightarrow> uart" where
  "write_reg a v u = u\<lparr>writes := writes u @ [(a, v)]\<rparr>"

definition read_fr :: "uart \<Rightarrow> u32 \<times> uart" where
  "read_fr u = (fr_at u (fr_reads u), u\<lparr>fr_reads := Suc (fr_reads u)\<rparr>)"

definition read_dr :: "uart \<Rightarrow> u32 \<times> uart" where
  "read_dr u = (dr_at u (dr_reads u), u\<lparr>dr_reads := Suc (dr_reads u)\<rparr>)"

subsection \<open>The driver\<close>

definition uart_init :: "uart \<Rightarrow> uart" where
  "uart_init u =
     (let u = write_reg UART_CR 0 u;
          u = write_reg UART_IBRD 26 u;
          u = write_reg UART_FBRD 3 u;
          u = write_reg UART_LCRH (UART_LCRH_WLEN_8 OR UART_LCRH_FEN) u;
          u = write_reg UART_IMSC 0 u
      in write_reg UART_CR (UART_CR_UARTEN OR UART_CR_TXE OR UART_CR_RXE) u)"

partial_function (option) tx_wait :: "uart \<Rightarrow> uart option" where
  "tx_wait u = (case read_fr u of (f, u') \<Rightarrow>
     if f AND UART_FR_TXFF \<noteq> 0 then tx_wait u' else Some u')"

function uart_putc :: "u8 \<Rightarrow> uart \<Rightarrow> uart option" where
  "uart_putc c u = do {
     u \<leftarrow> tx_wait u;
     let u = write_reg UART_DR (ucast c) u;
     if c = 10 then uart_putc 13 u else Some u }"
  by pat_completeness auto
termination
  by (relation "measure (\<lambda>(c, u). if c = 10 then 1 else 0)") auto

declare uart_putc.simps [simp del]

definition uart_getc :: "uart \<Rightarrow> u8 \<times> uart" where
  "uart_getc u = (case read_fr u of (f, u) \<Rightarrow>
     if f AND UART_FR_RXFE \<noteq> 0 then (0, u)
     else (case read_dr u of (d, u) \<Rightarrow> (ucast d, u)))"

definition uart_is_data_available :: "uart \<Rightarrow> bool \<times> uart" where
  "uart_is_data_available u = (case read_fr u of (f, u) \<Rightarrow> (\<not> (f AND UART_FR_RXFE \<noteq> 0), u))"

subsection \<open>What the driver sends\<close>

definition tx_drains :: "uart \<Rightarrow> bool" where
  "tx_drains u \<longleftrightarrow> (\<forall>t. \<exists>t'\<ge>t. fr_at u t' AND UART_FR_TXFF = 0)"

definition crlf :: "u8 \<Rightarrow> u8 list" where
  "crlf c = (if c = 10 then [10, 13] else [c])"

definition sent :: "u8 list \<Rightarrow> (u64 \<times> u32) list" where
  "sent cs = map (\<lambda>c. (UART_DR, ucast c)) (concat (map crlf cs))"

lemma sent_simps [simp]:
  "sent [] = []"
  "sent (c # cs) = map (\<lambda>c. (UART_DR, ucast c)) (crlf c) @ sent cs"
  "sent (cs @ ds) = sent cs @ sent ds"
  by (simp_all add: sent_def)

lemma tx_drains_upd [simp]:
  "tx_drains (u\<lparr>fr_reads := n\<rparr>) = tx_drains u"
  "tx_drains (u\<lparr>dr_reads := n\<rparr>) = tx_drains u"
  "tx_drains (u\<lparr>writes := w\<rparr>) = tx_drains u"
  by (simp_all add: tx_drains_def)

lemma tx_wait_returns:
  assumes "tx_drains u"
  shows "\<exists>n. tx_wait u = Some (u\<lparr>fr_reads := n\<rparr>)"
proof -
  obtain t where "t \<ge> fr_reads u" "fr_at u t AND UART_FR_TXFF = 0"
    using assms by (auto simp: tx_drains_def)
  then show ?thesis
  proof (induction "t - fr_reads u" arbitrary: u)
    case 0
    then have "t = fr_reads u" by simp
    with 0 show ?case by (subst tx_wait.simps) (auto simp: read_fr_def)
  next
    case (Suc k)
    show ?case
    proof (cases "fr_at u (fr_reads u) AND UART_FR_TXFF = 0")
      case True
      then show ?thesis by (subst tx_wait.simps) (auto simp: read_fr_def)
    next
      case False
      have "\<exists>n. tx_wait (u\<lparr>fr_reads := Suc (fr_reads u)\<rparr>)
          = Some (u\<lparr>fr_reads := Suc (fr_reads u)\<rparr>\<lparr>fr_reads := n\<rparr>)"
        using Suc.hyps(2) Suc.prems by (intro Suc.hyps(1)) auto
      with False show ?thesis by (subst tx_wait.simps) (simp add: read_fr_def)
    qed
  qed
qed

lemma uart_putc_sends:
  assumes "tx_drains u"
  shows "\<exists>n. uart_putc c u = Some (u\<lparr>fr_reads := n, writes := writes u @ sent [c]\<rparr>)"
proof -
  have plain: "\<exists>n. uart_putc c u = Some (u\<lparr>fr_reads := n, writes := writes u @ [(UART_DR, ucast c)]\<rparr>)"
    if d: "tx_drains u" and c: "c \<noteq> 10" for c :: u8 and u
    using tx_wait_returns [OF d] c by (auto simp: uart_putc.simps [of c] write_reg_def)
  show ?thesis
  proof (cases "c = 10")
    case True
    obtain n where n: "tx_wait u = Some (u\<lparr>fr_reads := n\<rparr>)" using tx_wait_returns [OF assms] ..
    let ?u = "write_reg UART_DR 10 (u\<lparr>fr_reads := n\<rparr>)"
    have "\<exists>k. uart_putc 13 ?u = Some (?u\<lparr>fr_reads := k, writes := writes ?u @ [(UART_DR, 13)]\<rparr>)"
      using plain [of ?u 13] assms by (simp add: write_reg_def)
    with True n show ?thesis
      by (auto simp: uart_putc.simps [of 10] write_reg_def crlf_def)
  next
    case False
    with plain [OF assms] show ?thesis by (simp add: crlf_def)
  qed
qed

text \<open>A UART whose transmitter is always ready and whose receiver is empty.\<close>

definition idle_uart :: uart where
  "idle_uart = \<lparr>fr_at = (\<lambda>_. UART_FR_RXFE), fr_reads = 0, dr_at = (\<lambda>_. 0), dr_reads = 0, writes = []\<rparr>"

lemma tx_drains_idle [simp]: "tx_drains idle_uart"
  by (auto simp: tx_drains_def idle_uart_def UART_FR_RXFE_def UART_FR_TXFF_def)

end
