(* ===== verification/Machine.thy ===== *)
theory Machine
  imports Uart
begin

text \<open>
  The state all components act on, and the linker symbols.  \<open>machine\<close> holds what C code
  shares without naming it: physical memory and the UART.  Each component theory extends
  the record with the file-scope \<open>static\<close> variables of its source file, so an operation
  is polymorphic in the components above it and visibly leaves their variables alone.
  The statics are modelled as record fields, apart from memory.
\<close>

record machine =
  mem :: mem
  uart :: uart

text \<open>
  The symbols \<open>src/src/linker.ld\<close> defines and \<open>src/src/include/kernel.h\<close> declares.
  Section sizes are a matter of the compiler, so the addresses are a parameter of the
  model; \<open>link_ok\<close> states what the linker script fixes about them: the start address,
  the section order, the page alignment and the 128 KB size of the bitmap, which ends the
  image.  That the image fits the managed gigabyte is the one added assumption.
\<close>

record layout =
  kernel_start :: u64
  text_end :: u64
  rodata_start :: u64
  rodata_end :: u64
  rodata_load :: u64
  data_start :: u64
  data_end :: u64
  data_load :: u64
  bss_start :: u64
  bss_end :: u64
  stack_bottom :: u64
  stack_top :: u64
  pmm_bitmap_start :: u64
  pmm_bitmap_end :: u64
  kernel_end :: u64

definition link_ok :: "layout \<Rightarrow> bool" where
  "link_ok L \<longleftrightarrow>
     kernel_start L = 0x40100000 \<and>
     kernel_start L \<le> text_end L \<and> text_end L \<le> rodata_start L \<and>
     rodata_start L \<le> rodata_end L \<and> rodata_end L \<le> data_start L \<and>
     data_start L \<le> data_end L \<and> data_end L \<le> bss_start L \<and> bss_start L \<le> bss_end L \<and>
     bss_end L \<le> stack_bottom L \<and> stack_bottom L \<le> stack_top L \<and>
     stack_top L \<le> pmm_bitmap_start L \<and> pmm_bitmap_start L mod 4096 = 0 \<and>
     pmm_bitmap_end L = pmm_bitmap_start L + 0x20000 \<and>
     kernel_end L = pmm_bitmap_end L \<and>
     pmm_bitmap_start L \<le> 0x7FFE0000"

text \<open>The symbol values of the checked-in image \<open>src/build/kernel8.elf\<close>.\<close>

definition elf_layout :: layout where
  "elf_layout = \<lparr>kernel_start = 0x40100000, text_end = 0x401052bc,
     rodata_start = 0x401052c0, rodata_end = 0x40106a9d, rodata_load = 0x401052c0,
     data_start = 0x40106aa0, data_end = 0x40106ae8, data_load = 0x40106aa0,
     bss_start = 0x40106b70, bss_end = 0x40106c28,
     stack_bottom = 0x401072e0, stack_top = 0x401172e0,
     pmm_bitmap_start = 0x40118000, pmm_bitmap_end = 0x40138000, kernel_end = 0x40138000\<rparr>"

lemma link_ok_elf: "link_ok elf_layout"
  by (simp add: link_ok_def elf_layout_def)

lemma link_okD:
  assumes "link_ok L"
  shows "kernel_start L = 0x40100000"
    and "0x40100000 \<le> unat (pmm_bitmap_start L)"
    and "unat (pmm_bitmap_start L) \<le> 0x7FFE0000"
    and "unat (pmm_bitmap_start L) mod 4096 = 0"
    and "pmm_bitmap_end L = pmm_bitmap_start L + 0x20000"
    and "kernel_end L = pmm_bitmap_start L + 0x20000"
    and "unat (kernel_end L) = unat (pmm_bitmap_start L) + 0x20000"
proof -
  have le: "(0x40100000 :: u64) \<le> pmm_bitmap_start L" "pmm_bitmap_start L \<le> 0x7FFE0000"
    using assms by (auto simp: link_ok_def)
  show "kernel_start L = 0x40100000" "pmm_bitmap_end L = pmm_bitmap_start L + 0x20000"
    "kernel_end L = pmm_bitmap_start L + 0x20000"
    using assms by (simp_all add: link_ok_def)
  then have ke: "kernel_end L = pmm_bitmap_start L + 0x20000" by simp
  show lo: "0x40100000 \<le> unat (pmm_bitmap_start L)" and hi: "unat (pmm_bitmap_start L) \<le> 0x7FFE0000"
    using le by (simp_all add: word_le_nat_alt)
  show "unat (kernel_end L) = unat (pmm_bitmap_start L) + 0x20000"
    unfolding ke using hi by (simp add: unat_word_ariths)
  have "pmm_bitmap_start L mod 4096 = 0" using assms by (simp add: link_ok_def)
  then show "unat (pmm_bitmap_start L) mod 4096 = 0"
    using unat_mod_distrib [of "pmm_bitmap_start L" 4096] by simp
qed

end
