(* ===== verification/CString.thy ===== *)
theory CString
  imports Machine
begin

text \<open>
  The string functions of \<open>src/src/lib/string.c\<close>, on pointers into byte memory.  A loop
  over a string stops at a NUL byte that nothing guarantees, so each is a partial function:
  \<open>None\<close> is a loop that never ends.  \<open>cstr m p s\<close> says that a NUL-terminated string with
  contents \<open>s\<close> is stored at \<open>p\<close>; under it every function returns, and returns what the
  list function next to it says.
\<close>

record lib_state = machine +
  strtok_last :: u64

subsection \<open>The operations\<close>

partial_function (option) strlen_loop :: "mem \<Rightarrow> u64 \<Rightarrow> u64 \<Rightarrow> u64 option" where
  "strlen_loop m s len = (if m s \<noteq> 0 then strlen_loop m (s + 1) (len + 1) else Some len)"

definition strlen :: "mem \<Rightarrow> u64 \<Rightarrow> u64 option" where
  "strlen m s = strlen_loop m s 0"

partial_function (option) strcmp :: "mem \<Rightarrow> u64 \<Rightarrow> u64 \<Rightarrow> int option" where
  "strcmp m s1 s2 = (if m s1 \<noteq> 0 \<and> m s1 = m s2 then strcmp m (s1 + 1) (s2 + 1)
     else Some (uint (m s1) - uint (m s2)))"

partial_function (option) strncmp :: "mem \<Rightarrow> u64 \<Rightarrow> u64 \<Rightarrow> u64 \<Rightarrow> int option" where
  "strncmp m s1 s2 n = (if n > 0 \<and> m s1 \<noteq> 0 \<and> m s1 = m s2
     then strncmp m (s1 + 1) (s2 + 1) (n - 1)
     else if n = 0 then Some 0 else Some (uint (m s1) - uint (m s2)))"

text \<open>The inner loop of \<open>strspn\<close> and \<open>strpbrk\<close>: does the set string at \<open>a\<close> hold \<open>c\<close>?\<close>

partial_function (option) accept_loop :: "mem \<Rightarrow> u8 \<Rightarrow> u64 \<Rightarrow> bool option" where
  "accept_loop m c a = (if m a \<noteq> 0 then if c = m a then Some True else accept_loop m c (a + 1)
     else Some False)"

partial_function (option) strspn_loop :: "mem \<Rightarrow> u64 \<Rightarrow> u64 \<Rightarrow> u64 \<Rightarrow> u64 option" where
  "strspn_loop m s accept count = (if m s \<noteq> 0
     then do {
       found \<leftarrow> accept_loop m (m s) accept;
       if \<not> found then Some count else strspn_loop m (s + 1) accept (count + 1) }
     else Some count)"

definition strspn :: "mem \<Rightarrow> u64 \<Rightarrow> u64 \<Rightarrow> u64 option" where
  "strspn m s accept = strspn_loop m s accept 0"

partial_function (option) strpbrk :: "mem \<Rightarrow> u64 \<Rightarrow> u64 \<Rightarrow> u64 option" where
  "strpbrk m s reject = (if m s \<noteq> 0
     then do {
       found \<leftarrow> accept_loop m (m s) reject;
       if found then Some s else strpbrk m (s + 1) reject }
     else Some NULL)"

definition strtok :: "u64 \<Rightarrow> u64 \<Rightarrow> 'a lib_state_scheme \<Rightarrow> (u64 \<times> 'a lib_state_scheme) option" where
  "strtok str delim s =
     (let str = (if str = NULL then strtok_last s else str)
      in if str = NULL then Some (NULL, s)
         else do {
           k \<leftarrow> strspn (mem s) str delim;
           let str = str + k;
           if mem s str = 0 then Some (NULL, s\<lparr>strtok_last := NULL\<rparr>)
           else do {
             let token = str;
             str \<leftarrow> strpbrk (mem s) token delim;
             if str = NULL then Some (token, s\<lparr>strtok_last := NULL\<rparr>)
             else Some (token, s\<lparr>mem := (mem s)(str := 0), strtok_last := str + 1\<rparr>) }})"

subsection \<open>Stored strings\<close>

fun bytes_at :: "mem \<Rightarrow> u64 \<Rightarrow> u8 list \<Rightarrow> bool" where
  "bytes_at m p [] = True"
| "bytes_at m p (c # cs) = (m p = c \<and> bytes_at m (p + 1) cs)"

fun cstr :: "mem \<Rightarrow> u64 \<Rightarrow> u8 list \<Rightarrow> bool" where
  "cstr m p [] = (m p = 0)"
| "cstr m p (c # cs) = (c \<noteq> 0 \<and> m p = c \<and> cstr m (p + 1) cs)"

lemma bytes_at_append:
  "bytes_at m p (cs @ ds) \<longleftrightarrow> bytes_at m p cs \<and> bytes_at m (p + of_nat (length cs)) ds"
  by (induction cs arbitrary: p) (auto simp: algebra_simps)

lemma cstr_append:
  "cstr m p (cs @ ds) \<longleftrightarrow> 0 \<notin> set cs \<and> bytes_at m p cs \<and> cstr m (p + of_nat (length cs)) ds"
  by (induction cs arbitrary: p) (auto simp: algebra_simps)

lemma cstr_iff: "cstr m p s \<longleftrightarrow> 0 \<notin> set s \<and> bytes_at m p s \<and> m (p + of_nat (length s)) = 0"
  using cstr_append [of m p s "[]"] by simp

lemma bytes_at_cong:
  assumes "\<And>x. x \<in> span p (length cs) \<Longrightarrow> m x = m' x" and "length cs \<le> 2 ^ 64"
  shows "bytes_at m p cs = bytes_at m' p cs"
  using assms
proof (induction cs arbitrary: p)
  case (Cons c cs)
  have "m p = m' p" by (rule Cons.prems) (simp add: mem_span)
  moreover have "bytes_at m (p + 1) cs = bytes_at m' (p + 1) cs"
  proof (rule Cons.IH)
    fix x assume "x \<in> span (p + 1) (length cs)"
    then have "x \<in> span p (length (c # cs))"
      by (cases "x = p") (simp_all add: mem_span unat_sub_Suc)
    then show "m x = m' x" by (rule Cons.prems)
  qed (use Cons.prems in simp)
  ultimately show ?case by simp
qed simp

lemma cstr_cong:
  assumes "\<And>x. x \<in> span p (Suc (length s)) \<Longrightarrow> m x = m' x" and "length s < 2 ^ 64"
  shows "cstr m p s = cstr m' p s"
proof -
  have "cstr m p s \<longleftrightarrow> 0 \<notin> set s \<and> bytes_at m p (s @ [0])" for m
    by (auto simp: cstr_iff bytes_at_append)
  moreover have "bytes_at m p (s @ [0]) = bytes_at m' p (s @ [0])"
    using assms by (intro bytes_at_cong) auto
  ultimately show ?thesis by simp
qed

lemma cstr_drop:
  assumes "cstr m p s" and "k \<le> length s"
  shows "cstr m (p + of_nat k) (drop k s)"
  using assms cstr_append [of m p "take k s" "drop k s"] by simp

lemma cstr_hd: "cstr m p s \<Longrightarrow> m p = (if s = [] then 0 else hd s)"
  by (cases s) auto

lemma bytes_at_nth: "bytes_at m p cs \<longleftrightarrow> (\<forall>i < length cs. m (p + of_nat i) = cs ! i)"
proof (induction cs arbitrary: p)
  case (Cons c cs)
  then show ?case by (auto simp: nth_Cons add.assoc less_Suc_eq_0_disj split: nat.splits)
qed simp

text \<open>A memory that holds the given bytes at an address and zeroes elsewhere.\<close>

definition place :: "u64 \<Rightarrow> u8 list \<Rightarrow> mem" where
  "place p cs x = (if unat (x - p) < length cs then cs ! unat (x - p) else 0)"

lemma cstr_place: "0 \<notin> set s \<Longrightarrow> length s < 2 ^ 64 \<Longrightarrow> cstr (place p s) p s"
  by (simp add: cstr_iff bytes_at_nth place_def unat_of_nat64)

subsection \<open>Lengths and comparison\<close>

lemma strlen_loop_cstr: "cstr m p s \<Longrightarrow> strlen_loop m p n = Some (n + of_nat (length s))"
  by (induction s arbitrary: p n) (auto simp: strlen_loop.simps [of m] algebra_simps)

lemma strlen_cstr: "cstr m p s \<Longrightarrow> strlen m p = Some (of_nat (length s))"
  by (simp add: strlen_def strlen_loop_cstr)

fun byte_diff :: "u8 list \<Rightarrow> u8 list \<Rightarrow> int" where
  "byte_diff [] [] = 0"
| "byte_diff [] (d # ds) = - uint d"
| "byte_diff (c # cs) [] = uint c"
| "byte_diff (c # cs) (d # ds) = (if c = d then byte_diff cs ds else uint c - uint d)"

lemma strcmp_cstr: "cstr m p s \<Longrightarrow> cstr m q t \<Longrightarrow> strcmp m p q = Some (byte_diff s t)"
proof (induction s t arbitrary: p q rule: byte_diff.induct)
qed (auto simp: strcmp.simps [of m])

lemma byte_diff_0: "0 \<notin> set s \<Longrightarrow> 0 \<notin> set t \<Longrightarrow> byte_diff s t = 0 \<longleftrightarrow> s = t"
  by (induction s t rule: byte_diff.induct) (auto simp: uint_0_iff dest: unsigned_word_eqI)

lemma byte_diff_neg:
  "0 \<notin> set s \<Longrightarrow> 0 \<notin> set t \<Longrightarrow> byte_diff s t < 0 \<longleftrightarrow> (s, t) \<in> lexord {(a, b). a < b}"
  by (induction s t rule: byte_diff.induct) (auto simp: word_less_def uint_0_iff order_less_le)

lemma strncmp_cstr:
  "cstr m p s \<Longrightarrow> cstr m q t \<Longrightarrow>
   strncmp m p q n = Some (byte_diff (take (unat n) s) (take (unat n) t))"
proof (induction s t arbitrary: p q n rule: byte_diff.induct)
  case (4 c cs d ds)
  show ?case
  proof (cases "n = 0")
    case False
    then have "unat n = Suc (unat (n - 1))" by (metis diff_add_cancel diff_0_right unat_sub_Suc add_0)
    with 4 False show ?thesis by (auto simp: strncmp.simps [of m p] word_gt_0)
  qed (simp add: strncmp.simps [of m p])
qed (auto simp: strncmp.simps [of m] word_gt_0 take_Cons' unat_eq_0)

subsection \<open>Spans and tokens\<close>

lemma accept_loop_cstr: "cstr m a d \<Longrightarrow> accept_loop m c a = Some (c \<in> set d)"
  by (induction d arbitrary: a) (auto simp: accept_loop.simps [of m])

lemma strspn_loop_cstr:
  "cstr m p s \<Longrightarrow> cstr m a d \<Longrightarrow>
   strspn_loop m p a n = Some (n + of_nat (length (takeWhile (\<lambda>c. c \<in> set d) s)))"
  by (induction s arbitrary: p n)
    (auto simp: strspn_loop.simps [of m] accept_loop_cstr algebra_simps)

lemma strspn_cstr:
  "cstr m p s \<Longrightarrow> cstr m a d \<Longrightarrow>
   strspn m p a = Some (of_nat (length (takeWhile (\<lambda>c. c \<in> set d) s)))"
  by (simp add: strspn_def strspn_loop_cstr)

lemma strpbrk_cstr:
  "cstr m p s \<Longrightarrow> cstr m a d \<Longrightarrow>
   strpbrk m p a = Some (if \<exists>c \<in> set s. c \<in> set d
     then p + of_nat (length (takeWhile (\<lambda>c. c \<notin> set d) s)) else NULL)"
  by (induction s arbitrary: p)
    (auto simp: strpbrk.simps [of m] accept_loop_cstr algebra_simps)

subsection \<open>Properties\<close>

text \<open>
  (C38) The comparisons return and order strings: on two stored strings \<open>strcmp\<close> is zero
  exactly for equal contents and negative exactly when the first comes first in the
  lexicographic order of unsigned bytes; \<open>strncmp\<close> says the same of the first \<open>n\<close> bytes.
\<close>

theorem strcmp_spec:
  assumes "cstr m p s" and "cstr m q t"
  shows "(\<exists>d. strcmp m p q = Some d \<and> (d = 0 \<longleftrightarrow> s = t) \<and> (d < 0 \<longleftrightarrow> (s, t) \<in> lexord {(a, b). a < b})) \<and>
    (\<exists>d. strncmp m p q n = Some d \<and> (d = 0 \<longleftrightarrow> take (unat n) s = take (unat n) t) \<and>
      (d < 0 \<longleftrightarrow> (take (unat n) s, take (unat n) t) \<in> lexord {(a, b). a < b}))"
proof
  have nz: "0 \<notin> set s" "0 \<notin> set t" using assms by (simp_all add: cstr_iff)
  then have nzt: "0 \<notin> set (take (unat n) s)" "0 \<notin> set (take (unat n) t)" by (auto dest: in_set_takeD)
  show "\<exists>d. strcmp m p q = Some d \<and> (d = 0 \<longleftrightarrow> s = t) \<and> (d < 0 \<longleftrightarrow> (s, t) \<in> lexord {(a, b). a < b})"
    using byte_diff_0 [OF nz] byte_diff_neg [OF nz] by (simp add: strcmp_cstr [OF assms])
  show "\<exists>d. strncmp m p q n = Some d \<and> (d = 0 \<longleftrightarrow> take (unat n) s = take (unat n) t) \<and>
      (d < 0 \<longleftrightarrow> (take (unat n) s, take (unat n) t) \<in> lexord {(a, b). a < b})"
    using byte_diff_0 [OF nzt] byte_diff_neg [OF nzt] by (simp add: strncmp_cstr [OF assms])
qed

theorem strcmp_spec_witness:
  "(\<exists>d. strcmp (place 0 [104, 105, 0, 104, 106]) 0 3 = Some d \<and> d < 0) \<and>
   strncmp (place 0 [104, 105, 0, 104, 106]) 0 3 1 = Some 0"
proof -
  have c: "cstr (place 0 [104, 105, 0, 104, 106]) 0 [104, 105]" "cstr (place 0 [104, 105, 0, 104, 106]) 3 [104, 106]"
    by (simp_all add: place_def)
  then show ?thesis using strcmp_spec [OF c, of 1] by auto
qed

end
