(* ===== verification/Stdio.thy ===== *)
theory Stdio
  imports CString
begin

text \<open>
  Formatted output, \<open>src/src/lib/stdio.c\<close>.  \<open>kprintf\<close> formats into a 1024-byte stack buffer
  and then sends the buffer to the UART.  The buffer is the list of bytes written so far, so
  \<open>buf_ptr - buffer\<close> is its length; a write past its end, a read past the end of the format
  string, a missing argument and an unterminated \<open>%s\<close> string are error values.
  A variadic argument is the 64-bit slot it is passed in (\<open>VA\<close>), or a pointer to a string
  literal (\<open>VStr\<close>).
\<close>

datatype vararg = VA u64 | VStr "u8 list"

datatype kperr = BufferOverrun | FormatOverread | MissingArg | BadArg | Unterminated

definition PRINTF_BUFFER_SIZE :: nat where "PRINTF_BUFFER_SIZE = 1024"
definition MAX_INT_DIGITS :: nat where "MAX_INT_DIGITS = 21"

subsection \<open>Number conversion\<close>

function dec_loop :: "u64 \<Rightarrow> u8 list \<Rightarrow> u8 list" where
  "dec_loop v buf =
     (let buf = (48 + ucast (v mod 10)) # buf; v' = v div 10
      in if v' > 0 then dec_loop v' buf else buf)"
  by pat_completeness auto
termination
proof (relation "measure (\<lambda>(v, buf). unat v)")
  fix v v' :: u64 and buf :: "u8 list"
  assume "v' = v div 10" and "0 < v'"
  then have "unat v' = unat v div 10" and "0 < unat v'"
    by (simp_all add: unat_div word_less_nat_alt)
  then show "((v', buf'), (v, buf)) \<in> measure (\<lambda>(v, buf). unat v)" for buf'
    by auto
qed simp

definition hex_chars :: "bool \<Rightarrow> string" where
  "hex_chars upper = (if upper then ''0123456789ABCDEF'' else ''0123456789abcdef'')"

definition hex_digit :: "bool \<Rightarrow> u64 \<Rightarrow> u8" where
  "hex_digit upper v = of_char (hex_chars upper ! unat (v AND 0xF))"

lemma unat_drop_bit_4: "unat (drop_bit 4 v) = unat (v :: u64) div 16"
  by (simp add: drop_bit_eq_div unat_div)

function hex_loop :: "bool \<Rightarrow> u64 \<Rightarrow> u8 list \<Rightarrow> u8 list" where
  "hex_loop upper v buf =
     (let buf = hex_digit upper v # buf; v' = drop_bit 4 v
      in if v' > 0 then hex_loop upper v' buf else buf)"
  by pat_completeness auto
termination
  by (relation "measure (\<lambda>(upper, v, buf). unat v)")
    (auto simp: unat_drop_bit_4 word_less_nat_alt)

function ptr_loop :: "u64 \<Rightarrow> nat \<Rightarrow> u8 list \<Rightarrow> u8 list" where
  "ptr_loop v digit_count buf =
     (let buf = hex_digit False v # buf; v' = drop_bit 4 v; n = Suc digit_count
      in if v' > 0 \<or> n < 16 then ptr_loop v' n buf else buf)"
  by pat_completeness auto
termination
  by (relation "measure (\<lambda>(v, n, buf). unat v + (16 - n))")
    (auto simp: unat_drop_bit_4 word_less_nat_alt)

declare dec_loop.simps [simp del] hex_loop.simps [simp del] ptr_loop.simps [simp del]

definition signed_dec :: "u64 \<Rightarrow> u8 list" where
  "signed_dec value =
     (let is_negative = value <s 0;
          abs_value = (if is_negative then - value else value);
          num = dec_loop abs_value []
      in if is_negative then of_char CHR ''-'' # num else num)"

subsection \<open>The formatting loop\<close>

definition modifiers :: "string \<Rightarrow> bool \<times> bool \<times> string" where
  "modifiers format = (case format of [] \<Rightarrow> (False, False, format)
     | c # f \<Rightarrow> if c = CHR ''l''
         then (case f of [] \<Rightarrow> (True, False, f)
               | c' # f' \<Rightarrow> if c' = CHR ''l'' then (False, True, f') else (True, False, f))
         else (False, False, format))"

lemma modifiers_length: "modifiers f = (l, ll, f') \<Longrightarrow> length f' \<le> length f"
  by (auto simp: modifiers_def split: list.splits if_splits)

fun va_arg :: "vararg list \<Rightarrow> kperr + u64 \<times> vararg list" where
  "va_arg [] = Inl MissingArg"
| "va_arg (VA v # args) = Inr (v, args)"
| "va_arg (VStr t # args) = Inl BadArg"

fun va_string :: "mem \<Rightarrow> vararg list \<Rightarrow> kperr + u8 list \<times> vararg list" where
  "va_string m [] = Inl MissingArg"
| "va_string m (VStr t # args) = Inr (takeWhile (\<lambda>c. c \<noteq> 0) t, args)"
| "va_string m (VA p # args) =
     (if p = NULL then Inr (bytes ''(null)'', args)
      else case strlen m p of
        None \<Rightarrow> Inl Unterminated
      | Some n \<Rightarrow> Inr (map (\<lambda>i. m (p + of_nat i)) [0..<unat n], args))"

definition put_char :: "u8 \<Rightarrow> u8 list \<Rightarrow> kperr + u8 list" where
  "put_char c out = (if length out < PRINTF_BUFFER_SIZE then Inr (out @ [c]) else Inl BufferOverrun)"

definition put_bytes :: "u8 list \<Rightarrow> u8 list \<Rightarrow> u8 list" where
  "put_bytes cs out = out @ take (PRINTF_BUFFER_SIZE - length out - 1) cs"

definition int_width :: "bool \<Rightarrow> bool \<Rightarrow> u64 \<Rightarrow> u64" where
  "int_width is_long is_longlong v = (if is_longlong \<or> is_long then v else scast (ucast v :: u32))"

definition uint_width :: "bool \<Rightarrow> bool \<Rightarrow> u64 \<Rightarrow> u64" where
  "uint_width is_long is_longlong v = (if is_longlong \<or> is_long then v else ucast (ucast v :: u32))"

definition kp_spec ::
  "mem \<Rightarrow> bool \<Rightarrow> bool \<Rightarrow> char \<Rightarrow> vararg list \<Rightarrow> u8 list \<Rightarrow> kperr + u8 list \<times> vararg list" where
  "kp_spec m is_long is_longlong sp args out =
     (if sp = CHR ''c'' then
        case va_arg args of Inl e \<Rightarrow> Inl e
        | Inr (v, args) \<Rightarrow> (case put_char (ucast v) out of Inl e \<Rightarrow> Inl e | Inr out \<Rightarrow> Inr (out, args))
      else if sp = CHR ''s'' then
        case va_string m args of Inl e \<Rightarrow> Inl e
        | Inr (str, args) \<Rightarrow> Inr (put_bytes str out, args)
      else if sp = CHR ''d'' \<or> sp = CHR ''i'' then
        case va_arg args of Inl e \<Rightarrow> Inl e
        | Inr (v, args) \<Rightarrow> Inr (put_bytes (signed_dec (int_width is_long is_longlong v)) out, args)
      else if sp = CHR ''u'' then
        case va_arg args of Inl e \<Rightarrow> Inl e
        | Inr (v, args) \<Rightarrow> Inr (put_bytes (dec_loop (uint_width is_long is_longlong v) []) out, args)
      else if sp = CHR ''x'' \<or> sp = CHR ''X'' then
        case va_arg args of Inl e \<Rightarrow> Inl e
        | Inr (v, args) \<Rightarrow>
            Inr (put_bytes (hex_loop (sp \<noteq> CHR ''x'') (uint_width is_long is_longlong v) []) out, args)
      else if sp = CHR ''p'' then
        case va_arg args of Inl e \<Rightarrow> Inl e
        | Inr (v, args) \<Rightarrow>
            (let out = (if length out + 2 < PRINTF_BUFFER_SIZE - 1
                        then out @ [of_char CHR ''0'', of_char CHR ''x''] else out)
             in Inr (put_bytes (ptr_loop v 0 []) out, args))
      else if sp = CHR ''%'' then
        case put_char (of_char CHR ''%'') out of Inl e \<Rightarrow> Inl e | Inr out \<Rightarrow> Inr (out, args)
      else
        case put_char (of_char CHR ''%'') out of Inl e \<Rightarrow> Inl e
        | Inr out \<Rightarrow> (case put_char (of_char sp) out of Inl e \<Rightarrow> Inl e | Inr out \<Rightarrow> Inr (out, args)))"

text \<open>
  One round of the loop consumes at least one format character.  When the format ends inside a
  conversion, the code takes the terminator for the conversion, copies it behind the per cent
  sign like any unsupported one, and steps over it.  The next test of the loop reads behind
  the string.  While the buffer has room, what is found there decides how to go on:
  \<open>FormatOverread\<close>.  With the buffer full the loop ends whatever is found there, and the terminator
  of the buffer is still to be written.
\<close>

function kp_loop :: "mem \<Rightarrow> string \<Rightarrow> vararg list \<Rightarrow> u8 list \<Rightarrow> kperr + u8 list" where
  "kp_loop m [] args out = Inr out"
| "kp_loop m (c # f) args out =
     (if length out < PRINTF_BUFFER_SIZE - 1 then
        if c = CHR ''%'' then
          case modifiers f of
            (is_long, is_longlong, []) \<Rightarrow>
              (case kp_spec m is_long is_longlong (CHR 0x00) args out of
                 Inl e \<Rightarrow> Inl e
               | Inr (out, args) \<Rightarrow> if length out < PRINTF_BUFFER_SIZE - 1 then Inl FormatOverread else Inr out)
          | (is_long, is_longlong, sp # f) \<Rightarrow>
              (case kp_spec m is_long is_longlong sp args out of
                 Inl e \<Rightarrow> Inl e
               | Inr (out, args) \<Rightarrow> kp_loop m f args out)
        else case put_char (of_char c) out of Inl e \<Rightarrow> Inl e | Inr out \<Rightarrow> kp_loop m f args out
      else Inr out)"
  by pat_completeness auto
termination
  by (relation "measure (\<lambda>(m, f, args, out). length f)")
    (auto dest!: sym [of _ "modifiers _"] modifiers_length)

definition kprintf_buffer :: "mem \<Rightarrow> string \<Rightarrow> vararg list \<Rightarrow> kperr + u8 list" where
  "kprintf_buffer m format args = (case kp_loop m format args [] of
     Inl e \<Rightarrow> Inl e
   | Inr out \<Rightarrow> if length out < PRINTF_BUFFER_SIZE then Inr out else Inl BufferOverrun)"

fun uart_puts :: "u8 list \<Rightarrow> uart \<Rightarrow> uart option" where
  "uart_puts [] u = Some u"
| "uart_puts (c # cs) u = do { u \<leftarrow> uart_putc c u; uart_puts cs u }"

definition kprintf :: "string \<Rightarrow> vararg list \<Rightarrow> 'a machine_scheme \<Rightarrow> (nat \<times> 'a machine_scheme) option" where
  "kprintf format args s = (case kprintf_buffer (mem s) format args of
     Inl e \<Rightarrow> None
   | Inr out \<Rightarrow> do {
       u \<leftarrow> uart_puts (takeWhile (\<lambda>c. c \<noteq> 0) out) (uart s);
       Some (length out, s\<lparr>uart := u\<rparr>) })"

subsection \<open>Input\<close>

definition kgetc :: "'a machine_scheme \<Rightarrow> u8 \<times> 'a machine_scheme" where
  "kgetc s = (case uart_getc (uart s) of (c, u) \<Rightarrow> (c, s\<lparr>uart := u\<rparr>))"

partial_function (option) getc_wait :: "uart \<Rightarrow> (u8 \<times> uart) option" where
  "getc_wait u = (case uart_getc u of (c, u) \<Rightarrow> if c = 0 then getc_wait u else Some (c, u))"

definition kgetc_blocking :: "'a machine_scheme \<Rightarrow> (u8 \<times> 'a machine_scheme) option" where
  "kgetc_blocking s = do {
     (c, u) \<leftarrow> getc_wait (uart s);
     Some (if c = 13 then 10 else c, s\<lparr>uart := u\<rparr>) }"

subsection \<open>Positional notation\<close>

fun positional :: "nat \<Rightarrow> (nat \<Rightarrow> u8) \<Rightarrow> nat \<Rightarrow> u8 list" where
  "positional b dg n = (if n < b \<or> b < 2 then [dg n] else positional b dg (n div b) @ [dg (n mod b)])"

declare positional.simps [simp del]

lemma positional_length: "0 < k \<Longrightarrow> n < b ^ k \<Longrightarrow> 2 \<le> b \<Longrightarrow> length (positional b dg n) \<le> k"
proof (induction k arbitrary: n)
  case (Suc k)
  show ?case
  proof (cases "n < b")
    case False
    then have "0 < k" using Suc.prems by (cases k) auto
    moreover have "n div b < b ^ k" using Suc.prems by (simp add: less_mult_imp_div_less mult.commute)
    ultimately have "length (positional b dg (n div b)) \<le> k" using Suc by blast
    then show ?thesis by (subst positional.simps) simp
  qed (subst positional.simps, simp)
qed simp

lemma positional_nonempty [simp]: "positional b dg n \<noteq> []"
  by (subst positional.simps) simp

definition dec_digit :: "nat \<Rightarrow> u8" where "dec_digit d = 48 + of_nat d"

lemma dec_loop_positional: "dec_loop v buf = positional 10 dec_digit (unat v) @ buf"
proof (induction v buf rule: dec_loop.induct)
  case (1 v buf)
  have digit: "48 + ucast (v mod 10) = dec_digit (unat v mod 10)"
    using of_nat_unat [of "v mod 10", where 'a = u8] by (simp add: unat_mod dec_digit_def)
  have pos: "v div 10 > 0 \<longleftrightarrow> \<not> unat v < 10" by (simp add: word_less_nat_alt unat_div) arith
  show ?case
    using 1 by (subst dec_loop.simps, subst positional.simps)
       (auto simp: Let_def pos digit unat_div)
qed

lemma nat_hex_digit: "hex_digit upper v = of_char (hex_chars upper ! (unat v mod 16))"
proof -
  have "v AND 0xF = take_bit 4 v" by (simp add: take_bit_eq_mask mask_eq_exp_minus_1)
  then have "unat (v AND 0xF) = unat v mod 16" by (simp add: take_bit_eq_mod unat_mod)
  then show ?thesis by (simp add: hex_digit_def)
qed

lemma hex_loop_positional:
  "hex_loop upper v buf = positional 16 (\<lambda>d. of_char (hex_chars upper ! d)) (unat v) @ buf"
proof (induction upper v buf rule: hex_loop.induct)
  case (1 upper v buf)
  have pos: "drop_bit 4 v > 0 \<longleftrightarrow> \<not> unat v < 16" 
    by (simp add: word_less_nat_alt unat_drop_bit_4 del: drop_bit_eq_div) arith
  show ?case
    using 1 by (subst hex_loop.simps, subst positional.simps)
       (auto simp: Let_def pos nat_hex_digit unat_drop_bit_4)
qed

lemma ptr_loop_length:
  "n < 16 \<Longrightarrow> unat v < 16 ^ (16 - n) \<Longrightarrow> length (ptr_loop v n buf) = 16 - n + length buf"
proof (induction v n buf rule: ptr_loop.induct)
  case (1 v n buf)
  have d: "unat (drop_bit 4 v) < 16 ^ (16 - Suc n)"
  proof -
    have "16 - n = Suc (16 - Suc n)" using "1.prems" by simp
    with "1.prems" show ?thesis
      by (simp add: unat_drop_bit_4 less_mult_imp_div_less mult.commute del: drop_bit_eq_div)
  qed
  show ?case
  proof (cases "Suc n < 16")
    case True
    with "1.IH" d show ?thesis by (subst ptr_loop.simps) (simp add: Let_def)
  next
    case False
    with "1.prems" have "n = 15" by simp
    with d have "drop_bit 4 v = 0" by (simp add: unat_eq_0)
    with \<open>n = 15\<close> show ?thesis by (subst ptr_loop.simps) (simp add: Let_def)
  qed
qed

lemma dec_loop_length: "length (dec_loop v []) \<le> 20"
  using positional_length [of 20 "unat v" 10 dec_digit] unat_u64_lt [of v]
  by (simp add: dec_loop_positional)

lemma hex_loop_length: "length (hex_loop upper v []) \<le> 16"
  using positional_length [of 16 "unat v" 16] unat_u64_lt [of v]
  by (simp add: hex_loop_positional)

lemma signed_dec_length: "length (signed_dec v) \<le> 20"
proof (cases "v <s 0")
  case True
  then have neg: "sint v < 0" by (simp add: word_sless_alt)
  have "uint (word_of_int (- sint v) :: u64) = (- sint v) mod 2 ^ 64"
    by (subst uint_word_of_int) simp
  then have "uint (- v) = (- sint v) mod 2 ^ 64" by simp
  also have "\<dots> = - sint v"
    using neg sint_greater_eq [of v] by (intro mod_pos_pos_trivial) auto
  finally have "uint (- v) = - sint v" .
  then have "unat (- v) < 10 ^ 19" using sint_greater_eq [of v] by (simp add: unat_eq_nat_uint)
  then show ?thesis
    using positional_length [of 19 "unat (- v)" 10 dec_digit] True
    by (simp add: signed_dec_def dec_loop_positional)
next
  case False
  then show ?thesis by (simp add: signed_dec_def dec_loop_length)
qed

subsection \<open>Bounds of the formatting buffer\<close>

definition supported :: "char \<Rightarrow> bool" where
  "supported sp \<longleftrightarrow> sp \<in> set ''csdiuxXp%''"

function fmt_supported :: "string \<Rightarrow> bool" where
  "fmt_supported [] = True"
| "fmt_supported (c # f) = (if c = CHR ''%''
     then case modifiers f of
            (l, ll, []) \<Rightarrow> False
          | (l, ll, sp # f) \<Rightarrow> supported sp \<and> fmt_supported f
     else fmt_supported f)"
  by pat_completeness auto
termination
  by (relation "measure length") (auto dest!: sym [of _ "modifiers _"] modifiers_length)

lemmas buffer_defs = put_char_def put_bytes_def PRINTF_BUFFER_SIZE_def

lemma put_char_room [simp]: "length out < 1024 \<Longrightarrow> put_char c out = Inr (out @ [c])"
  by (simp add: buffer_defs)

lemma put_bytes_length: "length out \<le> 1023 \<Longrightarrow> length (put_bytes cs out) \<le> 1023"
  by (simp add: buffer_defs)

lemma kp_spec_simps:
  "kp_spec m l ll CHR ''c'' args out = (case va_arg args of Inl e \<Rightarrow> Inl e
     | Inr (v, args) \<Rightarrow> (case put_char (ucast v) out of Inl e \<Rightarrow> Inl e | Inr out \<Rightarrow> Inr (out, args)))"
  "kp_spec m l ll CHR ''s'' args out = (case va_string m args of Inl e \<Rightarrow> Inl e
     | Inr (str, args) \<Rightarrow> Inr (put_bytes str out, args))"
  "kp_spec m l ll CHR ''d'' args out = (case va_arg args of Inl e \<Rightarrow> Inl e
     | Inr (v, args) \<Rightarrow> Inr (put_bytes (signed_dec (int_width l ll v)) out, args))"
  "kp_spec m l ll CHR ''i'' args out = (case va_arg args of Inl e \<Rightarrow> Inl e
     | Inr (v, args) \<Rightarrow> Inr (put_bytes (signed_dec (int_width l ll v)) out, args))"
  "kp_spec m l ll CHR ''u'' args out = (case va_arg args of Inl e \<Rightarrow> Inl e
     | Inr (v, args) \<Rightarrow> Inr (put_bytes (dec_loop (uint_width l ll v) []) out, args))"
  "kp_spec m l ll CHR ''x'' args out = (case va_arg args of Inl e \<Rightarrow> Inl e
     | Inr (v, args) \<Rightarrow> Inr (put_bytes (hex_loop False (uint_width l ll v) []) out, args))"
  "kp_spec m l ll CHR ''X'' args out = (case va_arg args of Inl e \<Rightarrow> Inl e
     | Inr (v, args) \<Rightarrow> Inr (put_bytes (hex_loop True (uint_width l ll v) []) out, args))"
  "kp_spec m l ll CHR ''p'' args out = (case va_arg args of Inl e \<Rightarrow> Inl e
     | Inr (v, args) \<Rightarrow> Inr (put_bytes (ptr_loop v 0 [])
         (if length out + 2 < 1023 then out @ [48, 120] else out), args))"
  "kp_spec m l ll CHR ''%'' args out = (case put_char 37 out of Inl e \<Rightarrow> Inl e | Inr out \<Rightarrow> Inr (out, args))"
  by (simp_all add: kp_spec_def PRINTF_BUFFER_SIZE_def Let_def split: sum.splits)

lemma kp_spec_unsupported:
  "\<not> supported sp \<Longrightarrow> length out < 1023 \<Longrightarrow>
   kp_spec m l ll sp args out = Inr (out @ [37, of_char sp], args)"
  by (simp add: kp_spec_def supported_def)

lemma supportedE:
  assumes "supported sp"
  obtains "sp = CHR ''c''" | "sp = CHR ''s''" | "sp = CHR ''d''" | "sp = CHR ''i''" | "sp = CHR ''u''"
    | "sp = CHR ''x''" | "sp = CHR ''X''" | "sp = CHR ''p''" | "sp = CHR ''%''"
proof -
  have "supported sp \<longleftrightarrow> sp = CHR ''c'' \<or> sp = CHR ''s'' \<or> sp = CHR ''d'' \<or> sp = CHR ''i'' \<or>
      sp = CHR ''u'' \<or> sp = CHR ''x'' \<or> sp = CHR ''X'' \<or> sp = CHR ''p'' \<or> sp = CHR ''%''"
    by (simp add: supported_def)
  with assms that show thesis by blast
qed

lemma va_errors: "va_arg args \<noteq> Inl BufferOverrun" "va_string m args \<noteq> Inl BufferOverrun"
proof -
  show "va_arg args \<noteq> Inl BufferOverrun" by (cases args rule: va_arg.cases) simp_all
  show "va_string m args \<noteq> Inl BufferOverrun"
    by (cases "(m, args)" rule: va_string.cases) (simp_all split: option.splits)
qed

lemma kp_spec_room:
  assumes "supported sp" and "length out < 1023"
  shows "case kp_spec m l ll sp args out of
      Inl e \<Rightarrow> e \<noteq> BufferOverrun | Inr (out', args') \<Rightarrow> length out' \<le> 1023"
proof -
  note simps = kp_spec_simps put_bytes_length
  have 1: "length (out @ [48, 120]) \<le> 1023" if "length out + 2 < 1023" using that by simp
  show ?thesis
    using assms(1)
  proof (cases rule: supportedE)
    case 2
    with assms(2) va_errors(2) [of m args] show ?thesis
      by (cases "va_string m args") (auto simp: simps)
  qed (use assms(2) va_errors(1) [of args] in \<open>cases "va_arg args"; auto simp: simps 1\<close>)+
qed

lemma fmt_induct [case_names Nil Plain End Conv]:
  assumes "P []"
    and "\<And>c f. c \<noteq> CHR ''%'' \<Longrightarrow> P f \<Longrightarrow> P (c # f)"
    and "\<And>f l ll. modifiers f = (l, ll, []) \<Longrightarrow> P (CHR ''%'' # f)"
    and "\<And>f l ll sp f'. modifiers f = (l, ll, sp # f') \<Longrightarrow> P f' \<Longrightarrow> P (CHR ''%'' # f)"
  shows "P f"
proof (induction f rule: length_induct)
  case (1 f)
  show ?case
  proof (cases f)
    case (Cons c g)
    obtain l ll h where h: "modifiers g = (l, ll, h)" by (cases "modifiers g") auto
    from modifiers_length [OF h] 1 Cons assms h show ?thesis
      by (cases "c = CHR ''%''"; cases h) auto
  qed (use assms in simp)
qed

lemma kp_loop_conv:
  "length out < 1023 \<Longrightarrow> modifiers f = (l, ll, sp # f') \<Longrightarrow>
   kp_loop m (CHR ''%'' # f) args out = (case kp_spec m l ll sp args out of
     Inl e \<Rightarrow> Inl e | Inr (out, args) \<Rightarrow> kp_loop m f' args out)"
  by (simp add: PRINTF_BUFFER_SIZE_def)

lemma kp_loop_end:
  assumes "length out < 1023" and "modifiers f = (l, ll, [])"
  shows "kp_loop m (CHR ''%'' # f) args out =
     (if length out < 1021 then Inl FormatOverread else Inr (out @ [37, 0]))"
proof -
  have "\<not> supported (CHR 0x00)" by (simp add: supported_def)
  with assms kp_spec_unsupported [of "CHR 0x00" out m l ll args] show ?thesis
    by (auto simp: PRINTF_BUFFER_SIZE_def)
qed

lemma kp_loop_plain:
  "length out < 1023 \<Longrightarrow> c \<noteq> CHR ''%'' \<Longrightarrow> kp_loop m (c # f) args out = kp_loop m f args (out @ [of_char c])"
  by (simp add: PRINTF_BUFFER_SIZE_def)

lemma kp_loop_full: "\<not> length out < 1023 \<Longrightarrow> kp_loop m f args out = Inr out"
  by (cases f) (simp_all add: PRINTF_BUFFER_SIZE_def)

declare kp_loop.simps(2) [simp del]

lemma kp_loop_room:
  "fmt_supported f \<Longrightarrow> length out \<le> 1023 \<Longrightarrow>
   case kp_loop m f args out of Inl e \<Rightarrow> e \<noteq> BufferOverrun | Inr out' \<Rightarrow> length out' \<le> 1023"
proof (induction f arbitrary: args out rule: fmt_induct)
  case (Plain c f)
  then show ?case by (cases "length out < 1023") (auto simp: kp_loop_plain kp_loop_full)
next
  case (End f l ll)
  then show ?case by simp
next
  case (Conv f l ll sp f')
  then have "supported sp" "fmt_supported f'" by simp_all
  with Conv kp_spec_room [of sp out m l ll args] show ?case
    by (cases "length out < 1023"; cases "kp_spec m l ll sp args out")
      (auto simp: kp_loop_conv kp_loop_full)
qed simp

lemma kprintf_buffer_no_overrun:
  "fmt_supported f \<Longrightarrow> kprintf_buffer m f args \<noteq> Inl BufferOverrun"
  using kp_loop_room [of f "[]" m args]
  by (auto simp: kprintf_buffer_def PRINTF_BUFFER_SIZE_def split: sum.splits)

subsection \<open>Calls that return\<close>

function fmt_width :: "string \<Rightarrow> vararg list \<Rightarrow> nat option" where
  "fmt_width [] args = Some 0"
| "fmt_width (c # f) args = (if c = CHR ''%''
     then case modifiers f of
            (l, ll, []) \<Rightarrow> None
          | (l, ll, sp # f) \<Rightarrow>
              if sp = CHR ''s'' then
                (case args of VStr t # args \<Rightarrow> map_option ((+) (length t)) (fmt_width f args) | _ \<Rightarrow> None)
              else if sp \<in> set ''cdiuxXp'' then
                (case args of VA v # args \<Rightarrow> map_option ((+) 20) (fmt_width f args) | _ \<Rightarrow> None)
              else map_option ((+) 2) (fmt_width f args)
     else map_option Suc (fmt_width f args))"
  by pat_completeness auto
termination
  by (relation "measure (\<lambda>(f, args). length f)")
    (auto dest!: sym [of _ "modifiers _"] modifiers_length)

lemma kp_spec_width_arg:
  assumes "length out + 20 \<le> 1023" and "sp \<in> set ''cdiuxXp''"
  shows "\<exists>out'. kp_spec m l ll sp (VA v # args) out = Inr (out', args) \<and> length out' \<le> length out + 20"
proof -
  have pb: "length (put_bytes cs o') \<le> length o' + length cs" for cs o' by (simp add: put_bytes_def)
  have len: "length (dec_loop w []) \<le> 20" "length (signed_dec w) \<le> 20"
    "length (hex_loop up w []) \<le> 20" "length (ptr_loop w 0 []) = 16" for w up
    using dec_loop_length signed_dec_length hex_loop_length [of up w] ptr_loop_length [of 0 w "[]"]
      unat_u64_lt [of w] by simp_all
  have "supported sp" "sp \<noteq> CHR ''s''" "sp \<noteq> CHR ''%''"
    using assms(2) by (auto simp: supported_def)
  then show ?thesis
  proof (cases rule: supportedE)
    case 8
    with pb [of "ptr_loop v 0 []" "out @ [48, 120]"] len(4) [of v] assms(1) show ?thesis
      by (simp add: kp_spec_simps)
  qed (use assms(1) pb [of _ out] len in
      \<open>simp_all add: kp_spec_simps; meson add_left_mono le_trans\<close>)+
qed

lemma kp_spec_width_other:
  assumes "length out + 2 \<le> 1023" and "sp \<notin> set ''scdiuxXp''"
  shows "\<exists>out'. kp_spec m l ll sp args out = Inr (out', args) \<and> length out' \<le> length out + 2"
proof (cases "supported sp")
  case True
  then have "sp = CHR ''%''" using assms(2) by (auto simp: supported_def)
  with assms(1) show ?thesis by (simp add: kp_spec_simps)
qed (use assms in \<open>simp add: kp_spec_unsupported\<close>)

lemma kp_spec_width_str:
  "\<exists>out'. kp_spec m l ll CHR ''s'' (VStr t # args) out = Inr (out', args)
      \<and> length out' \<le> length out + length t"
  using length_takeWhile_le [of "\<lambda>c. c \<noteq> 0" t] by (simp add: kp_spec_simps put_bytes_def)

lemma fmt_width_convE:
  assumes "fmt_width (CHR ''%'' # f) args = Some w" and "modifiers f = (l, ll, sp # f')"
    and "length out + w \<le> 1023"
  obtains args' w' out' where "fmt_width f' args' = Some w'"
    and "kp_spec m l ll sp args out = Inr (out', args')" and "length out' + w' \<le> length out + w"
proof (cases "sp = CHR ''s''")
  case True
  with assms(1,2) obtain t args' w' where a: "args = VStr t # args'" "fmt_width f' args' = Some w'"
    "w = length t + w'" by (auto split: list.splits vararg.splits)
  with kp_spec_width_str [of m l ll t args' out] True that show thesis by fastforce
next
  case ns: False
  show thesis
  proof (cases "sp \<in> set ''cdiuxXp''")
    case True
    with assms(1,2) ns obtain v args' w' where a: "args = VA v # args'" "fmt_width f' args' = Some w'"
      "w = 20 + w'" by (auto split: list.splits vararg.splits)
    with kp_spec_width_arg [of out sp m l ll v args'] True assms(3) that show thesis by fastforce
  next
    case False
    with assms(1,2) ns obtain w' where a: "fmt_width f' args = Some w'" "w = 2 + w'" by auto
    have "sp \<notin> set ''scdiuxXp''" using ns False by simp
    with a kp_spec_width_other [of out sp m l ll args] assms(3) that show thesis by fastforce
  qed
qed

lemma kp_loop_width:
  "fmt_width f args = Some w \<Longrightarrow> length out + w \<le> 1023 \<Longrightarrow>
   \<exists>out'. kp_loop m f args out = Inr out' \<and> length out' \<le> length out + w"
proof (induction f arbitrary: args out w rule: fmt_induct)
  case (Plain c f)
  then obtain w' where "fmt_width f args = Some w'" "w = Suc w'" by auto
  with Plain.IH [of args w' "out @ [of_char c]"] Plain.hyps Plain.prems show ?case
    by (auto simp: kp_loop_plain)
next
  case (Conv f l ll sp f')
  obtain args' w' out' where *: "fmt_width f' args' = Some w'"
    "kp_spec m l ll sp args out = Inr (out', args')" "length out' + w' \<le> length out + w"
    by (rule fmt_width_convE [OF Conv.prems(1) Conv.hyps Conv.prems(2)])
  then obtain out'' where "kp_loop m f' args' out' = Inr out''" "length out'' \<le> length out' + w'"
    using Conv.IH [of args' w' out'] Conv.prems by auto
  with * Conv show ?case
    by (cases "length out < 1023") (auto simp: kp_loop_conv kp_loop_full)
qed simp_all

lemma uart_puts_sends:
  "tx_drains u \<Longrightarrow> \<exists>n. uart_puts cs u = Some (u\<lparr>fr_reads := n, writes := writes u @ sent cs\<rparr>)"
proof (induction cs arbitrary: u)
  case Nil
  have "uart_puts [] u = Some (u\<lparr>fr_reads := fr_reads u, writes := writes u @ sent []\<rparr>)" by simp
  then show ?case by blast
next
  case (Cons c cs)
  obtain n where n: "uart_putc c u = Some (u\<lparr>fr_reads := n, writes := writes u @ sent [c]\<rparr>)"
    using uart_putc_sends [OF Cons.prems] by blast
  with Cons.IH [of "u\<lparr>fr_reads := n, writes := writes u @ sent [c]\<rparr>"] Cons.prems
  show ?case by auto
qed

lemma kprintf_sends:
  assumes "kprintf_buffer (mem s) f args = Inr out" and "tx_drains (uart s)"
  shows "\<exists>n. kprintf f args s = Some (length out, s\<lparr>uart := (uart s)\<lparr>fr_reads := n,
     writes := writes (uart s) @ sent (takeWhile (\<lambda>c. c \<noteq> 0) out)\<rparr>\<rparr>)"
  using uart_puts_sends [OF assms(2), of "takeWhile (\<lambda>c. c \<noteq> 0) out"] assms(1)
  by (auto simp: kprintf_def)

subsection \<open>The logging calls of the kernel\<close>

text \<open>
  The kernel ignores what \<open>kprintf\<close> returns; \<open>kprint\<close> is the call statement.  A call whose
  format fits the buffer whatever the arguments' values are returns, and changes nothing
  but the UART.
\<close>

definition kprint :: "string \<Rightarrow> vararg list \<Rightarrow> 'a machine_scheme \<Rightarrow> 'a machine_scheme option" where
  "kprint format args s = map_option snd (kprintf format args s)"

definition fits :: "string \<Rightarrow> vararg list \<Rightarrow> bool" where
  "fits f args = (case fmt_width f args of None \<Rightarrow> False | Some w \<Rightarrow> w \<le> 1023)"

definition kprint_uart :: "string \<Rightarrow> vararg list \<Rightarrow> 'a machine_scheme \<Rightarrow> uart" where
  "kprint_uart f args s = uart (the (kprint f args s))"

lemma fits_buffer: "fits f args \<Longrightarrow> \<exists>out. kprintf_buffer m f args = Inr out"
  using kp_loop_width [of f args _ "[]" m]
  by (force simp: fits_def kprintf_buffer_def PRINTF_BUFFER_SIZE_def split: option.splits)

lemma kprint_fits:
  assumes "fits f args" and "tx_drains (uart s)"
  shows "kprint f args s = Some (s\<lparr>uart := kprint_uart f args s\<rparr>)"
    and "tx_drains (kprint_uart f args s)"
proof -
  obtain out where "kprintf_buffer (mem s) f args = Inr out"
    using fits_buffer [OF assms(1)] by blast
  from kprintf_sends [OF this assms(2)] assms(2)
  show "kprint f args s = Some (s\<lparr>uart := kprint_uart f args s\<rparr>)" "tx_drains (kprint_uart f args s)"
    by (auto simp: kprint_def kprint_uart_def)
qed

end
