(* ===== verification/Console.thy ===== *)
theory Console
  imports Stdio
begin

text \<open>
  Sequences of console output.  \<open>logs out s s'\<close> says that \<open>s'\<close> is \<open>s\<close> after the bytes \<open>out\<close>
  were sent and nothing else was changed; a sequence of \<open>kprintf\<close> calls is a chain of such
  steps.  A format whose conversions are all unsupported is copied to the console whatever
  the arguments are: \<open>literal_text\<close> computes the copy.
\<close>

definition logs :: "u8 list \<Rightarrow> 'a machine_scheme \<Rightarrow> 'a machine_scheme \<Rightarrow> bool" where
  "logs out s s' \<longleftrightarrow> tx_drains (uart s) \<and>
     (\<exists>n. s' = s\<lparr>uart := (uart s)\<lparr>fr_reads := n, writes := writes (uart s) @ sent out\<rparr>\<rparr>)"

lemma logs_refl [simp]: "logs [] s s \<longleftrightarrow> tx_drains (uart s)"
proof -
  have "s = s\<lparr>uart := (uart s)\<lparr>fr_reads := fr_reads (uart s), writes := writes (uart s) @ sent []\<rparr>\<rparr>"
    by simp
  then show ?thesis unfolding logs_def by blast
qed

lemma logs_trans [trans]: "logs a s s' \<Longrightarrow> logs b s' s'' \<Longrightarrow> logs (a @ b) s s''"
  by (auto simp: logs_def)

lemma logsD:
  assumes "logs out s s'"
  shows "mem s' = mem s" and "tx_drains (uart s')" and "writes (uart s') = writes (uart s) @ sent out"
    and "machine.more s' = machine.more s"
  using assms by (auto simp: logs_def)

lemma kprint_logs:
  assumes "kprintf_buffer (mem s) f args = Inr out" and "tx_drains (uart s)"
  shows "\<exists>s'. kprint f args s = Some s' \<and> logs (takeWhile (\<lambda>c. c \<noteq> 0) out) s s'"
  using kprintf_sends [OF assms] assms(2) by (auto simp: kprint_def logs_def)

text \<open>A format that fits the buffer whatever its arguments are prints something and returns.\<close>

lemma kprint_fits_logs:
  assumes "fits f args" and "tx_drains (uart s)"
  obtains s' out where "kprint f args s = Some s'" and "logs out s s'"
proof -
  obtain out where "kprintf_buffer (mem s) f args = Inr out"
    using fits_buffer [OF assms(1)] by blast
  with kprint_logs assms(2) that show thesis by blast
qed

subsection \<open>Formats without a supported conversion\<close>

function literal_text :: "string \<Rightarrow> u8 list option" where
  "literal_text [] = Some []"
| "literal_text (c # f) = (if c = CHR ''%''
     then case modifiers f of
            (l, ll, []) \<Rightarrow> None
          | (l, ll, sp # f) \<Rightarrow>
              if supported sp then None else map_option (\<lambda>t. 37 # of_char sp # t) (literal_text f)
     else map_option (\<lambda>t. of_char c # t) (literal_text f))"
  by pat_completeness auto
termination
  by (relation "measure length") (auto dest!: sym [of _ "modifiers _"] modifiers_length)

lemma kp_loop_literal:
  "literal_text f = Some t \<Longrightarrow> length out + length t \<le> 1022 \<Longrightarrow> kp_loop m f args out = Inr (out @ t)"
proof (induction f arbitrary: out t rule: fmt_induct)
  case (Plain c f)
  then show ?case by (auto simp: kp_loop_plain)
next
  case (Conv f l ll sp f')
  then have ns: "\<not> supported sp" by (auto split: if_splits)
  with Conv obtain t' where t': "literal_text f' = Some t'" "t = 37 # of_char sp # t'" by auto
  with Conv ns show ?case by (simp add: kp_loop_conv kp_spec_unsupported)
qed auto

lemma kprintf_literal:
  assumes "literal_text f = Some t" and "length t \<le> 1022"
  shows "kprintf_buffer m f args = Inr t"
  using kp_loop_literal [OF assms(1), of "[]"] assms(2)
  by (simp add: kprintf_buffer_def PRINTF_BUFFER_SIZE_def)

lemma takeWhile_nonzero: "0 \<notin> set t \<Longrightarrow> takeWhile (\<lambda>c. c \<noteq> 0) t = t"
  by (induction t) auto

text \<open>A \<open>verbatim\<close> format is sent as it stands.\<close>

definition verbatim :: "string \<Rightarrow> bool" where
  "verbatim f \<longleftrightarrow> literal_text f = Some (bytes f) \<and> length f \<le> 1022 \<and> 0 \<notin> set (bytes f)"

lemmas verbatim_simps = verbatim_def modifiers_def supported_def

lemma kprint_verbatim:
  assumes "verbatim f" and "tx_drains (uart s)"
  obtains s' where "kprint f args s = Some s'" and "logs (bytes f) s s'"
  using kprint_logs [OF kprintf_literal, of f "bytes f" s args] assms that
  by (auto simp: verbatim_def takeWhile_nonzero)

subsection \<open>Strings in memory as arguments\<close>

text \<open>
  A pointer to a stored string prints as the string: \<open>denotes m a b\<close> replaces such an argument
  by its contents, after which the bounds for string literals apply to it.
\<close>

definition denotes :: "mem \<Rightarrow> vararg \<Rightarrow> vararg \<Rightarrow> bool" where
  "denotes m a b \<longleftrightarrow> a = b \<or>
     (\<exists>p t. a = VA p \<and> b = VStr t \<and> p \<noteq> NULL \<and> cstr m p t \<and> length t < 2 ^ 64)"

lemma denotes_refl [simp]: "denotes m a a"
  by (simp add: denotes_def)

lemma va_string_cstr:
  assumes "cstr m p t" and "p \<noteq> NULL" and "length t < 2 ^ 64"
  shows "va_string m (VA p # args) = Inr (t, args)"
proof -
  have "map (\<lambda>i. m (p + of_nat i)) [0..<length t] = t"
    using assms(1) by (intro nth_equalityI) (simp_all add: cstr_iff bytes_at_nth)
  with assms show ?thesis by (simp add: strlen_cstr unat_of_nat64)
qed

lemma va_string_denotes:
  assumes "list_all2 (denotes m) args args'" and "va_string m args' = Inr (t, rest')"
  obtains rest where "va_string m args = Inr (t, rest)" and "list_all2 (denotes m) rest rest'"
proof (cases args)
  case (Cons a as)
  with assms(1) obtain b bs where b: "args' = b # bs" "denotes m a b" "list_all2 (denotes m) as bs"
    by (auto simp: list_all2_Cons1)
  show thesis
  proof (cases "a = b")
    case True
    then have "va_string m args = Inr (t, as) \<and> rest' = bs"
      using assms(2) Cons b(1) by (cases b) (auto split: if_splits option.splits)
    with b that show thesis by blast
  next
    case False
    with b obtain p u where p: "a = VA p" "b = VStr u" "p \<noteq> NULL" "cstr m p u" "length u < 2 ^ 64"
      by (auto simp: denotes_def)
    have "takeWhile (\<lambda>c. c \<noteq> 0) u = u" using p(4) by (auto simp: cstr_iff takeWhile_eq_all_conv)
    with p b(1) assms(2) have "t = u" "rest' = bs" by simp_all
    with va_string_cstr [OF p(4,3,5), of as] Cons p(1) b(3) that show thesis by simp
  qed
qed (use assms in simp)

lemma va_arg_denotes:
  assumes "list_all2 (denotes m) args args'" and "va_arg args' = Inr (v, rest')"
  obtains rest where "va_arg args = Inr (v, rest)" and "list_all2 (denotes m) rest rest'"
proof -
  from assms(2) have "args' = VA v # rest'" by (cases args' rule: va_arg.cases) auto
  with assms(1) obtain rest where "args = VA v # rest" "list_all2 (denotes m) rest rest'"
    by (auto simp: list_all2_Cons2 denotes_def)
  with that show thesis by simp
qed

lemma kp_spec_arg:
  assumes "supported sp" and "sp \<noteq> CHR ''s''" and "sp \<noteq> CHR ''%''" and "length out < 1023"
  shows "\<exists>out'. \<forall>rest. kp_spec m l ll sp (VA v # rest) out = Inr (out', rest)"
    and "kp_spec m l ll sp args out = Inr r \<Longrightarrow> \<exists>v. args = VA v # snd r"
proof -
  show "\<exists>out'. \<forall>rest. kp_spec m l ll sp (VA v # rest) out = Inr (out', rest)"
    using assms(1) by (rule supportedE) (use assms(2-) in \<open>simp_all add: kp_spec_simps\<close>)
  have "kp_spec m l ll sp args out = Inr r \<longrightarrow> (\<exists>v. args = VA v # snd r)"
    using assms(1) by (rule supportedE)
     (use assms(2-) in \<open>cases args rule: va_arg.cases; simp add: kp_spec_simps; fastforce\<close>)+
  then show "kp_spec m l ll sp args out = Inr r \<Longrightarrow> \<exists>v. args = VA v # snd r" ..
qed

lemma kp_spec_denotes:
  assumes "list_all2 (denotes m) args args'" and "kp_spec m l ll sp args' out = Inr (out', rest')"
    and "length out < 1023"
  obtains rest where "kp_spec m l ll sp args out = Inr (out', rest)" and "list_all2 (denotes m) rest rest'"
proof -
  consider "sp = CHR ''s''" | "sp = CHR ''%''" | "\<not> supported sp"
    | "supported sp" "sp \<noteq> CHR ''s''" "sp \<noteq> CHR ''%''" by blast
  then show thesis
  proof cases
    case 1
    with assms(2) obtain t where t: "va_string m args' = Inr (t, rest')" "out' = put_bytes t out"
      by (auto simp: kp_spec_simps split: sum.splits)
    from va_string_denotes [OF assms(1) t(1)] obtain rest
      where "va_string m args = Inr (t, rest)" "list_all2 (denotes m) rest rest'" .
    with 1 t that show thesis by (simp add: kp_spec_simps)
  next
    case 4
    from kp_spec_arg(2) [OF 4 assms(3,2)] obtain v where v: "args' = VA v # rest'" by auto
    from va_arg_denotes [OF assms(1), of v rest'] v obtain rest
      where "va_arg args = Inr (v, rest)" and r: "list_all2 (denotes m) rest rest'" by auto
    then have "args = VA v # rest" by (cases args rule: va_arg.cases) auto
    with kp_spec_arg(1) [OF 4 assms(3), of m l ll v] assms(2) v r that show thesis by auto
  qed (use assms that in \<open>auto simp: kp_spec_simps kp_spec_unsupported\<close>)
qed

lemma kp_loop_denotes:
  "list_all2 (denotes m) args args' \<Longrightarrow> kp_loop m f args' out = Inr out' \<Longrightarrow> kp_loop m f args out = Inr out'"
proof (induction f arbitrary: args args' out rule: fmt_induct)
  case (Plain c f)
  then show ?case by (cases "length out < 1023") (auto simp: kp_loop_plain kp_loop_full)
next
  case (End f l ll)
  then show ?case by (cases "length out < 1023") (auto simp: kp_loop_end kp_loop_full split: if_splits)
next
  case (Conv f l ll sp f')
  show ?case
  proof (cases "length out < 1023")
    case True
    with Conv.prems(2) Conv.hyps obtain o' rest' where "kp_spec m l ll sp args' out = Inr (o', rest')"
      and o: "kp_loop m f' rest' o' = Inr out'" by (auto simp: kp_loop_conv split: sum.splits)
    from kp_spec_denotes [OF Conv.prems(1) this(1) True] obtain rest
      where "kp_spec m l ll sp args out = Inr (o', rest)" "list_all2 (denotes m) rest rest'" .
    with Conv.IH [OF this(2) o] True Conv.hyps show ?thesis by (simp add: kp_loop_conv)
  qed (use Conv.prems in \<open>simp add: kp_loop_full\<close>)
qed simp

lemma kprintf_denotes:
  "list_all2 (denotes m) args args' \<Longrightarrow> kprintf_buffer m f args' = Inr out \<Longrightarrow> kprintf_buffer m f args = Inr out"
  by (auto simp: kprintf_buffer_def split: sum.splits if_splits dest!: kp_loop_denotes)

lemma kprint_denotes:
  assumes "list_all2 (denotes (mem s)) args args'" and "fits f args'" and "tx_drains (uart s)"
  obtains s' out where "kprint f args s = Some s'" and "logs out s s'"
proof -
  obtain out where "kprintf_buffer (mem s) f args' = Inr out"
    using fits_buffer [OF assms(2)] by blast
  from kprint_logs [OF kprintf_denotes [OF assms(1) this] assms(3)] that show thesis by blast
qed

subsection \<open>Properties\<close>

text \<open>
  (C20) The formatting buffer is not overrun by a format whose conversions are all supported
  and which does not end inside a conversion, whatever the arguments are: what is written has at most 1023 bytes and the terminator
  finds its place.
\<close>

theorem kprintf_bounded:
  assumes "fmt_supported f"
  shows "case kprintf_buffer m f args of Inl e \<Rightarrow> e \<noteq> BufferOverrun | Inr out \<Rightarrow> length out < PRINTF_BUFFER_SIZE"
  using kp_loop_room [OF assms, of "[]" m args]
  by (auto simp: kprintf_buffer_def PRINTF_BUFFER_SIZE_def split: sum.splits)

theorem kprintf_bounded_witness:
  "case kprintf_buffer (\<lambda>_. 0) ''[%s] %d%%'' [VStr (replicate 5000 65), VA 7] of
     Inl e \<Rightarrow> e \<noteq> BufferOverrun | Inr out \<Rightarrow> length out < PRINTF_BUFFER_SIZE"
  by (rule kprintf_bounded) (simp add: modifiers_def supported_def)

lemma kp_loop_replicate:
  "c \<noteq> CHR ''%'' \<Longrightarrow> length out + n \<le> 1023 \<Longrightarrow>
   kp_loop m (replicate n c @ f) args out = kp_loop m f args (out @ replicate n (of_char c))"
proof (induction n arbitrary: out)
  case (Suc n)
  then have "kp_loop m (replicate (Suc n) c @ f) args out = kp_loop m f args ((out @ [of_char c]) @ replicate n (of_char c))"
    by (simp add: kp_loop_plain)
  then show ?case by simp
qed simp

text \<open>
  (C35) An unsupported conversion takes two bytes where the loop has checked for one: when
  1022 bytes are in the buffer already, its second byte takes the place of the terminator and
  the terminator is written behind the buffer.  The same happens when the format ends in a per
  cent sign there: the terminator of the format is copied as if it were a conversion.
\<close>

theorem kprintf_overrun:
  assumes "c \<noteq> CHR ''%''" and "\<not> supported sp" and "sp \<noteq> CHR ''l''"
  shows "kprintf_buffer m (replicate 1022 c @ CHR ''%'' # sp # f) args = Inl BufferOverrun \<and>
     kprintf_buffer m (replicate 1022 c @ ''%'') args = Inl BufferOverrun"
proof -
  let ?out = "replicate 1022 (of_char c)"
  have md: "modifiers (sp # f) = (False, False, sp # f)" using assms(3) by (simp add: modifiers_def)
  have "kp_loop m (replicate 1022 c @ CHR ''%'' # sp # f) args [] = kp_loop m (CHR ''%'' # sp # f) args ?out"
    using kp_loop_replicate [OF assms(1), of "[]" 1022] by simp
  also have "\<dots> = kp_loop m f args (?out @ [37, of_char sp])"
    using kp_loop_conv [OF _ md, of ?out] kp_spec_unsupported [OF assms(2), of ?out] by simp
  also have "\<dots> = Inr (?out @ [37, of_char sp])" by (rule kp_loop_full) simp
  finally have 1: "kprintf_buffer m (replicate 1022 c @ CHR ''%'' # sp # f) args = Inl BufferOverrun"
    by (simp add: kprintf_buffer_def PRINTF_BUFFER_SIZE_def)
  have "kp_loop m (replicate 1022 c @ ''%'') args [] = kp_loop m ''%'' args ?out"
    using kp_loop_replicate [OF assms(1), of "[]" 1022] by simp
  also have "\<dots> = Inr (?out @ [37, 0])" using kp_loop_end [of ?out "[]" False False m args] by (simp add: modifiers_def)
  finally show ?thesis using 1 by (simp add: kprintf_buffer_def PRINTF_BUFFER_SIZE_def)
qed

theorem kprintf_overrun_witness:
  "kprintf_buffer (\<lambda>_. 0) (replicate 1022 CHR ''a'' @ ''%zu'') [VA 1] = Inl BufferOverrun \<and>
   kprintf_buffer (\<lambda>_. 0) (replicate 1022 CHR ''a'' @ ''%'') [VA 1] = Inl BufferOverrun"
  by (rule kprintf_overrun) (simp_all add: supported_def)

text \<open>
  (C28) What \<open>kprintf\<close> sends is what it has formatted, up to the first NUL and with a carriage
  return after every newline; it returns the number of bytes formatted and changes nothing
  but the UART.
\<close>

theorem kprintf_spec:
  assumes "kprintf_buffer (mem s) f args = Inr out" and "tx_drains (uart s)"
  shows "\<exists>n. kprintf f args s = Some (length out, s\<lparr>uart := (uart s)\<lparr>fr_reads := n,
     writes := writes (uart s) @ map (\<lambda>c. (UART_DR, ucast c))
       (concat (map (\<lambda>c. if c = 10 then [10, 13] else [c]) (takeWhile (\<lambda>c. c \<noteq> 0) out)))\<rparr>\<rparr>)"
  using kprintf_sends [OF assms] by (simp add: sent_def crlf_def [abs_def])

theorem kprintf_spec_witness:
  "\<exists>s'. kprintf ''%u\<newline>'' [VA 42] \<lparr>mem = (\<lambda>_. 0), uart = idle_uart\<rparr> = Some (3, s') \<and>
     writes (uart s') = [(0x09000000, 52), (0x09000000, 50), (0x09000000, 10), (0x09000000, 13)]"
proof -
  let ?s = "\<lparr>mem = (\<lambda>_. 0), uart = idle_uart\<rparr>"
  have d: "dec_loop 42 [] = [52, 50]" by code_simp
  have "kprintf_buffer (mem ?s) ''%u\<newline>'' [VA 42] = Inr [52, 50, 10]"
    by (simp add: kprintf_buffer_def kp_loop.simps modifiers_def kp_spec_simps uint_width_def d buffer_defs)
  moreover have "tx_drains (uart ?s)" by simp
  ultimately show ?thesis using kprintf_spec [of ?s "''%u\<newline>''" "[VA 42]" "[52, 50, 10]"]
    by (auto simp: UART_DR_def UART_BASE_def idle_uart_def [THEN arg_cong, of writes])
qed

end
