(* ===== verification/Stdlib.thy ===== *)
theory Stdlib
  imports Stdio
begin

text \<open>
  Number parsing and \<open>abort\<close>, \<open>src/src/lib/stdlib_stubs.c\<close>.  \<open>strtoull\<close> is the body of
  \<open>simple_strtoull\<close> on a string in memory; it returns the value and the address where parsing
  stopped, and \<open>simple_strtoull\<close> stores that address through a non-null \<open>endptr\<close>.  A caller
  that passes the address of a local variable uses the pair.  \<open>base\<close> is a C \<open>int\<close>.
  \<open>parse_ref\<close> is the reference on lists: whitespace, sign, prefix, the longest run of digits,
  and its value cut off at the largest 64-bit number.
\<close>

text \<open>
  How a function that may stop the machine ends: \<open>Returned\<close> to its caller, or \<open>Halted\<close> in a
  loop that does nothing, with the state it leaves behind.
\<close>

datatype 's outcome = Returned 's | Halted 's

definition UINT64_MAX :: u64 where "UINT64_MAX = - 1"
definition ULONG_MAX :: u64 where "ULONG_MAX = - 1"

subsection \<open>The operations\<close>

definition is_space :: "u8 \<Rightarrow> bool" where
  "is_space c \<longleftrightarrow> c = 32 \<or> c = 9 \<or> c = 10 \<or> c = 13 \<or> c = 12 \<or> c = 11"

partial_function (option) skip_space :: "mem \<Rightarrow> u64 \<Rightarrow> u64 option" where
  "skip_space m nptr = (if is_space (m nptr) then skip_space m (nptr + 1) else Some nptr)"

definition skip_sign :: "mem \<Rightarrow> u64 \<Rightarrow> u64" where
  "skip_sign m nptr = (if m nptr = 43 then nptr + 1 else if m nptr = 45 then nptr + 1 else nptr)"

definition find_base :: "mem \<Rightarrow> int \<Rightarrow> u64 \<Rightarrow> int \<times> u64" where
  "find_base m base nptr =
     (if (base = 0 \<or> base = 16) \<and> m nptr = 48 \<and> (m (nptr + 1) = 120 \<or> m (nptr + 1) = 88)
      then (16, nptr + 2)
      else if base = 0 then (10, nptr) else (base, nptr))"

definition digit_of :: "u8 \<Rightarrow> int option" where
  "digit_of c =
     (if c \<ge> 48 \<and> c \<le> 57 then Some (uint c - 48)
      else if c \<ge> 97 \<and> c \<le> 122 then Some (uint c - 97 + 10)
      else if c \<ge> 65 \<and> c \<le> 90 then Some (uint c - 65 + 10)
      else None)"

partial_function (option) skip_digits :: "mem \<Rightarrow> int \<Rightarrow> u64 \<Rightarrow> u64 option" where
  "skip_digits m base nptr = (case digit_of (m nptr) of
     None \<Rightarrow> Some nptr
   | Some digit \<Rightarrow> if digit \<ge> base then Some nptr else skip_digits m base (nptr + 1))"

partial_function (option) digits_loop ::
  "mem \<Rightarrow> int \<Rightarrow> u64 \<Rightarrow> u64 \<Rightarrow> u64 \<Rightarrow> u64 \<Rightarrow> (u64 \<times> u64) option" where
  "digits_loop m base cutoff cutlim result nptr = (case digit_of (m nptr) of
     None \<Rightarrow> Some (result, nptr)
   | Some digit \<Rightarrow>
       if digit \<ge> base then Some (result, nptr)
       else if result > cutoff \<or> (result = cutoff \<and> of_int digit > cutlim) then do {
         nptr \<leftarrow> skip_digits m base (nptr + 1);
         Some (UINT64_MAX, nptr) }
       else digits_loop m base cutoff cutlim (result * of_int base + of_int digit) (nptr + 1))"

definition strtoull :: "mem \<Rightarrow> u64 \<Rightarrow> int \<Rightarrow> (u64 \<times> u64) option" where
  "strtoull m orig_nptr base = do {
     nptr \<leftarrow> skip_space m orig_nptr;
     let nptr = skip_sign m nptr;
     let (base, nptr) = find_base m base nptr;
     if base < 2 \<or> base > 16 then Some (0, orig_nptr)
     else digits_loop m base (UINT64_MAX div of_int base) (UINT64_MAX mod of_int base) 0 nptr }"

definition simple_strtoull ::
  "u64 \<Rightarrow> u64 \<Rightarrow> int \<Rightarrow> 'a machine_scheme \<Rightarrow> (u64 \<times> 'a machine_scheme) option" where
  "simple_strtoull nptr endptr base s = do {
     (result, e) \<leftarrow> strtoull (mem s) nptr base;
     Some (result, if endptr \<noteq> NULL then s\<lparr>mem := store_le 8 (mem s) endptr e\<rparr> else s) }"

definition simple_strtoul ::
  "u64 \<Rightarrow> u64 \<Rightarrow> int \<Rightarrow> 'a machine_scheme \<Rightarrow> (u64 \<times> 'a machine_scheme) option" where
  "simple_strtoul nptr endptr base s = do {
     (val, s) \<leftarrow> simple_strtoull nptr endptr base s;
     if val > ULONG_MAX then Some (ULONG_MAX, s) else Some (val, s) }"

definition abort_k :: "'a machine_scheme \<Rightarrow> 'a machine_scheme outcome option" where
  "abort_k s = do {
     s \<leftarrow> kprint ''ABORT CALLED!\<newline>'' [] s;
     Some (Halted s) }"

subsection \<open>The reference parser\<close>

text \<open>
  The reference has its own tables: a digit is its position in the alphabet of digits, in
  either case, and white space is the blank and the five control characters from tab to
  carriage return.
\<close>

definition digit_table :: "(u8 \<times> nat) list" where
  "digit_table = zip (bytes ''0123456789abcdefghijklmnopqrstuvwxyz'') [0..<36] @
     zip (bytes ''ABCDEFGHIJKLMNOPQRSTUVWXYZ'') [10..<36]"

definition is_digit :: "int \<Rightarrow> u8 \<Rightarrow> bool" where
  "is_digit base c = (case map_of digit_table c of None \<Rightarrow> False | Some d \<Rightarrow> int d < base)"

definition digit_nat :: "u8 \<Rightarrow> nat" where
  "digit_nat c = (case map_of digit_table c of None \<Rightarrow> 0 | Some d \<Rightarrow> d)"

definition blank :: "u8 \<Rightarrow> bool" where
  "blank c \<longleftrightarrow> c = 32 \<or> 9 \<le> c \<and> c \<le> 13"

definition digits_value :: "int \<Rightarrow> nat \<Rightarrow> u8 list \<Rightarrow> nat" where
  "digits_value base = foldl (\<lambda>n c. n * nat base + digit_nat c)"

definition sign_length :: "u8 list \<Rightarrow> nat" where
  "sign_length s = (if s \<noteq> [] \<and> hd s \<in> {43, 45} then 1 else 0)"

definition prefix_ref :: "int \<Rightarrow> u8 list \<Rightarrow> int \<times> nat" where
  "prefix_ref base s =
     (if base \<in> {0, 16} \<and> take 2 s \<in> {[48, 120], [48, 88]} then (16, 2)
      else if base = 0 then (10, 0) else (base, 0))"

definition parse_ref :: "int \<Rightarrow> u8 list \<Rightarrow> nat \<times> nat" where
  "parse_ref base s =
     (let w = length (takeWhile blank s);
          k = w + sign_length (drop w s);
          (base, p) = prefix_ref base (drop k s);
          ds = takeWhile (is_digit base) (drop (k + p) s)
      in if base < 2 \<or> base > 16 then (0, 0)
         else (min (2 ^ 64 - 1) (digits_value base 0 ds), k + p + length ds))"

text \<open>The tables of the code agree with those of the reference.\<close>

lemma digit_table_facts:
  "list_all (\<lambda>(c, d). digit_of c = Some (int d)) digit_table"
  "map fst digit_table = map of_nat ([48..<58] @ [97..<123] @ [65..<91])"
  by code_simp+

lemma digit_of_listed:
  assumes "digit_of c = Some d"
  shows "c \<in> fst ` set digit_table"
proof -
  have "unat c \<in> set ([48..<58] @ [97..<123] @ [65..<91])"
    using assms by (auto simp: digit_of_def word_le_nat_alt simp del: upt_rec_numeral split: if_splits)
  then have "of_nat (unat c) \<in> set (map of_nat ([48..<58] @ [97..<123] @ [65..<91]) :: u8 list)"
    by (simp only: set_map imageI)
  then show ?thesis unfolding digit_table_facts(2) [symmetric] by simp
qed

lemma digit_of_table: "digit_of c = map_option int (map_of digit_table c)"
proof (cases "map_of digit_table c")
  case None
  then have "c \<notin> fst ` set digit_table" by (simp add: map_of_eq_None_iff)
  with digit_of_listed [of c] None show ?thesis by (cases "digit_of c") auto
next
  case (Some d)
  with digit_table_facts(1) map_of_SomeD [OF Some] show ?thesis by (auto simp: list_all_iff)
qed

lemma is_space_blank: "is_space c \<longleftrightarrow> blank c"
  unfolding is_space_def blank_def word_le_nat_alt word_unat_eq_iff by (simp, arith)

lemma is_digit_eq: "is_digit base c = (case digit_of c of None \<Rightarrow> False | Some d \<Rightarrow> d < base)"
  by (simp add: is_digit_def digit_of_table split: option.split)

lemma digit_nat_eq: "digit_nat c = (case digit_of c of None \<Rightarrow> 0 | Some d \<Rightarrow> nat d)"
  by (simp add: digit_nat_def digit_of_table split: option.split)

lemma parse_ref_eq:
  "parse_ref base s =
     (let w = length (takeWhile is_space s);
          k = w + sign_length (drop w s);
          (base, p) = prefix_ref base (drop k s);
          ds = takeWhile (is_digit base) (drop (k + p) s)
      in if base < 2 \<or> base > 16 then (0, 0)
         else (min (2 ^ 64 - 1) (digits_value base 0 ds), k + p + length ds))"
  by (simp add: parse_ref_def is_space_blank [abs_def])

lemmas parse_defs = parse_ref_eq digits_value_def digit_nat_eq digit_of_def is_digit_eq is_space_def
  sign_length_def prefix_ref_def

subsection \<open>The parser implements the reference\<close>

lemma is_space_0 [simp]: "\<not> is_space 0"
  by (simp add: is_space_def)

lemma digit_of_0 [simp]: "digit_of 0 = None"
  by (simp add: digit_of_def)

lemma skip_space_cstr:
  "cstr m p s \<Longrightarrow> skip_space m p = Some (p + of_nat (length (takeWhile is_space s)))"
  by (induction s arbitrary: p) (auto simp: skip_space.simps [of m] algebra_simps)

lemma skip_sign_cstr: "cstr m p s \<Longrightarrow> skip_sign m p = p + of_nat (sign_length s)"
  by (cases s) (auto simp: skip_sign_def sign_length_def)

lemma find_base_cstr:
  assumes "cstr m p s"
  shows "find_base m base p = (fst (prefix_ref base s), p + of_nat (snd (prefix_ref base s)))"
proof -
  have "m p = 48 \<and> (m (p + 1) = 120 \<or> m (p + 1) = 88) \<longleftrightarrow> take 2 s \<in> {[48, 120], [48, 88]}"
  proof (cases s)
    case (Cons c t)
    with assms show ?thesis by (cases t) (auto simp: take_Cons')
  qed (use assms in auto)
  then show ?thesis by (auto simp: find_base_def prefix_ref_def)
qed

lemma skip_digits_cstr:
  "cstr m p s \<Longrightarrow> skip_digits m base p = Some (p + of_nat (length (takeWhile (is_digit base) s)))"
  by (induction s arbitrary: p)
    (auto simp: skip_digits.simps [of m] is_digit_eq algebra_simps split: option.splits)

lemma digit_of_range: "digit_of c = Some d \<Longrightarrow> 0 \<le> d \<and> d < 36"
  by (auto simp: digit_of_def word_le_def split: if_splits)

lemma digits_value_mono: "0 < base \<Longrightarrow> n \<le> digits_value base n ds"
proof (induction ds arbitrary: n)
  case (Cons c ds)
  from Cons.IH [of "n * nat base + digit_nat c"] Cons.prems
  have "n * nat base + digit_nat c \<le> digits_value base n (c # ds)" by (simp add: digits_value_def)
  moreover have "n \<le> n * nat base" using Cons.prems by (cases "nat base") simp_all
  ultimately show ?case by linarith
qed (simp add: digits_value_def)

text \<open>The overflow test of the loop is exact: it holds just when the next value has 65 bits.\<close>

lemma cutoff_nat:
  fixes M b r d :: nat
  assumes "d < b"
  shows "M < r * b + d \<longleftrightarrow> r > M div b \<or> (r = M div b \<and> d > M mod b)"
proof -
  have M: "M = M div b * b + M mod b" and le: "M div b * b \<le> M" by simp_all
  have "M mod b < b" using assms by simp
  show ?thesis
  proof (cases r "M div b" rule: linorder_cases)
    case less
    then have "Suc r * b \<le> M div b * b" by (intro mult_le_mono1) simp
    then have "r * b + d < M" using assms le by (simp only: mult_Suc)

    with less show ?thesis by simp
  next
    case equal
    with M show ?thesis by (metis nat_add_left_cancel_less less_irrefl)
  next
    case greater
    then have "Suc (M div b) * b \<le> r * b" by (intro mult_le_mono1) simp
    moreover have "M < Suc (M div b) * b" using \<open>M mod b < b\<close> M by (metis add.commute add_less_cancel_left mult_Suc)
    ultimately have "M < r * b" by simp
    with greater show ?thesis by simp
  qed
qed

lemma cutoff_exact:
  fixes result :: u64
  assumes "2 \<le> base" "base \<le> 16" "0 \<le> digit" "digit < base"
  shows "result > UINT64_MAX div of_int base
         \<or> (result = UINT64_MAX div of_int base \<and> of_int digit > (UINT64_MAX mod of_int base))
       \<longleftrightarrow> 2 ^ 64 \<le> unat result * nat base + nat digit"
proof -
  have ub: "unat (of_int base :: u64) = nat base" and ud: "unat (of_int digit :: u64) = nat digit"
    using assms by (simp_all add: unat_eq_nat_uint uint_word_of_int)
  have q: "unat (UINT64_MAX div of_int base) = 18446744073709551615 div nat base"
    and r: "unat (UINT64_MAX mod of_int base) = 18446744073709551615 mod nat base"
    by (simp_all add: unat_div unat_mod ub UINT64_MAX_def)
  have "nat digit < nat base" using assms by simp
  note cutoff_nat [OF this, of 18446744073709551615 "unat result"]
  moreover have "2 ^ 64 \<le> n \<longleftrightarrow> 18446744073709551615 < n" for n :: nat by auto
  ultimately show ?thesis
    by (simp only: word_less_nat_alt word_unat_eq_iff q r ud)
qed

lemma digits_loop_cstr:
  assumes "2 \<le> base" "base \<le> 16" and "cstr m p s"
  defines "ds \<equiv> takeWhile (is_digit base) s"
  shows "digits_loop m base (UINT64_MAX div of_int base) (UINT64_MAX mod of_int base) r p
    = Some (of_nat (min (2 ^ 64 - 1) (digits_value base (unat r) ds)), p + of_nat (length ds))"
  using assms(3) unfolding ds_def
proof (induction s arbitrary: p r)
  case Nil
  have "min (2 ^ 64 - 1) (unat r) = unat r" using unat_u64_lt [of r] by simp
  with Nil show ?case by (simp add: digits_loop.simps [of m _ _ _ _ p] digits_value_def)
next
  case (Cons c s)
  show ?case
  proof (cases "is_digit base c")
    case False
    have "min (2 ^ 64 - 1) (unat r) = unat r" using unat_u64_lt [of r] by simp
    with False Cons.prems show ?thesis
      by (auto simp: digits_loop.simps [of m _ _ _ _ p] digits_value_def is_digit_eq split: option.splits)
  next
    case True
    then obtain d where d: "digit_of c = Some d" "d < base" "0 \<le> d"
      using digit_of_range by (auto simp: is_digit_eq split: option.splits)
    let ?n = "unat r * nat base + nat d"
    have v: "digits_value base (unat r) (c # t) = digits_value base ?n t" for t
      by (simp add: digits_value_def digit_nat_eq d)
    note cut = cutoff_exact [OF assms(1,2) d(3,2), of r]
    show ?thesis
    proof (cases "2 ^ 64 \<le> ?n")
      case True
      let ?t = "takeWhile (is_digit base) s"
      have "?n \<le> digits_value base ?n ?t" using digits_value_mono assms(1) by simp
      with True have "min (2 ^ 64 - 1) (digits_value base ?n ?t) = 2 ^ 64 - 1" by simp
      with True d Cons.prems cut skip_digits_cstr [of m "p + 1" s base] \<open>is_digit base c\<close> v
      show ?thesis
        by (subst digits_loop.simps) (simp add: UINT64_MAX_def)
    next
      case False
      have nv: "r * of_int base + of_int d = of_nat ?n" using assms(1) d by (simp add: of_nat_nat)
      have "unat (of_nat ?n :: u64) = ?n" using False by (intro unat_of_nat64) simp
      with Cons.IH [of "p + 1" "of_nat ?n"] Cons.prems
      have "digits_loop m base (UINT64_MAX div of_int base) (UINT64_MAX mod of_int base) (of_nat ?n) (p + 1)
        = Some (of_nat (min (2 ^ 64 - 1) (digits_value base ?n (takeWhile (is_digit base) s))),
            p + 1 + of_nat (length (takeWhile (is_digit base) s)))"
        by (simp only: cstr.simps)
      moreover have "digits_loop m base (UINT64_MAX div of_int base) (UINT64_MAX mod of_int base) r p
        = digits_loop m base (UINT64_MAX div of_int base) (UINT64_MAX mod of_int base) (of_nat ?n) (p + 1)"
        unfolding nv [symmetric] using False d Cons.prems cut by (subst digits_loop.simps) auto
      ultimately show ?thesis using \<open>is_digit base c\<close> by (simp add: v add.assoc)
    qed
  qed
qed

lemma sign_length_le: "sign_length s \<le> length s"
  by (cases s) (auto simp: sign_length_def)

lemma prefix_ref_le: "snd (prefix_ref base s) \<le> length s"
proof (cases "take 2 s \<in> {[48, 120], [48, 88]}")
  case True
  then obtain x y where "take 2 s = [x, y]" by auto
  from arg_cong [OF this, of length] have "min (length s) 2 = 2" by simp
  then show ?thesis by (auto simp: prefix_ref_def)
qed (auto simp: prefix_ref_def)

lemma strtoull_cstr:
  assumes "cstr m p s"
  shows "strtoull m p base
    = Some (of_nat (fst (parse_ref base s)), p + of_nat (snd (parse_ref base s)))"
proof -
  define w where "w = length (takeWhile is_space s)"
  define k where "k = w + sign_length (drop w s)"
  obtain b q where bq: "prefix_ref base (drop k s) = (b, q)" by (cases "prefix_ref base (drop k s)")
  have "w \<le> length s" by (simp add: w_def length_takeWhile_le)
  from cstr_drop [OF assms this] have dw: "cstr m (p + of_nat w) (drop w s)" .
  have "sign_length (drop w s) \<le> length (drop w s)" by (rule sign_length_le)
  with \<open>w \<le> length s\<close> have "k \<le> length s" by (simp add: k_def)
  from cstr_drop [OF assms this] have dk: "cstr m (p + of_nat k) (drop k s)" .
  have "q \<le> length (drop k s)" using prefix_ref_le [of base "drop k s"] by (simp add: bq)
  with \<open>k \<le> length s\<close> have "k + q \<le> length s" by simp
  from cstr_drop [OF assms this] have dq: "cstr m (p + of_nat k + of_nat q) (drop (k + q) s)"
    by (simp add: add.assoc)
  have "skip_space m p = Some (p + of_nat w)" using skip_space_cstr [OF assms] by (simp add: w_def)
  moreover have "skip_sign m (p + of_nat w) = p + of_nat k"
    using skip_sign_cstr [OF dw] by (simp add: k_def add.assoc)
  moreover have "find_base m base (p + of_nat k) = (b, p + of_nat k + of_nat q)"
    using find_base_cstr [OF dk, of base] bq by simp
  ultimately have "strtoull m p base = (if b < 2 \<or> b > 16 then Some (0, p)
      else digits_loop m b (UINT64_MAX div of_int b) (UINT64_MAX mod of_int b) 0 (p + of_nat k + of_nat q))"
    by (simp add: strtoull_def)
  moreover have "parse_ref base s = (let ds = takeWhile (is_digit b) (drop (k + q) s) in
      if b < 2 \<or> b > 16 then (0, 0) else (min (2 ^ 64 - 1) (digits_value b 0 ds), k + q + length ds))"
    by (simp add: parse_ref_eq w_def [symmetric] k_def [symmetric] bq Let_def)
  ultimately show ?thesis
    using digits_loop_cstr [OF _ _ dq, of b 0] by (simp add: Let_def add.assoc)
qed

lemma parse_ref_le: "snd (parse_ref base s) \<le> length s"
proof -
  define w where "w = length (takeWhile is_space s)"
  define k where "k = w + sign_length (drop w s)"
  obtain b q where bq: "prefix_ref base (drop k s) = (b, q)" by (cases "prefix_ref base (drop k s)")
  have "w \<le> length s" by (simp add: w_def length_takeWhile_le)
  then have "k \<le> length s" using sign_length_le [of "drop w s"] by (simp add: k_def)
  then have "k + q \<le> length s" using prefix_ref_le [of base "drop k s"] by (simp add: bq)
  then have "k + q + length (takeWhile (is_digit b) (drop (k + q) s)) \<le> length s"
    using length_takeWhile_le [of "is_digit b" "drop (k + q) s"] by simp
  then show ?thesis by (simp add: parse_ref_eq w_def [symmetric] k_def [symmetric] bq Let_def)
qed

subsection \<open>What is printed can be read back\<close>

lemma digits_value_snoc:
  "digits_value base n (ds @ [c]) = digits_value base n ds * nat base + digit_nat c"
  by (simp add: digits_value_def)

lemma positional_value:
  assumes "2 \<le> b" and dg: "\<And>d. d < b \<Longrightarrow> digit_of (dg d) = Some (int d)"
  shows "digits_value (int b) 0 (positional b dg n) = n"
    and "\<forall>c \<in> set (positional b dg n). is_digit (int b) c"
proof (induction n rule: less_induct)
  case (less n)
  have digit: "digit_nat (dg d) = d" "is_digit (int b) (dg d)" if "d < b" for d
    using dg [OF that] that by (simp_all add: digit_nat_eq is_digit_eq)
  {
    case 1
    show ?case
    proof (cases "n < b")
      case True
      then show ?thesis
        by (subst positional.simps) (simp add: digits_value_def digit)
    next
      case False
      with assms(1) have "n div b < n" by (intro div_less_dividend) auto
      from less(1) [OF this] False assms(1) show ?thesis
        by (subst positional.simps) (simp add: digits_value_snoc digit)
    qed
  next
    case 2
    show ?case
    proof (cases "n < b")
      case True
      then show ?thesis by (subst positional.simps) (simp add: digit)
    next
      case False
      with assms(1) have "n div b < n" by (intro div_less_dividend) auto
      from less(2) [OF this] False assms(1) show ?thesis
        by (subst positional.simps) (simp add: digit)
    qed
  }
qed

lemma digit_of_dec: "d < 10 \<Longrightarrow> digit_of (dec_digit d) = Some (int d)"
proof -
  have "list_all (\<lambda>d. digit_of (dec_digit d) = Some (int d)) [0..<10]" by code_simp
  then show "d < 10 \<Longrightarrow> ?thesis" by (simp add: list_all_iff)
qed

lemma digit_of_hex: "d < 16 \<Longrightarrow> digit_of (of_char (hex_chars upper ! d)) = Some (int d)"
proof -
  have "list_all (\<lambda>u. list_all (\<lambda>d. digit_of (of_char (hex_chars u ! d)) = Some (int d)) [0..<16]) [True, False]"
    by code_simp
  then show "d < 16 \<Longrightarrow> ?thesis" by (cases upper) (simp_all add: list_all_iff)
qed

lemma parse_ref_digits:
  assumes "\<forall>c \<in> set ds. is_digit base' c" 
    and "prefix_ref base (pre @ ds) = (base', length pre)" and "2 \<le> base'" "base' \<le> 16"
    and "pre @ ds \<noteq> []" and "\<not> is_space (hd (pre @ ds))" "hd (pre @ ds) \<notin> {43, 45}"
    and "digits_value base' 0 ds < 2 ^ 64"
  shows "parse_ref base (pre @ ds) = (digits_value base' 0 ds, length (pre @ ds))"
proof -
  have "takeWhile is_space (pre @ ds) = []" using assms(5,6) by (cases "pre @ ds") auto
  moreover have "sign_length (pre @ ds) = 0" using assms(7) by (simp add: sign_length_def)
  moreover have tw: "takeWhile (is_digit base') ds = ds" using assms(1) by (simp add: takeWhile_eq_all_conv)
  ultimately show ?thesis using assms by (simp add: parse_ref_eq Let_def tw)
qed

lemma dec_parses:
  assumes "base = 0 \<or> base = 10"
  shows "parse_ref base (dec_loop v []) = (unat v, length (dec_loop v []))"
proof -
  let ?ds = "positional 10 dec_digit (unat v)"
  note val = positional_value [of 10 dec_digit "unat v", OF _ digit_of_dec]
  obtain c t where ct: "?ds = c # t" by (cases ?ds) auto
  have dig: "is_digit 10 c" if "c \<in> set ?ds" for c using val(2) that by simp
  have c: "48 \<le> c \<and> c \<le> 57" if "is_digit 10 c" for c
    using that by (auto simp: is_digit_eq digit_of_def word_le_def split: if_splits option.splits)
  have "t = [] \<or> 48 \<le> hd t \<and> hd t \<le> 57" using ct dig c by (cases t) auto
  then have "prefix_ref base ([] @ ?ds) = (10, 0)"
    using assms by (cases t) (auto simp: ct prefix_ref_def)
  moreover have "c \<notin> {32, 9, 10, 13, 12, 11, 43, 45}" using c [OF dig, of c] ct by auto
  ultimately show ?thesis
    using parse_ref_digits [of ?ds 10 base "[]"] val dig ct unat_u64_lt [of v]
    by (simp add: dec_loop_positional is_space_def)
qed

lemma hex_parses:
  assumes "base = 0 \<or> base = 16"
  shows "parse_ref base (bytes ''0x'' @ hex_loop upper v []) = (unat v, 2 + length (hex_loop upper v []))"
proof -
  let ?ds = "positional 16 (\<lambda>d. of_char (hex_chars upper ! d)) (unat v)"
  note val = positional_value [of 16 "\<lambda>d. of_char (hex_chars upper ! d)" "unat v", OF _ digit_of_hex]
  have "prefix_ref base ([48, 120] @ ?ds) = (16, 2)" using assms by (auto simp: prefix_ref_def)
  with parse_ref_digits [of ?ds 16 base "[48, 120]"] val unat_u64_lt [of v] show ?thesis
    by (simp add: hex_loop_positional is_space_def)
qed

lemma print_llu: "kprintf_buffer m ''%llu'' [VA v] = Inr (dec_loop v [])"
  using dec_loop_length [of v]
  by (simp add: kprintf_buffer_def kp_loop.simps(2) modifiers_def kp_spec_simps buffer_defs uint_width_def)

lemma print_0xllx: "kprintf_buffer m ''0x%llx'' [VA v] = Inr (bytes ''0x'' @ hex_loop False v [])"
  using hex_loop_length [of False v]
  by (simp add: kprintf_buffer_def kp_loop.simps(2) modifiers_def kp_spec_simps buffer_defs uint_width_def)

subsection \<open>Properties\<close>

text \<open>
  (C17) \<open>simple_strtoull\<close> terminates on every NUL-terminated string and agrees with the
  reference parser, which has tables of digits and white space of its own: the value is the one of the longest digit run after whitespace, sign and
  prefix, cut off at \<open>UINT64_MAX\<close>, an unsupported base gives 0, and the address where parsing
  stopped is stored through \<open>endptr\<close> unless that is null.  \<open>simple_strtoul\<close> is the same function.
\<close>

theorem simple_strtoull_spec:
  assumes "cstr (mem s) nptr t"
  shows "simple_strtoull nptr endptr base s =
      Some (of_nat (fst (parse_ref base t)),
        if endptr = NULL then s
        else s\<lparr>mem := store_le 8 (mem s) endptr (nptr + of_nat (snd (parse_ref base t)))\<rparr>) \<and>
    simple_strtoul nptr endptr base s = simple_strtoull nptr endptr base s"
proof -
  have "\<not> v > ULONG_MAX" for v by (simp add: ULONG_MAX_def not_less)
  then show ?thesis
    by (simp add: simple_strtoull_def simple_strtoul_def strtoull_cstr [OF assms])
qed

theorem simple_strtoull_spec_witness:
  "map_option fst (simple_strtoull 0x1000 0 0 \<lparr>mem = place 0x1000 (bytes '' +0x1Fg''), uart = idle_uart\<rparr>) = Some 31
   \<and> map_option fst (simple_strtoull 0x1000 0 10
       \<lparr>mem = place 0x1000 (bytes ''99999999999999999999''), uart = idle_uart\<rparr>) = Some 0xFFFFFFFFFFFFFFFF"
proof -
  have run: "map_option fst (simple_strtoull 0x1000 0 base \<lparr>mem = place 0x1000 t, uart = idle_uart\<rparr>)
      = Some (of_nat (fst (parse_ref base t)))" if "0 \<notin> set t" "length t < 30" for t base
    using simple_strtoull_spec [of "\<lparr>mem = place 0x1000 t, uart = idle_uart\<rparr>" "0x1000" t 0 base]
      cstr_place [of t "0x1000"] that by simp
  have "parse_ref 0 (bytes '' +0x1Fg'') = (31, 6)"
    "parse_ref 10 (bytes ''99999999999999999999'') = (2 ^ 64 - 1, 20)"
    by (simp_all add: parse_defs)
  moreover have "0 \<notin> set (bytes '' +0x1Fg'')" "0 \<notin> set (bytes ''99999999999999999999'')" by simp_all
  ultimately show ?thesis
    using run [of "bytes '' +0x1Fg''" 0] run [of "bytes ''99999999999999999999''" 10]
    by (simp del: bytes_simps(1,2))
qed

text \<open>
  (C18) Numbers survive printing and parsing: the text \<open>kprintf\<close> produces for \<open>%llu\<close>, and for
  \<open>0x%llx\<close>, is read back by \<open>simple_strtoull\<close> with automatic base as the same 64-bit value, with
  no character left over.
\<close>

theorem print_parse_roundtrip:
  assumes "(f = ''%llu'' \<or> f = ''0x%llx'') \<and> kprintf_buffer m f [VA v] = Inr out \<and> cstr m' p out"
  shows "strtoull m' p 0 = Some (v, p + of_nat (length out)) \<and> m' (p + of_nat (length out)) = 0"
proof -
  have "parse_ref 0 out = (unat v, length out)"
    using assms dec_parses [of 0 v] hex_parses [of 0 False v] by (auto simp: print_llu print_0xllx)
  moreover have "cstr m' p out" using assms by simp
  ultimately show ?thesis using strtoull_cstr [of m' p out 0] by (simp add: cstr_iff)
qed

theorem print_parse_roundtrip_witness:
  "strtoull (place 0x1000 (bytes ''0xff'')) 0x1000 0 = Some (255, 0x1004)
   \<and> strtoull (place 0x1000 (bytes ''255'')) 0x1000 0 = Some (255, 0x1003)"
proof -
  have p: "kprintf_buffer m ''%llu'' [VA 255] = Inr (bytes ''255'')"
    "kprintf_buffer m ''0x%llx'' [VA 255] = Inr (bytes ''0xff'')" for m
  proof -
    have "dec_loop 255 [] = bytes ''255''" "hex_loop False 255 [] = bytes ''ff''" by code_simp+
    then show "kprintf_buffer m ''%llu'' [VA 255] = Inr (bytes ''255'')"
    "kprintf_buffer m ''0x%llx'' [VA 255] = Inr (bytes ''0xff'')" by (simp_all add: print_llu print_0xllx)
  qed
  have "cstr (place 0x1000 (bytes ''0xff'')) 0x1000 (bytes ''0xff'')"
    "cstr (place 0x1000 (bytes ''255'')) 0x1000 (bytes ''255'')"
    by (rule cstr_place; simp)+
  with print_parse_roundtrip [of "''0x%llx''" "\<lambda>_. 0" 255 "bytes ''0xff''" "place 0x1000 (bytes ''0xff'')" "0x1000"]
    print_parse_roundtrip [of "''%llu''" "\<lambda>_. 0" 255 "bytes ''255''" "place 0x1000 (bytes ''255'')" "0x1000"] p
  show ?thesis by simp
qed
end
