(* ===== verification/Exceptions.thy ===== *)
theory Exceptions
  imports Console Stdlib
begin

text \<open>
  The exception handlers, \<open>src/src/exceptions/exceptions.c\<close>.  A handler gets the address of the
  register frame the assembly stub saved on the stack (\<open>saved_registers_t\<close>); \<open>context_at\<close>
  decodes the frame and \<open>put_elr\<close> is the store to its \<open>elr_el1\<close> field, the only one a handler
  makes.  The system registers a handler reads with \<open>mrs\<close> are the parameter \<open>sysregs\<close>.
  \<open>panic\<close> ends in \<open>Halted\<close>: its loop waits for interrupts that are masked, so the machine does
  nothing more.  Reading a system register has no effect, so \<open>read_esr_el1\<close> and its two
  siblings are the fields of \<open>sysregs\<close>.
\<close>

record sysregs =
  esr_el1 :: u64
  elr_el1 :: u64
  far_el1 :: u64

record saved_registers =
  regs :: "u64 list"
  saved_spsr_el1 :: u64
  saved_elr_el1 :: u64
  saved_sp_el0 :: u64

definition context_at :: "mem \<Rightarrow> u64 \<Rightarrow> saved_registers" where
  "context_at m p = \<lparr>regs = map (\<lambda>i. load_le 8 m (p + of_nat (8 * i))) [0..<31],
     saved_spsr_el1 = load_le 8 m (p + 248), saved_elr_el1 = load_le 8 m (p + 256),
     saved_sp_el0 = load_le 8 m (p + 264)\<rparr>"

definition put_elr :: "u64 \<Rightarrow> u64 \<Rightarrow> mem \<Rightarrow> mem" where
  "put_elr p v m = store_le 8 m (p + 256) v"

subsection \<open>The operations\<close>

definition panic :: "string \<Rightarrow> 'a machine_scheme \<Rightarrow> 'a machine_scheme outcome option" where
  "panic message s = do {
     s \<leftarrow> kprint ''\<newline>KERNEL PANIC: %s\<newline>'' [VStr (bytes message)] s;
     s \<leftarrow> kprint ''System halted.\<newline>'' [] s;
     Some (Halted s) }"

fun print_reg_pairs :: "u64 list \<Rightarrow> nat list \<Rightarrow> 'a machine_scheme \<Rightarrow> 'a machine_scheme option" where
  "print_reg_pairs rs [] s = Some s"
| "print_reg_pairs rs (i # is) s = do {
     s \<leftarrow> kprint ''  x%-2d: %016llx   x%-2d: %016llx\<newline>''
       [VA (of_nat i), VA (rs ! i), VA (of_nat (i + 1)), VA (if i + 1 < 31 then rs ! (i + 1) else 0)] s;
     print_reg_pairs rs is s }"

definition print_registers :: "u64 \<Rightarrow> 'a machine_scheme \<Rightarrow> 'a machine_scheme option" where
  "print_registers context s = do {
     let r = context_at (mem s) context;
     s \<leftarrow> kprint ''Saved Registers:\<newline>'' [] s;
     s \<leftarrow> print_reg_pairs (regs r) (map (\<lambda>k. 2 * k) [0..<16]) s;
     s \<leftarrow> kprint ''  SPSR_EL1: %016llx\<newline>'' [VA (saved_spsr_el1 r)] s;
     s \<leftarrow> kprint ''  ELR_EL1:  %016llx\<newline>'' [VA (saved_elr_el1 r)] s;
     kprint ''  SP_EL0:   %016llx\<newline>'' [VA (saved_sp_el0 r)] s }"

definition ec_info :: "u32 \<Rightarrow> string \<times> bool" where
  "ec_info ec =
     (if ec = 0x00 then (''Unknown reason'', False)
      else if ec = 0x01 then (''Trapped WFI or WFE'', False)
      else if ec = 0x0E then (''Illegal Execution State'', False)
      else if ec = 0x11 then (''SVC instruction execution in AArch32 state'', False)
      else if ec = 0x15 then (''SVC instruction execution in AArch64 state'', False)
      else if ec = 0x18 then (''Trapped MSR, MRS or System instruction execution in AArch64 state'', False)
      else if ec = 0x19 then (''Access to SVE functionality trapped'', False)
      else if ec = 0x20 then (''Instruction Abort from a lower Exception level (AArch32)'', True)
      else if ec = 0x21 then (''Instruction Abort from a lower Exception level (AArch64)'', True)
      else if ec = 0x22 then (''PC alignment fault exception'', False)
      else if ec = 0x24 then (''Data Abort from a lower Exception level (AArch32)'', True)
      else if ec = 0x25 then (''Data Abort from a lower Exception level (AArch64)'', True)
      else if ec = 0x26 then (''SP alignment fault exception'', False)
      else if ec = 0x28 then (''Trapped floating-point exception (AArch32)'', False)
      else if ec = 0x2C then (''Trapped floating-point exception (AArch64)'', False)
      else if ec = 0x30 then (''SError interrupt'', False)
      else if ec = 0x31 then (''Breakpoint exception from a lower Exception level (AArch32)'', False)
      else if ec = 0x32 then (''Breakpoint exception from a lower Exception level (AArch64)'', False)
      else if ec = 0x34 then (''Step exception from a lower Exception level (AArch32)'', False)
      else if ec = 0x35 then (''Step exception from a lower Exception level (AArch64)'', False)
      else if ec = 0x38 then (''Watchpoint exception from a lower Exception level (AArch32)'', False)
      else if ec = 0x39 then (''Watchpoint exception from a lower Exception level (AArch64)'', False)
      else if ec = 0x3C then (''BRK instruction execution in AArch64 state'', False)
      else if ec = 0x23 then (''Instruction Abort from current EL'', True)
      else if ec = 0x27 then (''Data Abort from current EL'', True)
      else (''Unhandled Exception Class'', False))"

definition report_sync ::
  "sysregs \<Rightarrow> u32 \<Rightarrow> u32 \<Rightarrow> u64 \<Rightarrow> 'a machine_scheme \<Rightarrow> 'a machine_scheme option" where
  "report_sync cpu ec iss context s = do {
     let elr = saved_elr_el1 (context_at (mem s) context);
     s \<leftarrow> kprint ''\<newline>--- Synchronous Exception Taken ---\<newline>'' [] s;
     s \<leftarrow> kprint '' ESR_EL1: %016llx (EC: 0x%x, ISS: 0x%x)\<newline>''
       [VA (esr_el1 cpu), VA (ucast ec), VA (ucast iss)] s;
     s \<leftarrow> kprint '' ELR_EL1: %016llx (Return Address)\<newline>'' [VA elr] s;
     let (ec_str, far_valid) = ec_info ec;
     s \<leftarrow> kprint '' Type: %s\<newline>'' [VStr (bytes ec_str)] s;
     s \<leftarrow> (if far_valid
           then kprint '' FAR_EL1: %016llx (Faulting Virtual Address)\<newline>'' [VA (far_el1 cpu)] s
           else Some s);
     s \<leftarrow> print_registers context s;
     kprint ''-------------------------------------\<newline>'' [] s }"

definition esr_ec :: "u64 \<Rightarrow> u32" where
  "esr_ec esr = ucast (drop_bit 26 esr AND 0x3F)"

definition esr_iss :: "u64 \<Rightarrow> u32" where
  "esr_iss esr = ucast (esr AND 0x1FFFFFF)"

definition handle_sync_exception ::
  "sysregs \<Rightarrow> u64 \<Rightarrow> 'a machine_scheme \<Rightarrow> 'a machine_scheme outcome option" where
  "handle_sync_exception cpu context s = do {
     let ec = esr_ec (esr_el1 cpu);
     let iss = esr_iss (esr_el1 cpu);
     s \<leftarrow> report_sync cpu ec iss context s;
     if ec = 0x3C then do {
       s \<leftarrow> kprint ''BRK instruction encountered. Continuing execution.\<newline>'' [] s;
       Some (Returned (s\<lparr>mem := put_elr context (saved_elr_el1 (context_at (mem s) context) + 4) (mem s)\<rparr>)) }
     else if ec = 0x15 then do {
       let svc_imm = (ucast (iss AND 0xFFFF) :: u16);
       s \<leftarrow> kprint ''SVC instruction encountered (Imm: 0x%x). Implement SVC handler.\<newline>''
         [VA (ucast svc_imm)] s;
       Some (Returned (s\<lparr>mem := put_elr context (saved_elr_el1 (context_at (mem s) context) + 4) (mem s)\<rparr>)) }
     else panic ''Unhandled synchronous exception'' s }"

definition handle_irq :: "u64 \<Rightarrow> 'a machine_scheme \<Rightarrow> 'a machine_scheme outcome option" where
  "handle_irq context s = do {
     s \<leftarrow> kprint ''\<newline>--- IRQ Received ---\<newline>'' [] s;
     s \<leftarrow> kprint '' (No GIC driver implemented yet)\<newline>'' [] s;
     s \<leftarrow> print_registers context s;
     s \<leftarrow> kprint ''--------------------\<newline>'' [] s;
     Some (Returned s) }"

definition handle_fiq :: "u64 \<Rightarrow> 'a machine_scheme \<Rightarrow> 'a machine_scheme outcome option" where
  "handle_fiq context s = do {
     s \<leftarrow> kprint ''\<newline>--- FIQ Received ---\<newline>'' [] s;
     s \<leftarrow> print_registers context s;
     panic ''FIQ handling not implemented'' s }"

definition handle_serror :: "sysregs \<Rightarrow> u64 \<Rightarrow> 'a machine_scheme \<Rightarrow> 'a machine_scheme outcome option" where
  "handle_serror cpu context s = do {
     let esr = esr_el1 cpu;
     s \<leftarrow> kprint ''\<newline>--- SError Received ---\<newline>'' [] s;
     s \<leftarrow> kprint '' ESR_EL1: %016llx\<newline>'' [VA esr] s;
     s \<leftarrow> print_registers context s;
     panic ''SError handling not implemented'' s }"

subsection \<open>What the handlers print\<close>

definition panic_text :: "string \<Rightarrow> u8 list" where
  "panic_text message = bytes ''\<newline>KERNEL PANIC: '' @ bytes message @ bytes ''\<newline>System halted.\<newline>''"

definition reg_line :: "u8 list" where
  "reg_line = bytes ''  x%-2d: %016llx   x%-2d: %016llx\<newline>''"

definition register_dump :: "u8 list" where
  "register_dump = bytes ''Saved Registers:\<newline>'' @ concat (replicate 16 reg_line) @
     bytes ''  SPSR_EL1: %016llx\<newline>'' @ bytes ''  ELR_EL1:  %016llx\<newline>'' @ bytes ''  SP_EL0:   %016llx\<newline>''"

lemma print_reg_pairs_log:
  "tx_drains (uart s) \<Longrightarrow>
   \<exists>s'. print_reg_pairs rs is s = Some s' \<and> logs (concat (replicate (length is) reg_line)) s s'"
proof (induction "is" arbitrary: s)
  case (Cons i "is")
  have l: "verbatim ''  x%-2d: %016llx   x%-2d: %016llx\<newline>''" by (simp add: verbatim_simps)
  obtain s1 where s1: "kprint ''  x%-2d: %016llx   x%-2d: %016llx\<newline>''
       [VA (of_nat i), VA (rs ! i), VA (of_nat (i + 1)), VA (if i + 1 < 31 then rs ! (i + 1) else 0)] s
       = Some s1" "logs reg_line s s1"
    unfolding reg_line_def by (rule kprint_verbatim [OF l Cons.prems])
  with Cons.IH [of s1] logsD(2) [OF s1(2)] logs_trans [OF s1(2)] show ?case by fastforce
qed simp

lemma print_registers_log:
  assumes "tx_drains (uart s)"
  obtains s' where "print_registers context s = Some s'" and "logs register_dump s s'"
proof -
  let ?r = "context_at (mem s) context"
  have v: "verbatim ''Saved Registers:\<newline>''" "verbatim ''  SPSR_EL1: %016llx\<newline>''"
    "verbatim ''  ELR_EL1:  %016llx\<newline>''" "verbatim ''  SP_EL0:   %016llx\<newline>''"
    by (simp_all add: verbatim_simps)
  obtain s1 where s1: "kprint ''Saved Registers:\<newline>'' [] s = Some s1" "logs (bytes ''Saved Registers:\<newline>'') s s1"
    by (rule kprint_verbatim [OF v(1) assms])
  obtain s2 where s2: "print_reg_pairs (regs ?r) (map (\<lambda>k. 2 * k) [0..<16]) s1 = Some s2"
    "logs (concat (replicate 16 reg_line)) s1 s2"
    using print_reg_pairs_log [OF logsD(2) [OF s1(2)], of "regs ?r" "map (\<lambda>k. 2 * k) [0..<16]"]
    by (auto simp del: upt_rec_numeral)
  obtain s3 where s3: "kprint ''  SPSR_EL1: %016llx\<newline>'' [VA (saved_spsr_el1 ?r)] s2 = Some s3"
    "logs (bytes ''  SPSR_EL1: %016llx\<newline>'') s2 s3"
    by (rule kprint_verbatim [OF v(2) logsD(2) [OF s2(2)]])
  obtain s4 where s4: "kprint ''  ELR_EL1:  %016llx\<newline>'' [VA (saved_elr_el1 ?r)] s3 = Some s4"
    "logs (bytes ''  ELR_EL1:  %016llx\<newline>'') s3 s4"
    by (rule kprint_verbatim [OF v(3) logsD(2) [OF s3(2)]])
  obtain s5 where s5: "kprint ''  SP_EL0:   %016llx\<newline>'' [VA (saved_sp_el0 ?r)] s4 = Some s5"
    "logs (bytes ''  SP_EL0:   %016llx\<newline>'') s4 s5"
    by (rule kprint_verbatim [OF v(4) logsD(2) [OF s4(2)]])
  note logs = logs_trans [OF s1(2) logs_trans [OF s2(2) logs_trans [OF s3(2) logs_trans [OF s4(2) s5(2)]]]]
  show thesis
  proof (rule that)
    show "print_registers context s = Some s5"
      by (simp add: print_registers_def s1(1) s2(1) s3(1) s4(1) s5(1) del: upt_rec_numeral)
    show "logs register_dump s s5" using logs by (simp only: register_dump_def)
  qed
qed

lemma print_panic:
  assumes "length message \<le> 900" and "0 \<notin> set (bytes message)"
  shows "kprintf_buffer m ''\<newline>KERNEL PANIC: %s\<newline>'' [VStr (bytes message)]
    = Inr (bytes ''\<newline>KERNEL PANIC: '' @ bytes message @ bytes ''\<newline>'')"
  using assms(1)
  by (simp add: takeWhile_nonzero [OF assms(2)] kprintf_buffer_def kp_loop.simps(2) modifiers_def kp_spec_simps buffer_defs)

lemma panic_log:
  assumes "length message \<le> 900" and "0 \<notin> set (bytes message)" and "tx_drains (uart s)"
  obtains s' where "panic message s = Some (Halted s')" and "logs (panic_text message) s s'"
proof -
  let ?t = "bytes ''\<newline>KERNEL PANIC: '' @ bytes message @ bytes ''\<newline>''"
  have "takeWhile (\<lambda>c. c \<noteq> 0) ?t = ?t" using assms(2) by (intro takeWhile_nonzero) simp
  then obtain s1 where s1: "kprint ''\<newline>KERNEL PANIC: %s\<newline>'' [VStr (bytes message)] s = Some s1"
    "logs ?t s s1"
    using kprint_logs [OF print_panic [OF assms(1,2)] assms(3)] by (simp only:) blast
  have v: "verbatim ''System halted.\<newline>''" by (simp add: verbatim_simps)
  obtain s2 where s2: "kprint ''System halted.\<newline>'' [] s1 = Some s2" "logs (bytes ''System halted.\<newline>'') s1 s2"
    by (rule kprint_verbatim [OF v logsD(2) [OF s1(2)]])
  from s1 s2 logs_trans [OF s1(2) s2(2)] that show thesis by (simp add: panic_def panic_text_def)
qed

lemma print_then_panic:
  assumes "tx_drains (uart s)" and "length message \<le> 900" and "0 \<notin> set (bytes message)"
  obtains s' where "do { s \<leftarrow> print_registers context s; panic message s } = Some (Halted s')"
    and "logs (register_dump @ panic_text message) s s'"
proof -
  obtain s1 where s1: "print_registers context s = Some s1" "logs register_dump s s1"
    by (rule print_registers_log [OF assms(1)])
  obtain s2 where s2: "panic message s1 = Some (Halted s2)" "logs (panic_text message) s1 s2"
    by (rule panic_log [OF assms(2,3) logsD(2) [OF s1(2)]])
  from s1 s2 logs_trans [OF s1(2) s2(2)] that show thesis by simp
qed

lemma ec_info_fits: "fits '' Type: %s\<newline>'' [VStr (bytes (fst (ec_info ec)))]"
proof -
  have "length (fst (ec_info ec)) \<le> 100" by (simp add: ec_info_def)
  then show ?thesis by (simp add: fits_def modifiers_def)
qed

text \<open>
  The line that should show the syndrome register: the unsupported \<open>%016llx\<close> consumes no
  argument, so the two \<open>%x\<close> print the arguments before theirs.
\<close>

definition esr_line :: "u64 \<Rightarrow> u32 \<Rightarrow> u8 list" where
  "esr_line esr ec = bytes '' ESR_EL1: %016llx (EC: 0x'' @ hex_loop False (ucast (ucast esr :: u32)) [] @
     bytes '', ISS: 0x'' @ hex_loop False (ucast ec) [] @ bytes '')\<newline>''"

lemma esr_line_ascii: "0 \<notin> set (esr_line esr ec)"
proof -
  have "0 \<notin> set (hex_loop False v [])" for v
    using positional_value(2) [of 16 "\<lambda>d. of_char (hex_chars False ! d)" "unat v", OF _ digit_of_hex]
    by (auto simp: hex_loop_positional is_digit_eq)
  then show ?thesis by (simp add: esr_line_def)
qed

lemma print_esr_line:
  "kprintf_buffer m '' ESR_EL1: %016llx (EC: 0x%x, ISS: 0x%x)\<newline>'' [VA esr, VA (ucast ec), VA iss]
   = Inr (esr_line esr ec)"
  using hex_loop_length [of False "ucast (ucast esr :: u32)"] hex_loop_length [of False "ucast ec"]
  by (simp add: kprintf_buffer_def kp_loop.simps(2) modifiers_def kp_spec_simps
      kp_spec_unsupported supported_def buffer_defs uint_width_def esr_line_def)

lemma report_sync_log:
  assumes "tx_drains (uart s)"
  obtains s' out where "report_sync cpu ec iss context s = Some s'"
    and "logs (bytes ''\<newline>--- Synchronous Exception Taken ---\<newline>'' @ esr_line (esr_el1 cpu) ec @ out) s s'"
proof -
  have f: "verbatim ''\<newline>--- Synchronous Exception Taken ---\<newline>''"
    "fits '' ELR_EL1: %016llx (Return Address)\<newline>'' [VA a]"
    "fits '' FAR_EL1: %016llx (Faulting Virtual Address)\<newline>'' [VA a]"
    "fits ''-------------------------------------\<newline>'' []" for a
    by (simp_all add: fits_def modifiers_def verbatim_def)
  let ?e = "saved_elr_el1 (context_at (mem s) context)"
  obtain str fv where ec: "ec_info ec = (str, fv)" by (cases "ec_info ec")
  obtain s1 where s1: "kprint ''\<newline>--- Synchronous Exception Taken ---\<newline>'' [] s = Some s1"
    "logs (bytes ''\<newline>--- Synchronous Exception Taken ---\<newline>'') s s1"
    by (rule kprint_verbatim [OF f(1) assms])
  obtain s2 where s2: "kprint '' ESR_EL1: %016llx (EC: 0x%x, ISS: 0x%x)\<newline>''
      [VA (esr_el1 cpu), VA (ucast ec), VA (ucast iss)] s1 = Some s2" "logs (esr_line (esr_el1 cpu) ec) s1 s2"
    using kprint_logs [OF print_esr_line logsD(2) [OF s1(2)], of "esr_el1 cpu" ec "ucast iss"]
    by (auto simp only: takeWhile_nonzero [OF esr_line_ascii])
  obtain s3 o3 where s3: "kprint '' ELR_EL1: %016llx (Return Address)\<newline>'' [VA ?e] s2 = Some s3" "logs o3 s2 s3"
    by (rule kprint_fits_logs [OF f(2) logsD(2) [OF s2(2)]])
  obtain s4 o4 where s4: "kprint '' Type: %s\<newline>'' [VStr (bytes str)] s3 = Some s4" "logs o4 s3 s4"
    using kprint_fits_logs [OF ec_info_fits [of ec] logsD(2) [OF s3(2)]] ec by auto
  obtain s5 o5 where s5: "(if fv then kprint '' FAR_EL1: %016llx (Faulting Virtual Address)\<newline>''
      [VA (far_el1 cpu)] s4 else Some s4) = Some s5" "logs o5 s4 s5"
  proof (cases fv)
    case True
    with kprint_fits_logs [OF f(3) logsD(2) [OF s4(2)]] that show thesis by metis
  next
    case False
    with that [of s4 "[]"] logsD(2) [OF s4(2)] show thesis by simp
  qed
  obtain s6 where s6: "print_registers context s5 = Some s6" "logs register_dump s5 s6"
    by (rule print_registers_log [OF logsD(2) [OF s5(2)]])
  obtain s7 o7 where s7: "kprint ''-------------------------------------\<newline>'' [] s6 = Some s7" "logs o7 s6 s7"
    by (rule kprint_fits_logs [OF f(4) logsD(2) [OF s6(2)]])
  have "report_sync cpu ec iss context s = Some s7"
    unfolding report_sync_def Let_def ec
    by (simp add: s1(1) s2(1) s3(1) s4(1) s5(1) s6(1) s7(1) del: if_split)
  moreover note logs_trans [OF s1(2) logs_trans [OF s2(2) logs_trans [OF s3(2) logs_trans [OF s4(2)
    logs_trans [OF s5(2) logs_trans [OF s6(2) s7(2)]]]]]]
  ultimately show thesis using that by blast
qed

lemma unat_esr_ec: "unat (esr_ec esr) = unat esr div 2 ^ 26 mod 64"
proof -
  have "drop_bit 26 esr AND 0x3F = take_bit 6 (drop_bit 26 esr)"
    by (simp add: take_bit_eq_mask mask_eq_exp_minus_1)
  then have "unat (drop_bit 26 esr AND 0x3F) = unat esr div 2 ^ 26 mod 64"
    by (simp add: take_bit_eq_mod drop_bit_eq_div unat_mod unat_div)
  then show ?thesis unfolding esr_ec_def by (simp add: unsigned_ucast_eq take_bit_eq_mod)
qed

text \<open>The two classes that return, given what is printed before the return address moves.\<close>

lemma sync_returns:
  assumes "tx_drains (uart s)" and ec: "esr_ec (esr_el1 cpu) = 0x3C \<or> esr_ec (esr_el1 cpu) = 0x15"
  obtains out s' where "logs out s s'" and "handle_sync_exception cpu context s = Some (Returned
    (s'\<lparr>mem := put_elr context (saved_elr_el1 (context_at (mem s) context) + 4) (mem s)\<rparr>))"
proof -
  let ?ec = "esr_ec (esr_el1 cpu)" and ?iss = "esr_iss (esr_el1 cpu)"
  obtain s1 o1 where s1: "report_sync cpu ?ec ?iss context s = Some s1" "logs o1 s s1"
    using report_sync_log [OF assms(1)] by metis
  define f where "f = (if ?ec = 0x3C then ''BRK instruction encountered. Continuing execution.\<newline>''
    else ''SVC instruction encountered (Imm: 0x%x). Implement SVC handler.\<newline>'')"
  define args where "args = (if ?ec = 0x3C then [] else [VA (ucast (ucast (?iss AND 0xFFFF) :: u16))])"
  have "fits f args" by (simp add: f_def args_def fits_def modifiers_def)
  then obtain s2 o2 where s2: "kprint f args s1 = Some s2" "logs o2 s1 s2"
    by (rule kprint_fits_logs [OF _ logsD(2) [OF s1(2)]])
  from ec have "handle_sync_exception cpu context s = Some (Returned
      (s2\<lparr>mem := put_elr context (saved_elr_el1 (context_at (mem s2) context) + 4) (mem s2)\<rparr>))"
    using s1(1) s2(1) unfolding handle_sync_exception_def f_def args_def Let_def by auto
  with logsD(1) [OF s1(2)] logsD(1) [OF s2(2)] logs_trans [OF s1(2) s2(2)] that show thesis by simp
qed

lemma sync_halts:
  assumes "tx_drains (uart s)" and ec: "esr_ec (esr_el1 cpu) \<noteq> 0x3C" "esr_ec (esr_el1 cpu) \<noteq> 0x15"
  obtains out s' where "logs (out @ panic_text ''Unhandled synchronous exception'') s s'"
    and "handle_sync_exception cpu context s = Some (Halted s')"
proof -
  obtain s1 o1 where s1: "report_sync cpu (esr_ec (esr_el1 cpu)) (esr_iss (esr_el1 cpu)) context s = Some s1"
    "logs o1 s s1"
    using report_sync_log [OF assms(1)] by metis
  obtain s2 where s2: "panic ''Unhandled synchronous exception'' s1 = Some (Halted s2)"
    "logs (panic_text ''Unhandled synchronous exception'') s1 s2"
    by (rule panic_log [OF _ _ logsD(2) [OF s1(2)], of "''Unhandled synchronous exception''"]) simp_all
  from s1 s2 ec have "handle_sync_exception cpu context s = Some (Halted s2)"
    unfolding handle_sync_exception_def Let_def by simp
  with logs_trans [OF s1(2) s2(2)] that show thesis by blast
qed

subsection \<open>Properties\<close>

text \<open>
  (C19) A synchronous exception returns to the interrupted code only for a BRK (class 0x3C)
  or an SVC from AArch64 (class 0x15).  Then the saved return address is four bytes further,
  and every other byte of memory, so every other saved register, is as before.  Every other
  class prints the panic message last and halts, with memory unchanged.  The exception class
  is bits 31 to 26 of the syndrome register.
\<close>

theorem handle_sync_exception_spec:
  assumes "tx_drains (uart s)"
  shows "unat (esr_ec (esr_el1 cpu)) = unat (esr_el1 cpu) div 2 ^ 26 mod 64 \<and>
    (if esr_ec (esr_el1 cpu) \<in> {0x3C, 0x15}
     then \<exists>out s'. logs out s s' \<and> handle_sync_exception cpu context s = Some (Returned (s'\<lparr>mem :=
            store_le 8 (mem s) (context + 256) (saved_elr_el1 (context_at (mem s) context) + 4)\<rparr>))
     else \<exists>out s'. logs (out @ panic_text ''Unhandled synchronous exception'') s s' \<and>
            handle_sync_exception cpu context s = Some (Halted s'))"
proof (cases "esr_ec (esr_el1 cpu) \<in> {0x3C, 0x15}")
  case True
  then have "esr_ec (esr_el1 cpu) = 0x3C \<or> esr_ec (esr_el1 cpu) = 0x15" by simp
  then obtain out s' where "logs out s s'" and "handle_sync_exception cpu context s = Some (Returned
      (s'\<lparr>mem := put_elr context (saved_elr_el1 (context_at (mem s) context) + 4) (mem s)\<rparr>))"
    by (rule sync_returns [OF assms])
  with True unat_esr_ec show ?thesis by (auto simp: put_elr_def)
next
  case False
  then have "esr_ec (esr_el1 cpu) \<noteq> 0x3C" "esr_ec (esr_el1 cpu) \<noteq> 0x15" by simp_all
  then obtain out s' where "logs (out @ panic_text ''Unhandled synchronous exception'') s s'"
    and "handle_sync_exception cpu context s = Some (Halted s')"
    by (rule sync_halts [OF assms])
  with False unat_esr_ec show ?thesis by auto
qed

theorem handle_sync_exception_spec_witness:
  "\<exists>s'. handle_sync_exception \<lparr>esr_el1 = 0xF2000000, elr_el1 = 0, far_el1 = 0\<rparr> 0x1000
      \<lparr>mem = \<lambda>_. 0, uart = idle_uart\<rparr> = Some (Returned s') \<and> mem s' 0x1100 = 4"
proof -
  have e: "esr_ec 0xF2000000 \<in> {0x3C, 0x15}" by (simp add: esr_ec_def drop_bit_eq_div)
  have z: "load_le n (\<lambda>_. 0) a = 0" for n a by (induction n arbitrary: a) simp_all
  have "saved_elr_el1 (context_at (\<lambda>_. 0) 0x1000) = 0" by (simp add: context_at_def z)
  with handle_sync_exception_spec [of "\<lparr>mem = \<lambda>_. 0, uart = idle_uart\<rparr>"
      "\<lparr>esr_el1 = 0xF2000000, elr_el1 = 0, far_el1 = 0\<rparr>" "0x1000"] e
  obtain s' :: machine where "handle_sync_exception \<lparr>esr_el1 = 0xF2000000, elr_el1 = 0, far_el1 = 0\<rparr> 0x1000
      \<lparr>mem = \<lambda>_. 0, uart = idle_uart\<rparr> = Some (Returned (s'\<lparr>mem := store_le 8 (\<lambda>_. 0) 0x1100 4\<rparr>))"
    by (simp only: machine.simps sysregs.simps if_True tx_drains_idle) auto
  then show ?thesis by (simp add: store_le_eq)
qed

text \<open>
  (C36) An FIQ or an SError always halts: the handler prints the register frame, then the
  panic message of its kind, and memory is untouched.  An IRQ only prints and returns with
  memory untouched.  In each case the frame is printed without a single register value: the
  text sent is the same whatever the frame holds.
\<close>

theorem handle_irq_fiq_serror_spec:
  assumes "tx_drains (uart s)"
  shows "(\<exists>s'. handle_irq context s = Some (Returned s') \<and>
        logs (bytes ''\<newline>--- IRQ Received ---\<newline> (No GIC driver implemented yet)\<newline>'' @ register_dump @
          bytes ''--------------------\<newline>'') s s') \<and>
    (\<exists>s'. handle_fiq context s = Some (Halted s') \<and>
        logs (bytes ''\<newline>--- FIQ Received ---\<newline>'' @ register_dump @
          panic_text ''FIQ handling not implemented'') s s') \<and>
    (\<exists>s'. handle_serror cpu context s = Some (Halted s') \<and>
        logs (bytes ''\<newline>--- SError Received ---\<newline> ESR_EL1: %016llx\<newline>'' @ register_dump @
          panic_text ''SError handling not implemented'') s s')"
proof (intro conjI)
  have v: "verbatim ''\<newline>--- IRQ Received ---\<newline>''" "verbatim '' (No GIC driver implemented yet)\<newline>''"
    "verbatim ''--------------------\<newline>''" "verbatim ''\<newline>--- FIQ Received ---\<newline>''"
    "verbatim ''\<newline>--- SError Received ---\<newline>''" "verbatim '' ESR_EL1: %016llx\<newline>''"
    by (simp_all add: verbatim_simps)
  show "\<exists>s'. handle_irq context s = Some (Returned s') \<and>
        logs (bytes ''\<newline>--- IRQ Received ---\<newline> (No GIC driver implemented yet)\<newline>'' @ register_dump @
          bytes ''--------------------\<newline>'') s s'"
  proof -
    obtain s1 where s1: "kprint ''\<newline>--- IRQ Received ---\<newline>'' [] s = Some s1"
      "logs (bytes ''\<newline>--- IRQ Received ---\<newline>'') s s1" by (rule kprint_verbatim [OF v(1) assms])
    obtain s2 where s2: "kprint '' (No GIC driver implemented yet)\<newline>'' [] s1 = Some s2"
      "logs (bytes '' (No GIC driver implemented yet)\<newline>'') s1 s2"
      by (rule kprint_verbatim [OF v(2) logsD(2) [OF s1(2)]])
    obtain s3 where s3: "print_registers context s2 = Some s3" "logs register_dump s2 s3"
      by (rule print_registers_log [OF logsD(2) [OF s2(2)]])
    obtain s4 where s4: "kprint ''--------------------\<newline>'' [] s3 = Some s4"
      "logs (bytes ''--------------------\<newline>'') s3 s4" by (rule kprint_verbatim [OF v(3) logsD(2) [OF s3(2)]])
    from logs_trans [OF s1(2) logs_trans [OF s2(2) logs_trans [OF s3(2) s4(2)]]] s1(1) s2(1) s3(1) s4(1)
    show ?thesis by (simp add: handle_irq_def)
  qed
  show "\<exists>s'. handle_fiq context s = Some (Halted s') \<and>
        logs (bytes ''\<newline>--- FIQ Received ---\<newline>'' @ register_dump @
          panic_text ''FIQ handling not implemented'') s s'"
  proof -
    obtain s1 where s1: "kprint ''\<newline>--- FIQ Received ---\<newline>'' [] s = Some s1"
      "logs (bytes ''\<newline>--- FIQ Received ---\<newline>'') s s1" by (rule kprint_verbatim [OF v(4) assms])
    from print_then_panic [OF logsD(2) [OF s1(2)], of "''FIQ handling not implemented''" "context"]
    obtain s2 where "(do { s \<leftarrow> print_registers context s1; panic ''FIQ handling not implemented'' s }) = Some (Halted s2)"
      "logs (register_dump @ panic_text ''FIQ handling not implemented'') s1 s2" by auto
    with s1 logs_trans [OF s1(2) this(2)] show ?thesis by (simp add: handle_fiq_def)
  qed
  show "\<exists>s'. handle_serror cpu context s = Some (Halted s') \<and>
        logs (bytes ''\<newline>--- SError Received ---\<newline> ESR_EL1: %016llx\<newline>'' @ register_dump @
          panic_text ''SError handling not implemented'') s s'"
  proof -
    obtain s1 where s1: "kprint ''\<newline>--- SError Received ---\<newline>'' [] s = Some s1"
      "logs (bytes ''\<newline>--- SError Received ---\<newline>'') s s1" by (rule kprint_verbatim [OF v(5) assms])
    obtain s2 where s2: "kprint '' ESR_EL1: %016llx\<newline>'' [VA (esr_el1 cpu)] s1 = Some s2"
      "logs (bytes '' ESR_EL1: %016llx\<newline>'') s1 s2" by (rule kprint_verbatim [OF v(6) logsD(2) [OF s1(2)]])
    from print_then_panic [OF logsD(2) [OF s2(2)], of "''SError handling not implemented''" "context"]
    obtain s3 where "(do { s \<leftarrow> print_registers context s2; panic ''SError handling not implemented'' s }) = Some (Halted s3)"
      "logs (register_dump @ panic_text ''SError handling not implemented'') s2 s3" by auto
    with s1 s2 logs_trans [OF s1(2) logs_trans [OF s2(2) this(2)]] show ?thesis by (simp add: handle_serror_def)
  qed
qed

theorem handle_irq_fiq_serror_spec_witness:
  "\<exists>s'. handle_fiq 0x1000 \<lparr>mem = \<lambda>_. 0, uart = idle_uart\<rparr> = Some (Halted s') \<and> mem s' = (\<lambda>_. 0)"
proof -
  obtain s' where "handle_fiq 0x1000 \<lparr>mem = \<lambda>_. 0, uart = idle_uart\<rparr> = Some (Halted s')"
    "logs (bytes ''\<newline>--- FIQ Received ---\<newline>'' @ register_dump @
          panic_text ''FIQ handling not implemented'') \<lparr>mem = \<lambda>_. 0, uart = idle_uart\<rparr> s'"
    using handle_irq_fiq_serror_spec [of "\<lparr>mem = \<lambda>_. 0, uart = idle_uart\<rparr>" "0x1000"] by auto
  with logsD(1) [OF this(2)] show ?thesis by simp
qed

text \<open>
  (C37) The report of a synchronous exception shows the wrong numbers: it starts with a line
  in which the low half of the syndrome register stands in the place of the exception class
  and the class in the place of the instruction specific syndrome, which is not printed.
\<close>

theorem report_sync_shifted:
  assumes "tx_drains (uart s)"
  shows "\<exists>out s'. report_sync cpu ec iss context s = Some s' \<and>
    logs (bytes ''\<newline>--- Synchronous Exception Taken ---\<newline>'' @ bytes '' ESR_EL1: %016llx (EC: 0x'' @
      positional 16 (\<lambda>d. of_char (''0123456789abcdef'' ! d)) (unat (esr_el1 cpu) mod 2 ^ 32) @
      bytes '', ISS: 0x'' @ positional 16 (\<lambda>d. of_char (''0123456789abcdef'' ! d)) (unat ec) @
      bytes '')\<newline>'' @ out) s s'"
proof -
  have "esr_line (esr_el1 cpu) ec = bytes '' ESR_EL1: %016llx (EC: 0x'' @
      positional 16 (\<lambda>d. of_char (''0123456789abcdef'' ! d)) (unat (esr_el1 cpu) mod 2 ^ 32) @
      bytes '', ISS: 0x'' @ positional 16 (\<lambda>d. of_char (''0123456789abcdef'' ! d)) (unat ec) @
      bytes '')\<newline>''"
    by (simp add: esr_line_def hex_loop_positional hex_chars_def unat_ucast_u32 unat_ucast_low)
  moreover obtain s' out where "report_sync cpu ec iss context s = Some s'"
    "logs (bytes ''\<newline>--- Synchronous Exception Taken ---\<newline>'' @ esr_line (esr_el1 cpu) ec @ out) s s'"
    by (rule report_sync_log [OF assms])
  ultimately show ?thesis by (intro exI [of _ out] exI [of _ s']) (simp only: append_assoc)
qed

theorem report_sync_shifted_witness:
  "\<exists>s'. report_sync \<lparr>esr_el1 = 0xF2000000, elr_el1 = 0, far_el1 = 0\<rparr> 0x3C 0 0x1000
      \<lparr>mem = \<lambda>_. 0, uart = idle_uart\<rparr> = Some s' \<and> mem s' = (\<lambda>_. 0)"
proof -
  from report_sync_shifted [of "\<lparr>mem = \<lambda>_. 0, uart = idle_uart\<rparr>"
      "\<lparr>esr_el1 = 0xF2000000, elr_el1 = 0, far_el1 = 0\<rparr>" "0x3C" 0 "0x1000"]
  show ?thesis by (auto simp del: bytes_simps dest: logsD(1))
qed

end
