(* ===== verification/Allocator.thy ===== *)
theory Allocator
  imports Memory
begin

text \<open>
  What a client of a memory allocator relies on, as a locale, and what follows for programs
  that use it.  The laws: live areas do not overlap; allocation either fails and changes no
  area or adds a fresh zeroed area of at least the size the allocator grants for the request
  (\<open>size_of\<close>: the request itself, or what it is rounded to); releasing a live area removes it;
  a store into a live area changes one byte; and no call touches the content of an area that
  stays live.  Both allocators of the kernel, the frame allocator and the heap, are
  interpretations.
\<close>

inductive uses ::
  "(u64 \<Rightarrow> 's \<Rightarrow> (u64 \<times> 's) option) \<Rightarrow> (u64 \<Rightarrow> 's \<Rightarrow> 's option) \<Rightarrow> (u64 \<Rightarrow> u8 \<Rightarrow> 's \<Rightarrow> 's) \<Rightarrow>
   (u64 \<Rightarrow> 's \<Rightarrow> bool) \<Rightarrow> ('s \<Rightarrow> (u64 \<times> nat) set) \<Rightarrow> u64 \<Rightarrow> 's \<Rightarrow> 's \<Rightarrow> bool"
  for alloc release poke room_for live p0 where
  alloc: "room_for z s \<Longrightarrow> alloc z s = Some (p, s') \<Longrightarrow> uses alloc release poke room_for live p0 s s'"
| release: "(p, n) \<in> live s \<Longrightarrow> p \<noteq> p0 \<Longrightarrow> release p s = Some s' \<Longrightarrow>
    uses alloc release poke room_for live p0 s s'"
| poke: "(p, n) \<in> live s \<Longrightarrow> p \<noteq> p0 \<Longrightarrow> x \<in> span p n \<Longrightarrow>
    uses alloc release poke room_for live p0 s (poke x v s)"

locale allocator =
  fixes ok :: "'s \<Rightarrow> bool"
    and live :: "'s \<Rightarrow> (u64 \<times> nat) set"
    and content :: "'s \<Rightarrow> mem"
    and poke :: "u64 \<Rightarrow> u8 \<Rightarrow> 's \<Rightarrow> 's"
    and room_for :: "u64 \<Rightarrow> 's \<Rightarrow> bool"
    and size_of :: "u64 \<Rightarrow> nat"
    and alloc :: "u64 \<Rightarrow> 's \<Rightarrow> (u64 \<times> 's) option"
    and release :: "u64 \<Rightarrow> 's \<Rightarrow> 's option"
  assumes live_disjoint: "ok s \<Longrightarrow> (p, n) \<in> live s \<Longrightarrow> (q, k) \<in> live s \<Longrightarrow> p \<noteq> q \<Longrightarrow> span p n \<inter> span q k = {}"
    and live_unique: "ok s \<Longrightarrow> (p, n) \<in> live s \<Longrightarrow> (p, k) \<in> live s \<Longrightarrow> n = k"
    and alloc_returns: "ok s \<Longrightarrow> room_for z s \<Longrightarrow> \<exists>p s'. alloc z s = Some (p, s')"
    and alloc_ok: "ok s \<Longrightarrow> room_for z s \<Longrightarrow> alloc z s = Some (p, s') \<Longrightarrow> ok s'"
    and alloc_null: "ok s \<Longrightarrow> room_for z s \<Longrightarrow> alloc z s = Some (NULL, s') \<Longrightarrow> live s' = live s"
    and alloc_live: "ok s \<Longrightarrow> room_for z s \<Longrightarrow> alloc z s = Some (p, s') \<Longrightarrow> p \<noteq> NULL \<Longrightarrow>
      \<exists>n \<ge> size_of z. p \<notin> fst ` live s \<and> live s' = insert (p, n) (live s) \<and> (\<forall>x \<in> span p n. content s' x = 0)"
    and alloc_keeps: "ok s \<Longrightarrow> room_for z s \<Longrightarrow> alloc z s = Some (p, s') \<Longrightarrow> (q, k) \<in> live s \<Longrightarrow>
      x \<in> span q k \<Longrightarrow> content s' x = content s x"
    and release_live: "ok s \<Longrightarrow> (p, n) \<in> live s \<Longrightarrow>
      \<exists>s'. release p s = Some s' \<and> ok s' \<and> live s' = live s - {(p, n)} \<and>
        (\<forall>(q, k) \<in> live s'. \<forall>x \<in> span q k. content s' x = content s x)"
    and poke_live: "ok s \<Longrightarrow> (p, n) \<in> live s \<Longrightarrow> x \<in> span p n \<Longrightarrow>
      ok (poke x v s) \<and> live (poke x v s) = live s \<and> content (poke x v s) = (content s)(x := v)"
begin

lemma alloc_live_mono:
  assumes "ok s" and "room_for z s" and "alloc z s = Some (p, s')"
  shows "live s \<subseteq> live s'"
  using assms alloc_null [of s z s'] alloc_live [of s z p s'] by (cases "p = NULL") auto

lemma alloc_fresh:
  assumes "ok s" and "room_for z s" and "alloc z s = Some (p, s')" and "p \<noteq> NULL" and "(q, k) \<in> live s"
  shows "\<exists>n \<ge> size_of z. (p, n) \<in> live s' \<and> span p n \<inter> span q k = {}"
proof -
  obtain n where n: "size_of z \<le> n" "p \<notin> fst ` live s" "live s' = insert (p, n) (live s)"
    using alloc_live [OF assms(1-4)] by blast
  then have "p \<noteq> q" using assms(5) by force
  moreover have "ok s'" using alloc_ok [OF assms(1-3)] .
  ultimately have "span p n \<inter> span q k = {}" using live_disjoint [of s' p n q k] n(3) assms(5) by simp
  with n show ?thesis by auto
qed

lemma alloc_release:
  assumes "ok s" and "room_for z s" and "alloc z s = Some (p, s')" and "p \<noteq> NULL"
  shows "\<exists>s''. release p s' = Some s'' \<and> ok s'' \<and> live s'' = live s"
proof -
  obtain n where n: "p \<notin> fst ` live s" "live s' = insert (p, n) (live s)"
    using alloc_live [OF assms] by blast
  obtain s'' where "release p s' = Some s''" "ok s''" "live s'' = live s' - {(p, n)}"
    using release_live [OF alloc_ok [OF assms(1-3)], of p n] n(2) by blast
  moreover have "live s' - {(p, n)} = live s" using n by force
  ultimately show ?thesis by simp
qed

lemma use_keeps:
  assumes "uses alloc release poke room_for live p0 s s'" and "ok s" and "(p0, n) \<in> live s"
  shows "ok s' \<and> (p0, n) \<in> live s' \<and> (\<forall>x \<in> span p0 n. content s' x = content s x)"
  using assms(1)
proof cases
  case (alloc z p)
  with assms alloc_ok alloc_live_mono alloc_keeps show ?thesis by blast
next
  case (release p k)
  obtain t where "release p s = Some t" "ok t" "live t = live s - {(p, k)}"
    "\<forall>(q, k) \<in> live t. \<forall>x \<in> span q k. content t x = content s x"
    using release_live [OF assms(2) release(1)] by blast
  with release assms(3) show ?thesis by (auto dest!: bspec [of _ _ "(p0, n)"])
next
  case (poke p k x v)
  then have "x \<notin> span p0 n" using live_disjoint [OF assms(2) poke(2) assms(3) poke(3)] by blast
  with poke_live [OF assms(2) poke(2,4), of v] poke(1) assms(3) show ?thesis by auto
qed

lemma reachable_ok:
  assumes "(uses alloc release poke room_for live p0)\<^sup>*\<^sup>* s s'" and "ok s"
  shows "ok s'"
  using assms
proof (induction rule: rtranclp_induct)
  case (step t u)
  from step(2) step(3) [OF step(4)] show ?case
  proof cases
    case (release p n)
    with step release_live [of t p n] show ?thesis by auto
  qed (auto dest: alloc_ok poke_live)
qed simp

lemma isolation:
  assumes "(uses alloc release poke room_for live p0)\<^sup>*\<^sup>* s s'" and "ok s" and "(p0, n) \<in> live s"
  shows "ok s' \<and> (p0, n) \<in> live s' \<and> (\<forall>x \<in> span p0 n. content s' x = content s x)"
  using assms
proof (induction rule: rtranclp_induct)
  case (step t u)
  with use_keeps [OF step(2)] show ?case by auto
qed simp

end

end
