(* ===== verification/Frame_Alloc.thy ===== *)
theory Frame_Alloc
  imports Stdio Allocator
begin

text \<open>
  The physical memory manager, \<open>src/src/memory/frame_alloc.c\<close>: a bitmap in physical memory,
  one bit per 4 KB frame of the gigabyte above \<open>PMM_RAM_BASE\<close>, and three counters.
  The definitions come first, in the order of the source; then the bitmap as an interface
  (locale \<open>bitset\<close>), what the marking loops do, the state after initialisation, and the
  contract of allocation and release.
\<close>

record pmm_state = lib_state +
  total_memory :: u64
  free_memory :: u64
  highest_usable_address :: u64

record KERNEL_BOOT_PARAMS =
  uefi_memory_map :: u64
  map_size :: u64
  map_desc_size :: u64
  map_desc_version :: u32
  kernel_phys_start :: u64
  kernel_phys_end :: u64

definition PAGE_SIZE :: u64 where "PAGE_SIZE = 4096"
definition PMM_RAM_BASE :: u64 where "PMM_RAM_BASE = 0x40000000"
definition PMM_MANAGEABLE_SIZE :: u64 where "PMM_MANAGEABLE_SIZE = 1024 * 1024 * 1024"
definition PMM_MAX_ADDRESS :: u64 where "PMM_MAX_ADDRESS = PMM_RAM_BASE + PMM_MANAGEABLE_SIZE"
definition PMM_TOTAL_FRAMES :: u64 where "PMM_TOTAL_FRAMES = PMM_MANAGEABLE_SIZE div PAGE_SIZE"

lemma pmm_consts:
  "PAGE_SIZE = 0x1000" "PMM_RAM_BASE = 0x40000000" "PMM_MANAGEABLE_SIZE = 0x40000000"
  "PMM_MAX_ADDRESS = 0x80000000" "PMM_TOTAL_FRAMES = 0x40000"
  by (simp_all add: PAGE_SIZE_def PMM_RAM_BASE_def PMM_MANAGEABLE_SIZE_def PMM_MAX_ADDRESS_def
      PMM_TOTAL_FRAMES_def)

subsection \<open>The bitmap\<close>

definition bitmap_byte :: "layout \<Rightarrow> nat \<Rightarrow> u64" where
  "bitmap_byte L i = pmm_bitmap_start L + of_nat (i div 8)"

definition set_bit_pmm :: "layout \<Rightarrow> nat \<Rightarrow> mem \<Rightarrow> mem" where
  "set_bit_pmm L i m = m(bitmap_byte L i := m (bitmap_byte L i) OR push_bit (i mod 8) 1)"

definition clear_bit :: "layout \<Rightarrow> nat \<Rightarrow> mem \<Rightarrow> mem" where
  "clear_bit L i m = m(bitmap_byte L i := m (bitmap_byte L i) AND NOT (push_bit (i mod 8) 1))"

definition test_bit :: "layout \<Rightarrow> mem \<Rightarrow> nat \<Rightarrow> bool" where
  "test_bit L m i \<longleftrightarrow> m (bitmap_byte L i) AND push_bit (i mod 8) 1 \<noteq> 0"

subsection \<open>Marking ranges\<close>

definition mark_used_frame :: "layout \<Rightarrow> nat \<Rightarrow> 'a pmm_state_scheme \<Rightarrow> 'a pmm_state_scheme" where
  "mark_used_frame L i s = (if \<not> test_bit L (mem s) i then
     let s = s\<lparr>mem := set_bit_pmm L i (mem s)\<rparr>;
         s = (if total_memory s \<ge> PAGE_SIZE then s\<lparr>total_memory := total_memory s - PAGE_SIZE\<rparr> else s)
     in (if free_memory s \<ge> PAGE_SIZE then s\<lparr>free_memory := free_memory s - PAGE_SIZE\<rparr> else s)
   else s)"

function mark_used_loop :: "layout \<Rightarrow> nat \<Rightarrow> nat \<Rightarrow> 'a pmm_state_scheme \<Rightarrow> 'a pmm_state_scheme" where
  "mark_used_loop L i end_frame s =
     (if i \<le> end_frame then mark_used_loop L (Suc i) end_frame (mark_used_frame L i s) else s)"
  by pat_completeness auto
termination
  by (relation "measure (\<lambda>(L, i, e, s). Suc e - i)") auto

definition frame_range :: "u64 \<Rightarrow> u64 \<Rightarrow> (u64 \<times> u64) option" where
  "frame_range base_addr sz =
     (let start_frame = (if base_addr \<ge> PMM_RAM_BASE then (base_addr - PMM_RAM_BASE) div PAGE_SIZE
                         else - 1);
          end_addr = base_addr + sz;
          end_frame = (if end_addr > PMM_RAM_BASE then (end_addr - 1 - PMM_RAM_BASE) div PAGE_SIZE
                       else 0)
      in if start_frame \<ge> PMM_TOTAL_FRAMES then None
         else Some (start_frame,
                    if end_frame \<ge> PMM_TOTAL_FRAMES then PMM_TOTAL_FRAMES - 1 else end_frame))"

definition mark_range_used ::
  "layout \<Rightarrow> u64 \<Rightarrow> u64 \<Rightarrow> 'a pmm_state_scheme \<Rightarrow> 'a pmm_state_scheme option" where
  "mark_range_used L base_addr sz s = (case frame_range base_addr sz of
     None \<Rightarrow> Some s
   | Some (start_frame, end_frame) \<Rightarrow> do {
       s \<leftarrow> kprint ''PMM: Marking used 0x%llx - 0x%llx (Frames %llu - %llu)\<newline>''
         [VA base_addr, VA (base_addr + sz), VA start_frame, VA end_frame] s;
       Some (mark_used_loop L (unat start_frame) (unat end_frame) s) })"

definition mark_free_frame :: "layout \<Rightarrow> nat \<Rightarrow> 'a pmm_state_scheme \<Rightarrow> 'a pmm_state_scheme" where
  "mark_free_frame L i s =
     (let s = (if test_bit L (mem s) i then
                 let s = s\<lparr>total_memory := total_memory s + PAGE_SIZE\<rparr>;
                     s = s\<lparr>free_memory := free_memory s + PAGE_SIZE\<rparr>
                 in if PMM_RAM_BASE + (of_nat i + 1) * PAGE_SIZE > highest_usable_address s
                    then s\<lparr>highest_usable_address := PMM_RAM_BASE + (of_nat i + 1) * PAGE_SIZE\<rparr> else s
               else s)
      in s\<lparr>mem := clear_bit L i (mem s)\<rparr>)"

function mark_free_loop :: "layout \<Rightarrow> nat \<Rightarrow> nat \<Rightarrow> 'a pmm_state_scheme \<Rightarrow> 'a pmm_state_scheme" where
  "mark_free_loop L i end_frame s =
     (if i \<le> end_frame then mark_free_loop L (Suc i) end_frame (mark_free_frame L i s) else s)"
  by pat_completeness auto
termination
  by (relation "measure (\<lambda>(L, i, e, s). Suc e - i)") auto

definition mark_range_free ::
  "layout \<Rightarrow> u64 \<Rightarrow> u64 \<Rightarrow> 'a pmm_state_scheme \<Rightarrow> 'a pmm_state_scheme option" where
  "mark_range_free L base_addr sz s = (case frame_range base_addr sz of
     None \<Rightarrow> Some s
   | Some (start_frame, end_frame) \<Rightarrow> do {
       s \<leftarrow> kprint ''PMM: Marking free 0x%llx - 0x%llx (Frames %llu - %llu)\<newline>''
         [VA base_addr, VA (base_addr + sz), VA start_frame, VA end_frame] s;
       Some (mark_free_loop L (unat start_frame) (unat end_frame) s) })"

declare mark_used_loop.simps [simp del] mark_free_loop.simps [simp del]

subsection \<open>Initialisation\<close>

definition frame_alloc_init ::
  "layout \<Rightarrow> KERNEL_BOOT_PARAMS option \<Rightarrow> 'a pmm_state_scheme \<Rightarrow> 'a pmm_state_scheme option" where
  "frame_alloc_init L params s = do {
     s \<leftarrow> kprint ''PMM: Initializing Physical Memory Manager...\<newline>'' [] s;
     let bitmap_size = pmm_bitmap_end L - pmm_bitmap_start L;
     s \<leftarrow> kprint ''PMM: Bitmap size: %zu bytes, located at %p\<newline>''
       [VA bitmap_size, VA (pmm_bitmap_start L)] s;
     let s = s\<lparr>mem := memset (mem s) (pmm_bitmap_start L) 0xFF bitmap_size,
       total_memory := 0, free_memory := 0, highest_usable_address := PMM_RAM_BASE\<rparr>;
     s \<leftarrow> (case params of
         Some p \<Rightarrow> do {
           s \<leftarrow> kprint ''PMM: Kernel Physical Range: 0x%llx - 0x%llx\<newline>''
             [VA (kernel_phys_start p), VA (kernel_phys_end p)] s;
           s \<leftarrow> mark_range_free L PMM_RAM_BASE PMM_MANAGEABLE_SIZE s;
           mark_range_used L (kernel_phys_start p) (kernel_phys_end p - kernel_phys_start p) s }
       | None \<Rightarrow> do {
           s \<leftarrow> kprint ''PMM: Kernel boundaries from linker: 0x%llx - 0x%llx\<newline>''
             [VA (kernel_start L), VA (kernel_end L)] s;
           s \<leftarrow> mark_range_free L PMM_RAM_BASE PMM_MANAGEABLE_SIZE s;
           mark_range_used L (kernel_start L) (kernel_end L - kernel_start L) s });
     s \<leftarrow> mark_range_used L (pmm_bitmap_start L) bitmap_size s;
     kprint ''PMM: Initialization complete. Total: %llu KB, Free: %llu KB\<newline>''
       [VA (total_memory s div 1024), VA (free_memory s div 1024)] s }"

subsection \<open>Allocation and release\<close>

function alloc_frame_loop ::
  "layout \<Rightarrow> nat \<Rightarrow> 'a pmm_state_scheme \<Rightarrow> (u64 \<times> 'a pmm_state_scheme) option" where
  "alloc_frame_loop L i s =
     (if i < unat PMM_TOTAL_FRAMES then
        if \<not> test_bit L (mem s) i then
          let s = s\<lparr>mem := set_bit_pmm L i (mem s)\<rparr>;
              s = s\<lparr>free_memory := free_memory s - PAGE_SIZE\<rparr>;
              frame_addr = PMM_RAM_BASE + of_nat i * PAGE_SIZE
          in Some (frame_addr, s\<lparr>mem := memset (mem s) frame_addr 0 PAGE_SIZE\<rparr>)
        else alloc_frame_loop L (Suc i) s
      else do {
        s \<leftarrow> kprint ''PMM: ERROR - Out of physical frames!\<newline>'' [] s;
        Some (NULL, s) })"
  by pat_completeness auto
termination
  by (relation "measure (\<lambda>(L, i, s). unat PMM_TOTAL_FRAMES - i)") auto

declare alloc_frame_loop.simps [simp del]

definition alloc_frame :: "layout \<Rightarrow> 'a pmm_state_scheme \<Rightarrow> (u64 \<times> 'a pmm_state_scheme) option" where
  "alloc_frame L s = alloc_frame_loop L 0 s"

definition free_frame :: "layout \<Rightarrow> u64 \<Rightarrow> 'a pmm_state_scheme \<Rightarrow> 'a pmm_state_scheme option" where
  "free_frame L frame s =
     (if frame = NULL then Some s
      else if frame < PMM_RAM_BASE \<or> frame \<ge> PMM_MAX_ADDRESS then
        kprint ''PMM: Attempt to free invalid frame at %p\<newline>'' [VA frame] s
      else if frame mod PAGE_SIZE \<noteq> 0 then
        kprint ''PMM: Attempt to free unaligned address %p\<newline>'' [VA frame] s
      else let frame_idx = (frame - PMM_RAM_BASE) div PAGE_SIZE in
        if frame_idx \<ge> PMM_TOTAL_FRAMES then
          kprint ''PMM: Frame index %zu out of range\<newline>'' [VA frame_idx] s
        else if \<not> test_bit L (mem s) (unat frame_idx) then
          kprint ''PMM: Warning - double free detected for frame %p\<newline>'' [VA frame] s
        else Some (s\<lparr>mem := clear_bit L (unat frame_idx) (mem s),
                     free_memory := free_memory s + PAGE_SIZE\<rparr>))"

definition pmm_get_total_memory :: "'a pmm_state_scheme \<Rightarrow> u64" where
  "pmm_get_total_memory s = total_memory s"

definition pmm_get_free_memory :: "'a pmm_state_scheme \<Rightarrow> u64" where
  "pmm_get_free_memory s = free_memory s"

definition pmm_get_highest_usable_address :: "'a pmm_state_scheme \<Rightarrow> u64" where
  "pmm_get_highest_usable_address s = highest_usable_address s"

subsection \<open>Bit sets\<close>

text \<open>
  What a client of a bitmap relies on, and what follows for the set of clear bits: setting a
  bit removes it, clearing a bit adds it.  The interpretation discharges the laws for the
  bitmap in physical memory, where bits of one byte share an address.
\<close>

definition clear_bits :: "('m \<Rightarrow> nat \<Rightarrow> bool) \<Rightarrow> nat \<Rightarrow> 'm \<Rightarrow> nat set" where
  "clear_bits get N m = {i. i < N \<and> \<not> get m i}"

locale bitset =
  fixes get :: "'m \<Rightarrow> nat \<Rightarrow> bool"
    and put :: "nat \<Rightarrow> 'm \<Rightarrow> 'm"
    and clr :: "nat \<Rightarrow> 'm \<Rightarrow> 'm"
    and N :: nat
  assumes get_put: "i < N \<Longrightarrow> j < N \<Longrightarrow> get (put i m) j \<longleftrightarrow> j = i \<or> get m j"
    and get_clr: "i < N \<Longrightarrow> j < N \<Longrightarrow> get (clr i m) j \<longleftrightarrow> j \<noteq> i \<and> get m j"
begin

lemma finite_clear [simp]: "finite (clear_bits get N m)"
  by (simp add: clear_bits_def)

lemma card_clear_le: "card (clear_bits get N m) \<le> N"
  using card_mono [of "{..<N}" "clear_bits get N m"] by (auto simp: clear_bits_def)

lemma clear_put: "i < N \<Longrightarrow> clear_bits get N (put i m) = clear_bits get N m - {i}"
  by (auto simp: clear_bits_def get_put)

lemma clear_clr: "i < N \<Longrightarrow> clear_bits get N (clr i m) = insert i (clear_bits get N m)"
  by (auto simp: clear_bits_def get_clr)

lemma card_put:
  "i < N \<Longrightarrow> \<not> get m i \<Longrightarrow> card (clear_bits get N m) = Suc (card (clear_bits get N (put i m)))"
  using card.remove [of "clear_bits get N m" i] by (simp add: clear_put) (simp add: clear_bits_def)

lemma card_clr:
  "i < N \<Longrightarrow> get m i \<Longrightarrow> card (clear_bits get N (clr i m)) = Suc (card (clear_bits get N m))"
  by (subst clear_clr) (auto simp: clear_bits_def)

lemma clr_put: "i < N \<Longrightarrow> \<not> get m i \<Longrightarrow> clear_bits get N (clr i (put i m)) = clear_bits get N m"
  by (auto simp: clear_bits_def get_clr get_put)

end

abbreviation FRAMES :: nat where "FRAMES \<equiv> 0x40000"

lemma test_bit_iff: "test_bit L m i \<longleftrightarrow> bit (m (bitmap_byte L i)) (i mod 8)"
proof -
  have "m (bitmap_byte L i) AND push_bit (i mod 8) 1 \<noteq> 0 \<longleftrightarrow> bit (m (bitmap_byte L i)) (i mod 8)"
    by (simp add: bit_iff_and_push_bit_not_eq_0)
  then show ?thesis by (simp add: test_bit_def)
qed

lemma bitmap_byte_eq: "i < FRAMES \<Longrightarrow> j < FRAMES \<Longrightarrow> bitmap_byte L i = bitmap_byte L j \<longleftrightarrow> i div 8 = j div 8"
proof -
  assume "i < FRAMES" "j < FRAMES"
  then have "unat (of_nat (i div 8) :: u64) = i div 8" "unat (of_nat (j div 8) :: u64) = j div 8"
    by (auto intro!: unat_of_nat64)
  then have "of_nat (i div 8) = (of_nat (j div 8) :: u64) \<longleftrightarrow> i div 8 = j div 8" by metis
  then show ?thesis by (simp add: bitmap_byte_def)
qed

lemma same_bit: "i div 8 = j div 8 \<Longrightarrow> i mod 8 = j mod 8 \<longleftrightarrow> i = (j :: nat)"
  by (metis div_mult_mod_eq)

interpretation bm: bitset "test_bit L" "set_bit_pmm L" "clear_bit L" FRAMES for L
proof
  fix i j and m :: mem
  assume ij: "i < FRAMES" "j < FRAMES"
  have one: "bit (push_bit (i mod 8) 1 :: u8) (j mod 8) \<longleftrightarrow> i mod 8 = j mod 8"
    by (auto simp: bit_push_bit_iff bit_1_iff bit_exp_iff)
  show "test_bit L (set_bit_pmm L i m) j \<longleftrightarrow> j = i \<or> test_bit L m j"
  proof (cases "i div 8 = j div 8")
    case True
    then have "bitmap_byte L i = bitmap_byte L j" by (simp add: bitmap_byte_eq ij)
    then show ?thesis
      using same_bit [OF True] one by (auto simp: test_bit_iff set_bit_pmm_def bit_or_iff)
  next
    case False
    then have "bitmap_byte L j \<noteq> bitmap_byte L i" by (simp add: bitmap_byte_eq ij)
    with False show ?thesis by (auto simp: test_bit_iff set_bit_pmm_def)
  qed
  show "test_bit L (clear_bit L i m) j \<longleftrightarrow> j \<noteq> i \<and> test_bit L m j"
  proof (cases "i div 8 = j div 8")
    case True
    then have "bitmap_byte L i = bitmap_byte L j" by (simp add: bitmap_byte_eq ij)
    then show ?thesis
      using same_bit [OF True] one by (auto simp: test_bit_iff clear_bit_def bit_and_iff bit_not_iff)
  next
    case False
    then have "bitmap_byte L j \<noteq> bitmap_byte L i" by (simp add: bitmap_byte_eq ij)
    with False show ?thesis by (auto simp: test_bit_iff clear_bit_def)
  qed
qed

abbreviation free_frames :: "layout \<Rightarrow> mem \<Rightarrow> nat set" where
  "free_frames L m \<equiv> clear_bits (test_bit L) FRAMES m"


lemma free_frames_subset: "free_frames L m \<subseteq> {..<FRAMES}"
  by (auto simp: clear_bits_def)

lemma free_framesI: "i < FRAMES \<Longrightarrow> \<not> test_bit L m i \<Longrightarrow> i \<in> free_frames L m"
  by (simp add: clear_bits_def)

lemma bitmap_byte_span: "i < FRAMES \<Longrightarrow> bitmap_byte L i \<in> span (pmm_bitmap_start L) 0x8000"
  "i < FRAMES \<Longrightarrow> bitmap_byte L i \<in> span (pmm_bitmap_start L) 0x20000"
proof -
  assume "i < FRAMES"
  then have "unat (of_nat (i div 8) :: u64) = i div 8" and "i div 8 < 0x8000"
    by (auto intro!: unat_of_nat64)
  then show "bitmap_byte L i \<in> span (pmm_bitmap_start L) 0x8000"
    "bitmap_byte L i \<in> span (pmm_bitmap_start L) 0x20000"
    by (simp_all add: mem_span bitmap_byte_def)
qed

lemma free_frames_cong:
  assumes "\<And>x. x \<in> span (pmm_bitmap_start L) 0x8000 \<Longrightarrow> m x = m' x"
  shows "free_frames L m = free_frames L m'"
  using assms bitmap_byte_span(1) [of _ L] by (auto simp: clear_bits_def test_bit_def)

subsection \<open>Accounting\<close>

definition pmm_acct :: "layout \<Rightarrow> 'a pmm_state_scheme \<Rightarrow> bool" where
  "pmm_acct L s \<longleftrightarrow> free_memory s = of_nat (4096 * card (free_frames L (mem s)))"

definition pmm_only :: "layout \<Rightarrow> 'a pmm_state_scheme \<Rightarrow> 'a pmm_state_scheme \<Rightarrow> bool" where
  "pmm_only L s s' \<longleftrightarrow>
     s' = s\<lparr>mem := mem s', uart := uart s', total_memory := total_memory s', free_memory := free_memory s',
            highest_usable_address := highest_usable_address s'\<rparr> \<and>
     (\<forall>x. x \<notin> span (pmm_bitmap_start L) 0x20000 \<longrightarrow> mem s' x = mem s x)"

lemma pmm_only_refl [simp]: "pmm_only L s s"
  by (simp add: pmm_only_def)

lemma pmm_only_trans: "pmm_only L s t \<Longrightarrow> pmm_only L t u \<Longrightarrow> pmm_only L s u"
  by (cases s, cases t, cases u) (auto simp: pmm_only_def)

lemma unat_free_memory:
  "pmm_acct L s \<Longrightarrow> unat (free_memory s) = 4096 * card (free_frames L (mem s))"
  using bm.card_clear_le [of L "mem s"] by (simp add: pmm_acct_def unat_of_nat64 del: of_nat_mult)

lemma mark_used_frame_effect:
  assumes i: "i < FRAMES" and acct: "pmm_acct L s"
  defines "s' \<equiv> mark_used_frame L i s"
  shows "free_frames L (mem s') = free_frames L (mem s) - {i}" and "pmm_acct L s'"
    and "total_memory s = free_memory s \<Longrightarrow> total_memory s' = free_memory s'"
    and "highest_usable_address s' = highest_usable_address s" and "pmm_only L s s'"
    and "uart s' = uart s"
proof -
  have enough: "PAGE_SIZE \<le> free_memory s" if "\<not> test_bit L (mem s) i"
    using unat_free_memory [OF acct] bm.card_put [OF i that]
    by (simp add: word_le_nat_alt pmm_consts)
  have bits: "mem s' = (if test_bit L (mem s) i then mem s else set_bit_pmm L i (mem s))"
    by (simp add: s'_def mark_used_frame_def Let_def)
  then show "free_frames L (mem s') = free_frames L (mem s) - {i}"
    using i by (auto simp: bm.clear_put) (auto simp: clear_bits_def)
  show "pmm_acct L s'"
  proof (cases "test_bit L (mem s) i")
    case False
    then have "free_memory s' = free_memory s - PAGE_SIZE"
      using enough by (simp add: s'_def mark_used_frame_def Let_def)
    with False acct bm.card_put [OF i False] bits show ?thesis
      by (simp add: pmm_acct_def pmm_consts)
  qed (use acct in \<open>simp add: s'_def mark_used_frame_def\<close>)
  show "total_memory s = free_memory s \<Longrightarrow> total_memory s' = free_memory s'"
    "highest_usable_address s' = highest_usable_address s" "uart s' = uart s"
    by (auto simp: s'_def mark_used_frame_def Let_def)
  show "pmm_only L s s'"
    using bitmap_byte_span(2) [OF i, of L]
    by (auto simp: s'_def mark_used_frame_def Let_def pmm_only_def set_bit_pmm_def)
qed

lemma mark_used_loop_effect:
  "e < FRAMES \<Longrightarrow> pmm_acct L s \<Longrightarrow>
   free_frames L (mem (mark_used_loop L i e s)) = free_frames L (mem s) - {i..e} \<and>
   pmm_acct L (mark_used_loop L i e s) \<and>
   (total_memory s = free_memory s \<longrightarrow>
      total_memory (mark_used_loop L i e s) = free_memory (mark_used_loop L i e s)) \<and>
   highest_usable_address (mark_used_loop L i e s) = highest_usable_address s \<and>
   uart (mark_used_loop L i e s) = uart s \<and> pmm_only L s (mark_used_loop L i e s)"
proof (induction L i e s rule: mark_used_loop.induct)
  case (1 L i e s)
  show ?case
  proof (cases "i \<le> e")
    case True
    then have "{i..e} = insert i {Suc i..e}" by auto
    with 1 True mark_used_frame_effect [of i L s] show ?thesis
      by (subst (1 2 3 4 5 6 7) mark_used_loop.simps) (auto intro: pmm_only_trans)
  qed (use 1 in \<open>simp add: mark_used_loop.simps\<close>)
qed

definition frame_addr :: "nat \<Rightarrow> u64" where
  "frame_addr i = PMM_RAM_BASE + of_nat i * PAGE_SIZE"

lemma unat_frame_addr: "i \<le> FRAMES \<Longrightarrow> unat (frame_addr i) = 0x40000000 + i * 4096"
  by (simp add: frame_addr_def pmm_consts unat_word_ariths unat_of_nat)

lemma mark_free_frame_effect:
  assumes i: "i < FRAMES" and acct: "pmm_acct L s"
  defines "s' \<equiv> mark_free_frame L i s"
  shows "free_frames L (mem s') = insert i (free_frames L (mem s))" and "pmm_acct L s'"
    and "total_memory s = free_memory s \<Longrightarrow> total_memory s' = free_memory s'"
    and "test_bit L (mem s) i \<Longrightarrow>
      highest_usable_address s' = max (highest_usable_address s) (frame_addr (Suc i))"
    and "pmm_only L s s'" and "uart s' = uart s"
proof -
  have bits: "mem s' = clear_bit L i (mem s)"
    by (simp add: s'_def mark_free_frame_def Let_def)
  then show free: "free_frames L (mem s') = insert i (free_frames L (mem s))"
    using i by (simp add: bm.clear_clr)
  show "pmm_acct L s'"
  proof (cases "test_bit L (mem s) i")
    case True
    then have "free_memory s' = free_memory s + PAGE_SIZE"
      by (simp add: s'_def mark_free_frame_def Let_def)
    with True acct bm.card_clr [OF i True] bits show ?thesis
      by (simp add: pmm_acct_def pmm_consts)
  next
    case False
    with i acct free free_framesI [OF i False] show ?thesis
      by (simp add: pmm_acct_def s'_def mark_free_frame_def insert_absorb)
  qed
  show "total_memory s = free_memory s \<Longrightarrow> total_memory s' = free_memory s'" "uart s' = uart s"
    by (simp_all add: s'_def mark_free_frame_def Let_def)
  show "test_bit L (mem s) i \<Longrightarrow>
      highest_usable_address s' = max (highest_usable_address s) (frame_addr (Suc i))"
    by (auto simp: s'_def mark_free_frame_def Let_def frame_addr_def max_def add.commute)
  show "pmm_only L s s'"
    using bitmap_byte_span(2) [OF i, of L]
    by (auto simp: s'_def mark_free_frame_def Let_def pmm_only_def clear_bit_def)
qed

lemma mark_free_loop_effect:
  "e < FRAMES \<Longrightarrow> pmm_acct L s \<Longrightarrow>
   free_frames L (mem (mark_free_loop L i e s)) = free_frames L (mem s) \<union> {i..e} \<and>
   pmm_acct L (mark_free_loop L i e s) \<and>
   (total_memory s = free_memory s \<longrightarrow>
      total_memory (mark_free_loop L i e s) = free_memory (mark_free_loop L i e s)) \<and>
   uart (mark_free_loop L i e s) = uart s \<and> pmm_only L s (mark_free_loop L i e s)"
proof (induction L i e s rule: mark_free_loop.induct)
  case (1 L i e s)
  show ?case
  proof (cases "i \<le> e")
    case True
    then have "{i..e} = insert i {Suc i..e}" by auto
    with 1 True mark_free_frame_effect [of i L s] show ?thesis
      by (subst (1 2 3 4 5 6) mark_free_loop.simps) (auto intro: pmm_only_trans)
  qed (use 1 in \<open>simp add: mark_free_loop.simps\<close>)
qed

lemma mark_free_loop_highest:
  "e < FRAMES \<Longrightarrow> i \<le> e \<Longrightarrow> pmm_acct L s \<Longrightarrow> \<forall>j\<in>{i..e}. test_bit L (mem s) j \<Longrightarrow>
   highest_usable_address s \<le> frame_addr i \<Longrightarrow>
   highest_usable_address (mark_free_loop L i e s) = frame_addr (Suc e)"
proof (induction L i e s rule: mark_free_loop.induct)
  case (1 L i e s)
  note eff = mark_free_frame_effect [of i L s]
  have "frame_addr i \<le> frame_addr (Suc i)"
    using "1.prems" by (simp add: word_le_nat_alt unat_frame_addr)
  with "1.prems" eff(4) have hi: "highest_usable_address (mark_free_frame L i s) = frame_addr (Suc i)"
    by (simp add: max_def order_antisym)
  show ?case
  proof (cases "i = e")
    case True
    with hi show ?thesis by (simp add: mark_free_loop.simps)
  next
    case False
    have "\<forall>j\<in>{Suc i..e}. test_bit L (mem (mark_free_frame L i s)) j"
    proof
      fix j assume j: "j \<in> {Suc i..e}"
      have "mem (mark_free_frame L i s) = clear_bit L i (mem s)"
        by (simp add: mark_free_frame_def Let_def)
      with j "1.prems" bm.get_clr [of i j L "mem s"] show "test_bit L (mem (mark_free_frame L i s)) j"
        by auto
    qed
    with False "1.prems" eff(2) hi "1.IH" show ?thesis by (subst mark_free_loop.simps) simp
  qed
qed

subsection \<open>Ranges of frames\<close>

definition frame_meets :: "nat \<Rightarrow> u64 \<Rightarrow> u64 \<Rightarrow> bool" where
  "frame_meets i base_addr sz \<longleftrightarrow>
     unat base_addr < 0x40000000 + Suc i * 4096 \<and> 0x40000000 + i * 4096 < unat base_addr + unat sz"

definition in_ram :: "u64 \<Rightarrow> u64 \<Rightarrow> bool" where
  "in_ram base_addr sz \<longleftrightarrow>
     0x40000000 \<le> unat base_addr \<and> 0 < unat sz \<and> unat base_addr + unat sz \<le> 0x80000000"

lemma frame_range_meets:
  assumes "in_ram base_addr sz"
  obtains a b where "frame_range base_addr sz = Some (a, b)" and "unat b < FRAMES"
    and "\<And>i. i \<in> {unat a..unat b} \<longleftrightarrow> frame_meets i base_addr sz"
proof -
  let ?B = "unat base_addr" and ?S = "unat sz"
  have r: "0x40000000 \<le> ?B" "0 < ?S" "?B + ?S \<le> 0x80000000" using assms by (auto simp: in_ram_def)
  let ?a = "(base_addr - PMM_RAM_BASE) div PAGE_SIZE"
  let ?b = "(base_addr + sz - 1 - PMM_RAM_BASE) div PAGE_SIZE"
  have ge: "PMM_RAM_BASE \<le> base_addr" using r by (simp add: pmm_consts word_le_nat_alt)
  have e: "unat (base_addr + sz) = ?B + ?S" using r by (simp add: unat_word_ariths)
  have gt: "PMM_RAM_BASE < base_addr + sz" using r e by (simp add: pmm_consts word_less_nat_alt)
  have "unat (base_addr + sz - 1 - PMM_RAM_BASE) = ?B + ?S - 1 - 0x40000000"
    using r e by (simp add: unat_sub_if' pmm_consts)
  then have b: "unat ?b = (?B + ?S - 1 - 0x40000000) div 4096" by (simp add: unat_div pmm_consts)
  have "unat (base_addr - PMM_RAM_BASE) = ?B - 0x40000000"
    using r by (simp add: unat_sub_if' pmm_consts)
  then have a: "unat ?a = (?B - 0x40000000) div 4096" by (simp add: unat_div pmm_consts)
  have "unat ?a < FRAMES" "unat ?b < FRAMES" using r a b by auto
  then have "frame_range base_addr sz = Some (?a, ?b)" and "unat ?b < FRAMES"
    using ge gt by (simp_all add: frame_range_def Let_def word_le_nat_alt) (simp add: pmm_consts)
  moreover have "i \<in> {unat ?a..unat ?b} \<longleftrightarrow> frame_meets i base_addr sz" for i
    using r unfolding a b frame_meets_def atLeastAtMost_iff by auto
  ultimately show thesis by (rule that)
qed

lemma pmm_fits [simp]:
  "fits ''PMM: Marking used 0x%llx - 0x%llx (Frames %llu - %llu)\<newline>'' [VA a, VA b, VA c, VA d]"
  "fits ''PMM: Marking free 0x%llx - 0x%llx (Frames %llu - %llu)\<newline>'' [VA a, VA b, VA c, VA d]"
  "fits ''PMM: Initializing Physical Memory Manager...\<newline>'' []"
  "fits ''PMM: Bitmap size: %zu bytes, located at %p\<newline>'' [VA a, VA b]"
  "fits ''PMM: Kernel Physical Range: 0x%llx - 0x%llx\<newline>'' [VA a, VA b]"
  "fits ''PMM: Kernel boundaries from linker: 0x%llx - 0x%llx\<newline>'' [VA a, VA b]"
  "fits ''PMM: Initialization complete. Total: %llu KB, Free: %llu KB\<newline>'' [VA a, VA b]"
  "fits ''PMM: ERROR - Out of physical frames!\<newline>'' []"
  "fits ''PMM: Attempt to free invalid frame at %p\<newline>'' [VA a]"
  "fits ''PMM: Attempt to free unaligned address %p\<newline>'' [VA a]"
  "fits ''PMM: Frame index %zu out of range\<newline>'' [VA a]"
  "fits ''PMM: Warning - double free detected for frame %p\<newline>'' [VA a]"
  by (simp_all add: fits_def modifiers_def)

lemma pmm_acct_uart [simp]: "pmm_acct L (s\<lparr>uart := u\<rparr>) = pmm_acct L s"
  by (simp add: pmm_acct_def)

lemma pmm_only_uart: "pmm_only L (s\<lparr>uart := u\<rparr>) t \<Longrightarrow> pmm_only L s t"
  by (cases s) (auto simp: pmm_only_def)

lemma mark_range_used_effect:
  assumes "in_ram base_addr sz" and "pmm_acct L s" and "tx_drains (uart s)"
  obtains s' where "mark_range_used L base_addr sz s = Some s'"
    and "free_frames L (mem s') = {i \<in> free_frames L (mem s). \<not> frame_meets i base_addr sz}"
    and "pmm_acct L s'" and "total_memory s = free_memory s \<longrightarrow> total_memory s' = free_memory s'"
    and "highest_usable_address s' = highest_usable_address s"
    and "tx_drains (uart s')" and "pmm_only L s s'"
proof -
  obtain a b where r: "frame_range base_addr sz = Some (a, b)" "unat b < FRAMES"
    "\<And>i. i \<in> {unat a..unat b} \<longleftrightarrow> frame_meets i base_addr sz"
    using frame_range_meets [OF assms(1)] by blast
  let ?f = "''PMM: Marking used 0x%llx - 0x%llx (Frames %llu - %llu)\<newline>''"
  let ?v = "[VA base_addr, VA (base_addr + sz), VA a, VA b]"
  let ?s = "s\<lparr>uart := kprint_uart ?f ?v s\<rparr>"
  let ?t = "mark_used_loop L (unat a) (unat b) ?s"
  have k: "kprint ?f ?v s = Some ?s" "tx_drains (uart ?s)"
    using kprint_fits [of ?f ?v s] assms(3) by simp_all
  have e: "mark_range_used L base_addr sz s = Some ?t" by (simp add: mark_range_used_def r k)
  note eff = mark_used_loop_effect [OF r(2), of L ?s "unat a"]
  show thesis
  proof (rule that [OF e])
    show "free_frames L (mem ?t) = {i \<in> free_frames L (mem s). \<not> frame_meets i base_addr sz}"
      using eff assms(2) r(3) by auto
  qed (use eff assms(2) k pmm_only_uart [where s = s] in auto)
qed

lemma mark_range_free_effect:
  assumes "in_ram base_addr sz" and "pmm_acct L s" and "tx_drains (uart s)"
  obtains s' where "mark_range_free L base_addr sz s = Some s'"
    and "free_frames L (mem s') = free_frames L (mem s) \<union> {i. frame_meets i base_addr sz}"
    and "pmm_acct L s'" and "total_memory s = free_memory s \<longrightarrow> total_memory s' = free_memory s'"
    and "tx_drains (uart s')" and "pmm_only L s s'"
proof -
  obtain a b where r: "frame_range base_addr sz = Some (a, b)" "unat b < FRAMES"
    "\<And>i. i \<in> {unat a..unat b} \<longleftrightarrow> frame_meets i base_addr sz"
    using frame_range_meets [OF assms(1)] by blast
  let ?f = "''PMM: Marking free 0x%llx - 0x%llx (Frames %llu - %llu)\<newline>''"
  let ?v = "[VA base_addr, VA (base_addr + sz), VA a, VA b]"
  let ?s = "s\<lparr>uart := kprint_uart ?f ?v s\<rparr>"
  let ?t = "mark_free_loop L (unat a) (unat b) ?s"
  have k: "kprint ?f ?v s = Some ?s" "tx_drains (uart ?s)"
    using kprint_fits [of ?f ?v s] assms(3) by simp_all
  have e: "mark_range_free L base_addr sz s = Some ?t" by (simp add: mark_range_free_def r k)
  note eff = mark_free_loop_effect [OF r(2), of L ?s "unat a"]
  show thesis
  proof (rule that [OF e])
    show "free_frames L (mem ?t) = free_frames L (mem s) \<union> {i. frame_meets i base_addr sz}"
      using eff assms(2) r(3) by auto
  qed (use eff assms(2) k pmm_only_uart [where s = s] in auto)
qed

subsection \<open>The state after initialisation\<close>

definition kernel_range :: "layout \<Rightarrow> KERNEL_BOOT_PARAMS option \<Rightarrow> u64 \<times> u64" where
  "kernel_range L params = (case params of
     Some p \<Rightarrow> (kernel_phys_start p, kernel_phys_end p - kernel_phys_start p)
   | None \<Rightarrow> (kernel_start L, kernel_end L - kernel_start L))"

definition reserved :: "layout \<Rightarrow> KERNEL_BOOT_PARAMS option \<Rightarrow> nat set" where
  "reserved L params = (case kernel_range L params of (base_addr, sz) \<Rightarrow>
     {i. frame_meets i base_addr sz \<or> frame_meets i (pmm_bitmap_start L) 0x20000})"

lemma test_bit_memset:
  "i < FRAMES \<Longrightarrow> test_bit L (memset m (pmm_bitmap_start L) 0xFF 0x20000) i"
proof -
  assume "i < FRAMES"
  then have "bitmap_byte L i \<in> span (pmm_bitmap_start L) 0x20000" by (rule bitmap_byte_span)
  then have "memset m (pmm_bitmap_start L) 0xFF 0x20000 (bitmap_byte L i) = 0xFF"
    by (simp add: memset_eq)
  moreover have "bit (0xFF :: u8) (i mod 8)"
  proof -
    have ff: "(0xFF :: u8) = - 1" by simp
    show ?thesis unfolding ff by (simp add: bit_minus_1_iff)
  qed
  ultimately show ?thesis by (simp add: test_bit_iff)
qed


lemma frame_meets_ram: "i < FRAMES \<Longrightarrow> frame_meets i PMM_RAM_BASE PMM_MANAGEABLE_SIZE"
  by (simp add: frame_meets_def pmm_consts)

lemma pmm_only_kprint:
  assumes "fits f args" and "tx_drains (uart s)"
  obtains s' where "kprint f args s = Some s'" and "tx_drains (uart s')" and "pmm_only L s s'"
    and "mem s' = mem s" and "total_memory s' = total_memory s" and "free_memory s' = free_memory s"
    and "highest_usable_address s' = highest_usable_address s"
  using kprint_fits [OF assms] that [of "s\<lparr>uart := kprint_uart f args s\<rparr>"] by (simp add: pmm_only_def)

text \<open>All of RAM marked free over an all-ones bitmap: the counters describe the whole gigabyte.\<close>

lemma mark_ram_free:
  assumes "tx_drains (uart s)" and "mem s = memset m (pmm_bitmap_start L) 0xFF 0x20000"
    and "total_memory s = 0" and "free_memory s = 0" and "highest_usable_address s = PMM_RAM_BASE"
  obtains s' where "mark_range_free L PMM_RAM_BASE PMM_MANAGEABLE_SIZE s = Some s'"
    and "free_frames L (mem s') = {..<FRAMES}" and "pmm_acct L s'"
    and "total_memory s' = free_memory s'" and "highest_usable_address s' = PMM_MAX_ADDRESS"
    and "tx_drains (uart s')" and "pmm_only L s s'"
proof -
  have set: "test_bit L (mem s) i" if "i < FRAMES" for i using that assms(2) by (simp add: test_bit_memset)
  then have none: "free_frames L (mem s) = {}" by (auto simp: clear_bits_def)
  with assms have acct: "pmm_acct L s" by (simp add: pmm_acct_def)
  have "in_ram PMM_RAM_BASE PMM_MANAGEABLE_SIZE" by (simp add: in_ram_def pmm_consts)
  then obtain s' where s': "mark_range_free L PMM_RAM_BASE PMM_MANAGEABLE_SIZE s = Some s'"
    "free_frames L (mem s') = free_frames L (mem s) \<union> {i. frame_meets i PMM_RAM_BASE PMM_MANAGEABLE_SIZE}"
    "pmm_acct L s'" "total_memory s = free_memory s \<longrightarrow> total_memory s' = free_memory s'"
    "tx_drains (uart s')" "pmm_only L s s'"
    using mark_range_free_effect [OF _ acct assms(1)] by blast
  have "frame_range PMM_RAM_BASE PMM_MANAGEABLE_SIZE = Some (0, 0x3FFFF)"
    by (simp add: frame_range_def pmm_consts)
  then obtain u where "s' = mark_free_loop L 0 0x3FFFF (s\<lparr>uart := u\<rparr>)"
    using s'(1) kprint_fits(1) [OF pmm_fits(2) assms(1)] by (auto simp: mark_range_free_def)
  moreover have "highest_usable_address (mark_free_loop L 0 0x3FFFF (s\<lparr>uart := u\<rparr>)) = frame_addr (Suc 0x3FFFF)"
    using acct set assms(5) by (intro mark_free_loop_highest) (auto simp: frame_addr_def)
  ultimately have "highest_usable_address s' = PMM_MAX_ADDRESS"
    by (simp add: frame_addr_def pmm_consts)
  moreover have "free_frames L (mem s') = {..<FRAMES}"
    using s'(2) none frame_meets_ram free_frames_subset [of L "mem s'"] by auto
  ultimately show thesis using that s' assms(3,4) by simp
qed

definition kernel_msg :: "layout \<Rightarrow> KERNEL_BOOT_PARAMS option \<Rightarrow> string \<times> vararg list" where
  "kernel_msg L params = (case params of
     Some p \<Rightarrow> (''PMM: Kernel Physical Range: 0x%llx - 0x%llx\<newline>'',
       [VA (kernel_phys_start p), VA (kernel_phys_end p)])
   | None \<Rightarrow> (''PMM: Kernel boundaries from linker: 0x%llx - 0x%llx\<newline>'',
       [VA (kernel_start L), VA (kernel_end L)]))"

text \<open>Both branches of the initialisation do the same to the range they take the kernel to be.\<close>

lemma frame_alloc_init_unfold:
  assumes "kernel_range L params = (base_addr, sz)" and "kernel_msg L params = (f, args)"
  shows "frame_alloc_init L params s = do {
     s \<leftarrow> kprint ''PMM: Initializing Physical Memory Manager...\<newline>'' [] s;
     let bitmap_size = pmm_bitmap_end L - pmm_bitmap_start L;
     s \<leftarrow> kprint ''PMM: Bitmap size: %zu bytes, located at %p\<newline>''
       [VA bitmap_size, VA (pmm_bitmap_start L)] s;
     let s = s\<lparr>mem := memset (mem s) (pmm_bitmap_start L) 0xFF bitmap_size,
       total_memory := 0, free_memory := 0, highest_usable_address := PMM_RAM_BASE\<rparr>;
     s \<leftarrow> kprint f args s;
     s \<leftarrow> mark_range_free L PMM_RAM_BASE PMM_MANAGEABLE_SIZE s;
     s \<leftarrow> mark_range_used L base_addr sz s;
     s \<leftarrow> mark_range_used L (pmm_bitmap_start L) bitmap_size s;
     kprint ''PMM: Initialization complete. Total: %llu KB, Free: %llu KB\<newline>''
       [VA (total_memory s div 1024), VA (free_memory s div 1024)] s }"
  using assms
  by (cases params) (auto simp: frame_alloc_init_def kernel_range_def kernel_msg_def Let_def)

lemma frame_alloc_init_effect:
  assumes L: "link_ok L" and tx: "tx_drains (uart s)" and kr: "kernel_range L params = (base_addr, sz)"
    and ram: "in_ram base_addr sz"
  obtains s' where "frame_alloc_init L params s = Some s'"
    and "free_frames L (mem s') = {..<FRAMES} - reserved L params" and "pmm_acct L s'"
    and "total_memory s' = free_memory s'" and "highest_usable_address s' = PMM_MAX_ADDRESS"
    and "tx_drains (uart s')" and "pmm_only L s s'"
proof -
  have bs: "pmm_bitmap_end L - pmm_bitmap_start L = 0x20000" using link_okD(5) [OF L] by simp
  have bram: "in_ram (pmm_bitmap_start L) 0x20000"
    using link_okD(2,3) [OF L] by (simp add: in_ram_def)
  obtain f args where msg: "kernel_msg L params = (f, args)" and fits: "fits f args"
    by (cases params) (auto simp: kernel_msg_def)
  obtain s1 where s1: "kprint ''PMM: Initializing Physical Memory Manager...\<newline>'' [] s = Some s1"
    "tx_drains (uart s1)" "pmm_only L s s1"
    by (rule pmm_only_kprint [OF pmm_fits(3) tx, where L = L])
  obtain s2 where s2: "kprint ''PMM: Bitmap size: %zu bytes, located at %p\<newline>''
       [VA 0x20000, VA (pmm_bitmap_start L)] s1 = Some s2" "tx_drains (uart s2)" "pmm_only L s1 s2"
    by (rule pmm_only_kprint [OF pmm_fits(4) s1(2), where L = L])
  define s3 where "s3 = s2\<lparr>mem := memset (mem s2) (pmm_bitmap_start L) 0xFF 0x20000,
       total_memory := 0, free_memory := 0, highest_usable_address := PMM_RAM_BASE\<rparr>"
  have o3: "pmm_only L s2 s3" and t3: "tx_drains (uart s3)"
    using s2 by (auto simp: s3_def pmm_only_def memset_eq)
  obtain s4 where s4: "kprint f args s3 = Some s4" "tx_drains (uart s4)" "pmm_only L s3 s4"
    "mem s4 = mem s3" "total_memory s4 = total_memory s3" "free_memory s4 = free_memory s3"
    "highest_usable_address s4 = highest_usable_address s3"
    by (rule pmm_only_kprint [OF fits t3])
  obtain s5 where s5: "mark_range_free L PMM_RAM_BASE PMM_MANAGEABLE_SIZE s4 = Some s5"
    "free_frames L (mem s5) = {..<FRAMES}" "pmm_acct L s5" "total_memory s5 = free_memory s5"
    "highest_usable_address s5 = PMM_MAX_ADDRESS" "tx_drains (uart s5)" "pmm_only L s4 s5"
    by (rule mark_ram_free [OF s4(2), of "mem s2" L]) (use s4 in \<open>simp_all add: s3_def\<close>)
  obtain s6 where s6: "mark_range_used L base_addr sz s5 = Some s6"
    "free_frames L (mem s6) = {i \<in> free_frames L (mem s5). \<not> frame_meets i base_addr sz}"
    "pmm_acct L s6" "total_memory s5 = free_memory s5 \<longrightarrow> total_memory s6 = free_memory s6"
    "highest_usable_address s6 = highest_usable_address s5" "tx_drains (uart s6)" "pmm_only L s5 s6"
    by (rule mark_range_used_effect [OF ram s5(3,6)])
  obtain s7 where s7: "mark_range_used L (pmm_bitmap_start L) 0x20000 s6 = Some s7"
    "free_frames L (mem s7) = {i \<in> free_frames L (mem s6). \<not> frame_meets i (pmm_bitmap_start L) 0x20000}"
    "pmm_acct L s7" "total_memory s6 = free_memory s6 \<longrightarrow> total_memory s7 = free_memory s7"
    "highest_usable_address s7 = highest_usable_address s6" "tx_drains (uart s7)" "pmm_only L s6 s7"
    by (rule mark_range_used_effect [OF bram s6(3,6)])
  obtain s8 where s8: "kprint ''PMM: Initialization complete. Total: %llu KB, Free: %llu KB\<newline>''
       [VA (total_memory s7 div 1024), VA (free_memory s7 div 1024)] s7 = Some s8"
    "tx_drains (uart s8)" "pmm_only L s7 s8" "mem s8 = mem s7" "total_memory s8 = total_memory s7"
    "free_memory s8 = free_memory s7" "highest_usable_address s8 = highest_usable_address s7"
    by (rule pmm_only_kprint [OF pmm_fits(7) s7(6)])
  have "frame_alloc_init L params s = Some s8"
    by (simp add: frame_alloc_init_unfold [OF kr msg] bs s1(1) s2(1) s3_def [symmetric] s4(1) s5(1)
        s6(1) s7(1) s8(1))
  moreover have "pmm_only L s s8"
    using s1(3) s2(3) o3 s4(3) s5(7) s6(7) s7(7) s8(3) by (blast intro: pmm_only_trans)
  moreover have "pmm_acct L s8" using s7(3) s8 by (simp add: pmm_acct_def)
  moreover have "free_frames L (mem s8) = {..<FRAMES} - reserved L params"
    using s5(2) s6(2) s7(2) s8(4) by (auto simp: reserved_def kr)
  ultimately show thesis using that s5 s6 s7 s8 by simp
qed

subsection \<open>The allocator's contract\<close>

definition bitmap_frames :: "layout \<Rightarrow> nat set" where
  "bitmap_frames L = {i. frame_meets i (pmm_bitmap_start L) 0x20000}"

definition pmm_inv :: "layout \<Rightarrow> 'a pmm_state_scheme \<Rightarrow> bool" where
  "pmm_inv L s \<longleftrightarrow> pmm_acct L s \<and> free_frames L (mem s) \<inter> bitmap_frames L = {}"

definition take_frame :: "layout \<Rightarrow> nat \<Rightarrow> 'a pmm_state_scheme \<Rightarrow> 'a pmm_state_scheme" where
  "take_frame L i s = s\<lparr>mem := memset (set_bit_pmm L i (mem s)) (frame_addr i) 0 PAGE_SIZE,
     free_memory := free_memory s - PAGE_SIZE\<rparr>"

lemma alloc_frame_loop_first:
  assumes "k \<in> free_frames L (mem s)" and "i \<le> k" and "\<And>j. i \<le> j \<Longrightarrow> j < k \<Longrightarrow> test_bit L (mem s) j"
  shows "alloc_frame_loop L i s = Some (frame_addr k, take_frame L k s)"
  using assms(2,3)
proof (induction "k - i" arbitrary: i)
  case 0
  then have "i = k" by simp
  with assms(1) show ?case
    by (subst alloc_frame_loop.simps)
      (simp add: clear_bits_def pmm_consts(5) Let_def frame_addr_def take_frame_def)
next
  case (Suc d)
  then have "i < k" "test_bit L (mem s) i" by auto
  with assms(1) Suc show ?case
    by (subst alloc_frame_loop.simps) (simp add: clear_bits_def pmm_consts(5))
qed

lemma alloc_frame_loop_none:
  assumes "\<And>j. i \<le> j \<Longrightarrow> j < FRAMES \<Longrightarrow> test_bit L (mem s) j" and "tx_drains (uart s)"
  shows "alloc_frame_loop L i s =
    Some (NULL, s\<lparr>uart := kprint_uart ''PMM: ERROR - Out of physical frames!\<newline>'' [] s\<rparr>)"
  using assms(1)
proof (induction "FRAMES - i" arbitrary: i)
  case 0
  then show ?case
    using kprint_fits(1) [OF pmm_fits(8) assms(2)]
    by (subst alloc_frame_loop.simps) (simp add: pmm_consts(5))
next
  case (Suc d)
  then have "i < FRAMES" by simp
  with Suc show ?case by (subst alloc_frame_loop.simps) (simp add: pmm_consts(5))
qed

lemma below_lowest:
  assumes "free_frames L m \<noteq> {}" and "j < Min (free_frames L m)"
  shows "test_bit L m j"
proof -
  have "j \<notin> free_frames L m" using assms(2) Min_le [OF bm.finite_clear] by (meson leD)
  moreover have "Min (free_frames L m) \<in> free_frames L m" using assms(1) by simp
  with assms(2) free_frames_subset [of L m] have "j < FRAMES" by auto
  ultimately show ?thesis by (simp add: clear_bits_def)
qed

lemma alloc_frame_lowest:
  assumes "free_frames L (mem s) \<noteq> {}"
  shows "alloc_frame L s = Some (frame_addr (Min (free_frames L (mem s))),
     take_frame L (Min (free_frames L (mem s))) s)"
  unfolding alloc_frame_def
  by (rule alloc_frame_loop_first) (use assms below_lowest [OF assms] in simp_all)

lemma alloc_frame_full:
  assumes "free_frames L (mem s) = {}" and "tx_drains (uart s)"
  shows "alloc_frame L s =
    Some (NULL, s\<lparr>uart := kprint_uart ''PMM: ERROR - Out of physical frames!\<newline>'' [] s\<rparr>)"
  unfolding alloc_frame_def by (rule alloc_frame_loop_none) (use assms in \<open>auto simp: clear_bits_def\<close>)

lemma frame_apart_bitmap:
  assumes "link_ok L" and "i < FRAMES" and "i \<notin> bitmap_frames L"
  shows "span (frame_addr i) 4096 \<inter> span (pmm_bitmap_start L) 0x20000 = {}"
proof (rule apart_disjoint)
  have "unat (pmm_bitmap_start L) + 0x20000 \<le> 0x40000000 + i * 4096 \<or>
      0x40000000 + Suc i * 4096 \<le> unat (pmm_bitmap_start L)"
    using assms(3) by (auto simp: bitmap_frames_def frame_meets_def)
  then show "apart (frame_addr i) 4096 (pmm_bitmap_start L) 0x20000"
    using unat_frame_addr [of i] assms(2) link_okD(2,3) [OF assms(1)]
    by (auto simp: apart_def unat_sub_if')
qed

lemma take_frame_effect:
  assumes L: "link_ok L" and inv: "pmm_inv L s" and i: "i \<in> free_frames L (mem s)"
  shows "free_frames L (mem (take_frame L i s)) = free_frames L (mem s) - {i}"
    and "pmm_inv L (take_frame L i s)"
    and "x \<in> span (frame_addr i) 4096 \<Longrightarrow> mem (take_frame L i s) x = 0"
    and "x \<notin> span (frame_addr i) 4096 \<Longrightarrow> x \<notin> span (pmm_bitmap_start L) 0x20000 \<Longrightarrow>
      mem (take_frame L i s) x = mem s x"
proof -
  have lt: "i < FRAMES" and nb: "i \<notin> bitmap_frames L" and clear: "\<not> test_bit L (mem s) i"
    using inv i by (auto simp: pmm_inv_def clear_bits_def)
  note disj = frame_apart_bitmap [OF L lt nb]
  have sub: "span (pmm_bitmap_start L) 0x8000 \<subseteq> span (pmm_bitmap_start L) 0x20000"
    by (auto simp: mem_span)
  have "free_frames L (mem (take_frame L i s)) = free_frames L (set_bit_pmm L i (mem s))"
    by (rule free_frames_cong) (use disj sub in \<open>auto simp: take_frame_def memset_eq pmm_consts\<close>)
  then show free: "free_frames L (mem (take_frame L i s)) = free_frames L (mem s) - {i}"
    using lt by (simp add: bm.clear_put)
  have "card (free_frames L (mem s)) = Suc (card (free_frames L (mem (take_frame L i s))))"
    using bm.card_put [OF lt clear] free lt by (simp add: bm.clear_put)
  then show "pmm_inv L (take_frame L i s)"
    using inv free by (auto simp: pmm_inv_def pmm_acct_def take_frame_def pmm_consts)
  show "x \<in> span (frame_addr i) 4096 \<Longrightarrow> mem (take_frame L i s) x = 0"
    by (simp add: take_frame_def memset_eq pmm_consts)
  show "x \<notin> span (frame_addr i) 4096 \<Longrightarrow> x \<notin> span (pmm_bitmap_start L) 0x20000 \<Longrightarrow>
      mem (take_frame L i s) x = mem s x"
    using bitmap_byte_span(2) [OF lt, of L]
    by (auto simp: take_frame_def memset_eq pmm_consts set_bit_pmm_def)
qed


subsection \<open>Release\<close>

definition frame_index :: "u64 \<Rightarrow> nat" where
  "frame_index a = (unat a - 0x40000000) div 4096"

definition allocated_frame :: "layout \<Rightarrow> 'a pmm_state_scheme \<Rightarrow> u64 \<Rightarrow> bool" where
  "allocated_frame L s a \<longleftrightarrow> (\<exists>i < FRAMES. a = frame_addr i \<and> i \<notin> free_frames L (mem s))"

lemma frame_index_addr [simp]: "i < FRAMES \<Longrightarrow> frame_index (frame_addr i) = i"
  by (simp add: frame_index_def unat_frame_addr)

lemma frame_addr_index:
  assumes "0x40000000 \<le> unat a" and "unat a < 0x80000000" and "unat a mod 4096 = 0"
  shows "frame_addr (frame_index a) = a" and "frame_index a < FRAMES"
proof -
  show lt: "frame_index a < FRAMES" using assms by (auto simp: frame_index_def)
  have "unat (frame_addr (frame_index a)) = unat a"
    using unat_frame_addr [of "frame_index a"] lt assms unfolding frame_index_def by (simp add: mod_eq_0_iff_dvd)
  then show "frame_addr (frame_index a) = a" by (rule unsigned_word_eqI)
qed

lemma free_frame_ok:
  assumes "allocated_frame L s a"
  shows "free_frame L a s = Some (s\<lparr>mem := clear_bit L (frame_index a) (mem s),
     free_memory := free_memory s + PAGE_SIZE\<rparr>)"
proof -
  obtain i where i: "i < FRAMES" "a = frame_addr i" "test_bit L (mem s) i"
    using assms by (auto simp: allocated_frame_def clear_bits_def)
  then have u: "unat a = 0x40000000 + i * 4096" by (simp add: unat_frame_addr)
  have "a \<noteq> NULL" using u by auto
  moreover have "\<not> a < PMM_RAM_BASE" "\<not> PMM_MAX_ADDRESS \<le> a"
    using u i by (simp_all add: pmm_consts word_less_nat_alt word_le_nat_alt)
  moreover have "a mod PAGE_SIZE = 0"
    using u by (simp add: pmm_consts word_unat_eq_iff unat_mod)
  moreover have idx: "unat ((a - PMM_RAM_BASE) div PAGE_SIZE) = i"
    using u i by (simp add: pmm_consts unat_div unat_sub_if')
  moreover have "\<not> PMM_TOTAL_FRAMES \<le> (a - PMM_RAM_BASE) div PAGE_SIZE"
    using idx i by (simp add: word_le_nat_alt) (simp add: pmm_consts)
  ultimately show ?thesis using i by (simp add: free_frame_def Let_def)
qed

lemma free_frame_refused:
  assumes "\<not> allocated_frame L s a" and "tx_drains (uart s)"
  shows "\<exists>u. free_frame L a s = Some (s\<lparr>uart := u\<rparr>) \<and> tx_drains u"
proof (cases "a \<noteq> NULL \<and> \<not> (a < PMM_RAM_BASE \<or> a \<ge> PMM_MAX_ADDRESS) \<and> a mod PAGE_SIZE = 0")
  case True
  then have r: "0x40000000 \<le> unat a" "unat a < 0x80000000" "unat a mod 4096 = 0"
    by (auto simp: pmm_consts word_less_nat_alt word_le_nat_alt word_unat_eq_iff unat_mod)
  have idx: "unat ((a - PMM_RAM_BASE) div PAGE_SIZE) = frame_index a"
    using r by (simp add: pmm_consts unat_div unat_sub_if' frame_index_def)
  have "\<not> test_bit L (mem s) (frame_index a)"
  proof
    assume "test_bit L (mem s) (frame_index a)"
    then have "frame_index a < FRAMES \<and> a = frame_addr (frame_index a)
        \<and> frame_index a \<notin> free_frames L (mem s)"
      using frame_addr_index [OF r] by (simp add: clear_bits_def)
    with assms(1) show False unfolding allocated_frame_def by blast
  qed
  moreover have "\<not> PMM_TOTAL_FRAMES \<le> (a - PMM_RAM_BASE) div PAGE_SIZE"
    using idx frame_addr_index(2) [OF r] by (simp add: word_le_nat_alt) (simp add: pmm_consts)
  ultimately have "free_frame L a s =
      kprint ''PMM: Warning - double free detected for frame %p\<newline>'' [VA a] s"
    using True idx by (simp add: free_frame_def)
  with kprint_fits [OF pmm_fits(12) assms(2)] show ?thesis by auto
next
  case False
  then consider "a = NULL" | "a \<noteq> NULL" "a < PMM_RAM_BASE \<or> a \<ge> PMM_MAX_ADDRESS"
    | "a \<noteq> NULL" "\<not> (a < PMM_RAM_BASE \<or> a \<ge> PMM_MAX_ADDRESS)" "a mod PAGE_SIZE \<noteq> 0"
    by metis
  then show ?thesis
  proof cases
    case 1
    then have "free_frame L a s = Some (s\<lparr>uart := uart s\<rparr>)" by (simp add: free_frame_def)
    with assms(2) show ?thesis by blast
  next
    case 2
    then have "free_frame L a s = kprint ''PMM: Attempt to free invalid frame at %p\<newline>'' [VA a] s"
      by (simp add: free_frame_def)
    with kprint_fits [OF pmm_fits(9) assms(2)] show ?thesis by auto
  next
    case 3
    then have "free_frame L a s = kprint ''PMM: Attempt to free unaligned address %p\<newline>'' [VA a] s"
      by (simp add: free_frame_def)
    with kprint_fits [OF pmm_fits(10) assms(2)] show ?thesis by auto
  qed
qed

lemma free_frame_effect:
  assumes "pmm_inv L s" and "allocated_frame L s a" and "frame_index a \<notin> bitmap_frames L"
  defines "s' \<equiv> s\<lparr>mem := clear_bit L (frame_index a) (mem s), free_memory := free_memory s + PAGE_SIZE\<rparr>"
  shows "pmm_inv L s'" and "free_frames L (mem s') = insert (frame_index a) (free_frames L (mem s))"
proof -
  obtain i where i: "i < FRAMES" "a = frame_addr i" "test_bit L (mem s) i"
    using assms(2) by (auto simp: allocated_frame_def clear_bits_def)
  then show free: "free_frames L (mem s') = insert (frame_index a) (free_frames L (mem s))"
    by (simp add: s'_def bm.clear_clr)
  have "card (free_frames L (mem s')) = Suc (card (free_frames L (mem s)))"
    using bm.card_clr [OF i(1,3)] i by (simp add: s'_def)
  then show "pmm_inv L s'"
    using assms(1,3) free by (auto simp: pmm_inv_def pmm_acct_def s'_def pmm_consts)
qed

subsection \<open>Runs of the allocator\<close>

text \<open>
  The steps of the physical memory manager after initialisation: an allocation, or the release
  of a frame outside the kernel image and the bitmap.  The code accepts the release of a frame
  of those two as well; that its callers never ask for it is an assumption on them.
\<close>

inductive pmm_step :: "layout \<Rightarrow> KERNEL_BOOT_PARAMS option \<Rightarrow> 'a pmm_state_scheme \<Rightarrow> 'a pmm_state_scheme \<Rightarrow> bool"
  for L :: layout and params :: "KERNEL_BOOT_PARAMS option" where
  alloc: "alloc_frame L s = Some (a, s') \<Longrightarrow> pmm_step L params s s'"
| free: "frame_index a \<notin> reserved L params \<Longrightarrow> free_frame L a s = Some s' \<Longrightarrow> pmm_step L params s s'"

inductive pmm_reach :: "layout \<Rightarrow> KERNEL_BOOT_PARAMS option \<Rightarrow> 'a pmm_state_scheme \<Rightarrow> bool"
  for L :: layout and params :: "KERNEL_BOOT_PARAMS option" where
  init: "tx_drains (uart s) \<Longrightarrow> frame_alloc_init L params s = Some s' \<Longrightarrow> pmm_reach L params s'"
| step: "pmm_reach L params s \<Longrightarrow> pmm_step L params s s' \<Longrightarrow> pmm_reach L params s'"

definition pmm_safe :: "layout \<Rightarrow> KERNEL_BOOT_PARAMS option \<Rightarrow> 'a pmm_state_scheme \<Rightarrow> bool" where
  "pmm_safe L params s \<longleftrightarrow>
     pmm_inv L s \<and> tx_drains (uart s) \<and> free_frames L (mem s) \<inter> reserved L params = {}"

lemma bitmap_frames_reserved: "bitmap_frames L \<subseteq> reserved L params"
  by (auto simp: bitmap_frames_def reserved_def split: prod.splits)

lemma pmm_safe_alloc:
  assumes "link_ok L" and safe: "pmm_safe L params s" and "alloc_frame L s = Some (a, s')"
  shows "pmm_safe L params s'"
proof (cases "free_frames L (mem s) = {}")
  case True
  with assms alloc_frame_full [OF True] kprint_fits(2) [OF pmm_fits(8), of s] show ?thesis
    by (auto simp: pmm_safe_def pmm_inv_def)
next
  case False
  let ?i = "Min (free_frames L (mem s))"
  have "?i \<in> free_frames L (mem s)" using False by simp
  moreover have "s' = take_frame L ?i s" using assms(3) alloc_frame_lowest [OF False] by simp
  ultimately show ?thesis
    using take_frame_effect(1,2) [OF assms(1), of s ?i] safe by (auto simp: pmm_safe_def take_frame_def)
qed

lemma pmm_safe_free:
  assumes safe: "pmm_safe L params s" and "frame_index a \<notin> reserved L params"
    and "free_frame L a s = Some s'"
  shows "pmm_safe L params s'"
proof (cases "allocated_frame L s a")
  case True
  have inv: "pmm_inv L s" using safe by (simp add: pmm_safe_def)
  have nb: "frame_index a \<notin> bitmap_frames L" using assms(2) bitmap_frames_reserved by blast
  show ?thesis
    using assms free_frame_effect [OF inv True nb] free_frame_ok [OF True] by (auto simp: pmm_safe_def)
next
  case False
  with assms free_frame_refused [OF False] show ?thesis by (auto simp: pmm_safe_def pmm_inv_def)
qed

lemma pmm_reach_safe:
  assumes "link_ok L" and "kernel_range L params = (base_addr, sz)" and "in_ram base_addr sz"
    and "pmm_reach L params s"
  shows "pmm_safe L params s"
  using assms(4)
proof (induction rule: pmm_reach.induct)
  case (init s s')
  obtain t where "frame_alloc_init L params s = Some t" "free_frames L (mem t) = {..<FRAMES} - reserved L params"
    "pmm_acct L t" "tx_drains (uart t)"
    by (rule frame_alloc_init_effect [OF assms(1) init(1) assms(2,3)])
  with init bitmap_frames_reserved [of L params] show ?case by (auto simp: pmm_safe_def pmm_inv_def)
next
  case (step s s')
  from step(2) step(3) show ?case
    by cases (auto intro: pmm_safe_alloc [OF assms(1)] pmm_safe_free)
qed

lemma kernel_range_elf: "kernel_range elf_layout None = (0x40100000, 0x38000)"
  by (simp add: kernel_range_def elf_layout_def)

lemma in_ram_elf: "in_ram 0x40100000 0x38000"
  by (simp add: in_ram_def)

definition pmm_boot :: pmm_state where
  "pmm_boot = \<lparr>mem = (\<lambda>_. 0), uart = idle_uart, strtok_last = 0, total_memory = 0,
     free_memory = 0, highest_usable_address = 0\<rparr>"

lemma tx_drains_pmm_boot: "tx_drains (uart pmm_boot)"
  by (simp add: pmm_boot_def)

lemma reserved_elf: "reserved elf_layout None = {256..<312}"
  unfolding reserved_def kernel_range_elf by (auto simp: frame_meets_def elf_layout_def)

subsection \<open>Frames as an allocator\<close>

definition frame_ok :: "layout \<Rightarrow> 'a pmm_state_scheme \<Rightarrow> bool" where
  "frame_ok L s \<longleftrightarrow> link_ok L \<and> pmm_inv L s \<and> tx_drains (uart s)"

text \<open>
  The frames a client may hold: those in use, without the frames of the bitmap itself, which
  belong to the allocator.
\<close>

definition frames_used :: "layout \<Rightarrow> 'a pmm_state_scheme \<Rightarrow> nat set" where
  "frames_used L s = {..<FRAMES} - free_frames L (mem s) - bitmap_frames L"

definition live_frames :: "layout \<Rightarrow> 'a pmm_state_scheme \<Rightarrow> (u64 \<times> nat) set" where
  "live_frames L s = (\<lambda>i. (frame_addr i, 4096)) ` frames_used L s"

definition poke_mem :: "u64 \<Rightarrow> u8 \<Rightarrow> 'a machine_scheme \<Rightarrow> 'a machine_scheme" where
  "poke_mem x v s = s\<lparr>mem := (mem s)(x := v)\<rparr>"

lemma frame_addr_inj: "i < FRAMES \<Longrightarrow> j < FRAMES \<Longrightarrow> frame_addr i = frame_addr j \<longleftrightarrow> i = j"
  by (metis frame_index_addr)

lemma frame_disjoint:
  assumes "i < FRAMES" and "j < FRAMES" and "i \<noteq> j"
  shows "span (frame_addr i) 4096 \<inter> span (frame_addr j) 4096 = {}"
  using assms unat_frame_addr [of i] unat_frame_addr [of j] by (auto simp: span_nat)

lemma live_framesD:
  "(p, n) \<in> live_frames L s \<longleftrightarrow> n = 4096 \<and> (\<exists>i \<in> frames_used L s. p = frame_addr i)"
  by (auto simp: live_frames_def)

lemma alloc_frame_cases:
  assumes "frame_ok L s" and "alloc_frame L s = Some (p, s')"
  obtains (full) u where "p = NULL" and "s' = s\<lparr>uart := u\<rparr>" and "tx_drains u"
  | (taken) i where "i \<in> free_frames L (mem s)" and "p = frame_addr i" and "s' = take_frame L i s"
proof (cases "free_frames L (mem s) = {}")
  case True
  have tx: "tx_drains (uart s)" using assms(1) by (simp add: frame_ok_def)
  show thesis using alloc_frame_full [OF True tx] assms(2) kprint_fits(2) [OF pmm_fits(8) tx] full by simp
next
  case False
  with alloc_frame_lowest [OF False] assms(2) taken [of "Min (free_frames L (mem s))"] show thesis by simp
qed

lemma frame_ok_take: "frame_ok L s \<Longrightarrow> i \<in> free_frames L (mem s) \<Longrightarrow> frame_ok L (take_frame L i s)"
  using take_frame_effect(2) [of L s i] by (simp add: frame_ok_def take_frame_def)

lemma frames_used_take:
  assumes "frame_ok L s" and "i \<in> free_frames L (mem s)"
  shows "frames_used L (take_frame L i s) = insert i (frames_used L s)" and "i \<notin> frames_used L s"
  using assms take_frame_effect(1) [of L s i] free_frames_subset [of L "mem s"]
  by (auto simp: frames_used_def frame_ok_def pmm_inv_def)

lemma frame_release:
  assumes ok: "frame_ok L s" and p: "(p, n) \<in> live_frames L s"
  shows "\<exists>s'. free_frame L p s = Some s' \<and> frame_ok L s' \<and> live_frames L s' = live_frames L s - {(p, n)} \<and>
     (\<forall>(q, k) \<in> live_frames L s'. \<forall>x \<in> span q k. mem s' x = mem s x)"
proof -
  obtain i where i: "i \<in> frames_used L s" "p = frame_addr i" "n = 4096" using p by (auto simp: live_framesD)
  then have lt: "i < FRAMES" "i \<notin> free_frames L (mem s)" "i \<notin> bitmap_frames L" by (auto simp: frames_used_def)
  have al: "allocated_frame L s p" unfolding allocated_frame_def using lt i(2) by blast
  have idx: "frame_index p = i" using lt i(2) by simp
  have inv: "pmm_inv L s" "link_ok L" using ok by (simp_all add: frame_ok_def)
  let ?s = "s\<lparr>mem := clear_bit L i (mem s), free_memory := free_memory s + PAGE_SIZE\<rparr>"
  have f: "free_frame L p s = Some ?s" using free_frame_ok [OF al] idx by simp
  have nb: "frame_index p \<notin> bitmap_frames L" using idx lt by simp
  have "pmm_inv L ?s" using free_frame_effect [OF inv(1) al nb] f by (auto simp: pmm_inv_def pmm_acct_def idx)
  then have "frame_ok L ?s" using ok by (simp add: frame_ok_def)
  moreover have "frames_used L ?s = frames_used L s - {i}"
    using lt by (auto simp: frames_used_def bm.clear_clr)
  then have "live_frames L ?s = live_frames L s - {(p, n)}"
    using i lt frame_addr_inj by (auto simp: live_frames_def frames_used_def)
  moreover have "mem ?s x = mem s x" if q: "(q, k) \<in> live_frames L ?s" "x \<in> span q k" for q k x
  proof -
    obtain j where "j < FRAMES" "j \<notin> bitmap_frames L" "x \<in> span (frame_addr j) 4096"
      using q by (auto simp: live_framesD frames_used_def)
    then have "x \<noteq> bitmap_byte L i" using frame_apart_bitmap [OF inv(2), of j] bitmap_byte_span(2) [OF lt(1), of L] by auto
    then show ?thesis by (simp add: clear_bit_def)
  qed
  ultimately show ?thesis using f by (intro exI [of _ ?s]) auto
qed

lemma frame_poke:
  assumes ok: "frame_ok L s" and p: "(p, n) \<in> live_frames L s" "x \<in> span p n"
  shows "frame_ok L (poke_mem x v s) \<and> live_frames L (poke_mem x v s) = live_frames L s"
proof -
  obtain i where i: "i < FRAMES" "i \<notin> bitmap_frames L" "x \<in> span (frame_addr i) 4096"
    using p by (auto simp: live_framesD frames_used_def)
  then have "x \<notin> span (pmm_bitmap_start L) 0x20000"
    using frame_apart_bitmap [of L i] ok by (auto simp: frame_ok_def)
  then have "x \<notin> span (pmm_bitmap_start L) 0x8000" by (auto simp: mem_span)
  then have "free_frames L ((mem s)(x := v)) = free_frames L (mem s)" by (intro free_frames_cong) auto
  then show ?thesis using ok by (simp add: frame_ok_def poke_mem_def pmm_inv_def pmm_acct_def live_frames_def frames_used_def)
qed

lemma frame_alloc_live:
  assumes ok: "frame_ok L s" and al: "alloc_frame L s = Some (p, s')"
  shows "frame_ok L s' \<and> (p = NULL \<longrightarrow> live_frames L s' = live_frames L s) \<and>
     (p \<noteq> NULL \<longrightarrow> p \<notin> fst ` live_frames L s \<and> live_frames L s' = insert (p, 4096) (live_frames L s) \<and>
      (\<forall>x \<in> span p 4096. mem s' x = 0)) \<and>
     (\<forall>(q, k) \<in> live_frames L s. \<forall>x \<in> span q k. mem s' x = mem s x)"
proof (rule alloc_frame_cases [OF ok al])
  fix u assume "p = NULL" "s' = s\<lparr>uart := u\<rparr>" "tx_drains u"
  then show ?thesis using ok by (auto simp: frame_ok_def live_frames_def frames_used_def pmm_inv_def)
next
  fix i assume i: "i \<in> free_frames L (mem s)" "p = frame_addr i" "s' = take_frame L i s"
  have inv: "link_ok L" "pmm_inv L s" using ok by (simp_all add: frame_ok_def)
  note eff = take_frame_effect [OF inv i(1)] and used = frames_used_take [OF ok i(1)]
  have lt: "i < FRAMES" using i(1) free_frames_subset by blast
  have nz: "p \<noteq> NULL" using unat_frame_addr [of i] lt i(2) by auto
  have "mem s' x = mem s x" if "j \<in> frames_used L s" "x \<in> span (frame_addr j) 4096" for j x
  proof -
    have j: "j < FRAMES" "j \<notin> bitmap_frames L" "j \<noteq> i" using that(1) used(2) by (auto simp: frames_used_def)
    show ?thesis
      using frame_disjoint [OF lt j(1)] frame_apart_bitmap [OF inv(1) j(1,2)] that(2) j(3)
      unfolding i(3) by (intro eff(4)) auto
  qed
  moreover have "p \<notin> fst ` live_frames L s"
    using used(2) frame_addr_inj lt by (auto simp: live_frames_def i(2) frames_used_def)
  moreover have "live_frames L s' = insert (p, 4096) (live_frames L s)"
    by (simp add: live_frames_def i(2,3) used(1))
  ultimately show ?thesis using nz eff(3) frame_ok_take [OF ok i(1)] i(2,3) by (auto simp: live_framesD)
qed

interpretation frames: allocator "frame_ok L" "live_frames L" mem poke_mem "\<lambda>z s. unat z \<le> 4096" unat
    "\<lambda>z. alloc_frame L" "free_frame L" for L
proof
  fix s :: "'a pmm_state_scheme"
  assume ok: "frame_ok L s"
  show "\<exists>p s'. alloc_frame L s = Some (p, s')"
    using alloc_frame_lowest [of L s] alloc_frame_full [of L s] ok by (auto simp: frame_ok_def)
  fix p n q k
  assume p: "(p, n) \<in> live_frames L s"
  then show "\<exists>s'. free_frame L p s = Some s' \<and> frame_ok L s' \<and> live_frames L s' = live_frames L s - {(p, n)} \<and>
      (\<forall>(q, k) \<in> live_frames L s'. \<forall>x \<in> span q k. mem s' x = mem s x)"
    by (rule frame_release [OF ok])
  show "(p, k) \<in> live_frames L s \<Longrightarrow> n = k" using p by (simp add: live_framesD)
  show "(q, k) \<in> live_frames L s \<Longrightarrow> p \<noteq> q \<Longrightarrow> span p n \<inter> span q k = {}"
    using p frame_disjoint by (auto simp: live_framesD frames_used_def)
  show "x \<in> span p n \<Longrightarrow> frame_ok L (poke_mem x v s) \<and> live_frames L (poke_mem x v s) = live_frames L s \<and>
      mem (poke_mem x v s) = (mem s)(x := v)" for x v
    using frame_poke [OF ok p] by (simp add: poke_mem_def)
next
  fix s s' :: "'a pmm_state_scheme" and z p
  assume ok: "frame_ok L s" and al: "alloc_frame L s = Some (p, s')" and z: "unat (z :: u64) \<le> 4096"
  note a = frame_alloc_live [OF ok al]
  show "frame_ok L s'" using a by blast
  show "x \<in> span q k \<Longrightarrow> mem s' x = mem s x" if "(q, k) \<in> live_frames L s" for q k x
    using a that by blast
  show "\<exists>n \<ge> unat z. p \<notin> fst ` live_frames L s \<and> live_frames L s' = insert (p, n) (live_frames L s) \<and>
      (\<forall>x \<in> span p n. mem s' x = 0)" if "p \<noteq> NULL"
    using a that z by (intro exI [of _ 4096]) blast
next
  fix s s' :: "'a pmm_state_scheme"
  assume "frame_ok L s" "alloc_frame L s = Some (NULL, s')"
  from frame_alloc_live [OF this] show "live_frames L s' = live_frames L s" by blast
qed

subsection \<open>Properties\<close>

text \<open>
  (C11) Initialisation, with or without boot parameters, returns with every frame of the
  gigabyte free except those that meet the kernel range or the bitmap, with both counters
  equal to 4096 times the number of free frames, with the highest usable address at the end
  of the gigabyte, and without writing memory outside the bitmap.
\<close>

theorem frame_alloc_init_spec:
  assumes "link_ok L" and "tx_drains (uart s)" and "kernel_range L params = (base_addr, sz)"
    and "in_ram base_addr sz"
  shows "\<exists>s'. frame_alloc_init L params s = Some s' \<and>
     (\<forall>i < 0x40000. test_bit L (mem s') i \<longleftrightarrow>
        frame_meets i base_addr sz \<or> frame_meets i (pmm_bitmap_start L) 0x20000) \<and>
     unat (free_memory s') = 4096 * card {i. i < 0x40000 \<and> \<not> test_bit L (mem s') i} \<and>
     total_memory s' = free_memory s' \<and> highest_usable_address s' = 0x80000000 \<and>
     (\<forall>x. x \<notin> span (pmm_bitmap_start L) 0x20000 \<longrightarrow> mem s' x = mem s x)"
proof -
  obtain s' where s': "frame_alloc_init L params s = Some s'"
    "free_frames L (mem s') = {..<FRAMES} - reserved L params" "pmm_acct L s'"
    "total_memory s' = free_memory s'" "highest_usable_address s' = PMM_MAX_ADDRESS" "pmm_only L s s'"
    by (rule frame_alloc_init_effect [OF assms])
  have "test_bit L (mem s') i \<longleftrightarrow>
        frame_meets i base_addr sz \<or> frame_meets i (pmm_bitmap_start L) 0x20000" if "i < FRAMES" for i
    using s'(2) that assms(3) by (auto simp: clear_bits_def reserved_def)
  moreover have "unat (free_memory s') = 4096 * card {i. i < FRAMES \<and> \<not> test_bit L (mem s') i}"
    using unat_free_memory [OF s'(3)] by (simp add: clear_bits_def)
  moreover have "\<forall>x. x \<notin> span (pmm_bitmap_start L) 0x20000 \<longrightarrow> mem s' x = mem s x"
    using s'(6) by (simp add: pmm_only_def)
  ultimately show ?thesis using s' by (simp add: pmm_consts)
qed

theorem frame_alloc_init_spec_witness:
  "\<exists>s'. frame_alloc_init elf_layout None pmm_boot = Some s' \<and> highest_usable_address s' = 0x80000000 \<and>
     test_bit elf_layout (mem s') 256 \<and> \<not> test_bit elf_layout (mem s') 312"
  using frame_alloc_init_spec [OF link_ok_elf tx_drains_pmm_boot kernel_range_elf in_ram_elf]
  by (fastforce simp: frame_meets_def elf_layout_def)

text \<open>
  (C12) Allocation returns the lowest free frame, zeroed, and takes it off the free set; it
  writes nothing outside that frame and the bitmap, and the zeroed frame is disjoint from the
  bitmap.  With no free frame it returns \<open>NULL\<close> and changes nothing but the console.
\<close>

theorem alloc_frame_spec:
  assumes "link_ok L" and "pmm_inv L s" and "tx_drains (uart s)"
  shows "if free_frames L (mem s) = {} then \<exists>u. alloc_frame L s = Some (NULL, s\<lparr>uart := u\<rparr>)
     else \<exists>i s'. alloc_frame L s = Some (PMM_RAM_BASE + of_nat i * PAGE_SIZE, s') \<and>
       i < 0x40000 \<and> \<not> test_bit L (mem s) i \<and> (\<forall>j<i. test_bit L (mem s) j) \<and>
       free_frames L (mem s') = free_frames L (mem s) - {i} \<and> pmm_inv L s' \<and>
       span (frame_addr i) 4096 \<inter> span (pmm_bitmap_start L) 0x20000 = {} \<and>
       (\<forall>x \<in> span (frame_addr i) 4096. mem s' x = 0) \<and>
       (\<forall>x. x \<notin> span (frame_addr i) 4096 \<and> x \<notin> span (pmm_bitmap_start L) 0x20000 \<longrightarrow>
          mem s' x = mem s x)"
proof (cases "free_frames L (mem s) = {}")
  case True
  with alloc_frame_full [OF True assms(3)] show ?thesis by auto
next
  case False
  define i where "i = Min (free_frames L (mem s))"
  have i: "i \<in> free_frames L (mem s)" using False by (simp add: i_def)
  then have lt: "i < FRAMES" "\<not> test_bit L (mem s) i" by (auto simp: clear_bits_def)
  have low: "\<forall>j<i. test_bit L (mem s) j" using below_lowest [OF False] by (simp only: i_def) blast
  have "span (frame_addr i) 4096 \<inter> span (pmm_bitmap_start L) 0x20000 = {}"
    using assms(2) i lt by (intro frame_apart_bitmap [OF assms(1)]) (auto simp: pmm_inv_def)
  moreover have "alloc_frame L s = Some (PMM_RAM_BASE + of_nat i * PAGE_SIZE, take_frame L i s)"
    using alloc_frame_lowest [OF False] by (simp add: i_def frame_addr_def)
  ultimately show ?thesis
    using False lt low take_frame_effect [OF assms(1,2) i]
    by (simp only: if_False) (intro exI [of _ i] exI [of _ "take_frame L i s"] conjI; blast)
qed

lemma boot_any:
  assumes "tx_drains (uart s0)"
  obtains s where "frame_alloc_init elf_layout None s0 = Some s" and "pmm_inv elf_layout s"
    and "tx_drains (uart s)" and "free_frames elf_layout (mem s) = {..<256} \<union> {312..<FRAMES}"
    and "pmm_only elf_layout s0 s"
proof -
  obtain s where s: "frame_alloc_init elf_layout None s0 = Some s"
    "free_frames elf_layout (mem s) = {..<FRAMES} - reserved elf_layout None" "pmm_acct elf_layout s"
    "tx_drains (uart s)" "pmm_only elf_layout s0 s"
    by (rule frame_alloc_init_effect [OF link_ok_elf assms kernel_range_elf in_ram_elf])
  then have "free_frames elf_layout (mem s) = {..<256} \<union> {312..<FRAMES}"
    by (simp only: reserved_elf) (rule set_eqI, simp, arith)
  moreover have "pmm_inv elf_layout s"
    using s(2,3) bitmap_frames_reserved [of elf_layout None] by (auto simp: pmm_inv_def)
  ultimately show thesis using that s by blast
qed

lemmas boot_pmm = boot_any [OF tx_drains_pmm_boot]

theorem alloc_frame_spec_witness:
  "\<exists>s s'. frame_alloc_init elf_layout None pmm_boot = Some s \<and>
     alloc_frame elf_layout s = Some (0x40000000, s') \<and> (\<forall>x \<in> span 0x40000000 4096. mem s' x = 0)"
proof -
  obtain s where s: "frame_alloc_init elf_layout None pmm_boot = Some s" "pmm_inv elf_layout s"
    "tx_drains (uart s)" "free_frames elf_layout (mem s) = {..<256} \<union> {312..<FRAMES}"
    by (rule boot_pmm)
  then obtain i s' where i: "alloc_frame elf_layout s = Some (PMM_RAM_BASE + of_nat i * PAGE_SIZE, s')"
    "\<forall>j<i. test_bit elf_layout (mem s) j" "\<forall>x \<in> span (frame_addr i) 4096. mem s' x = 0"
    using alloc_frame_spec [OF link_ok_elf s(2,3)] by auto
  have "0 \<in> free_frames elf_layout (mem s)" using s(4) by simp
  with i(2) have "i = 0" by (auto simp: clear_bits_def)
  with i s(1) show ?thesis by (auto simp: frame_addr_def pmm_consts)
qed

text \<open>
  (C13) Release: an address that is the start of a frame in use becomes free again, and only
  the bitmap and the counter change; any other address (\<open>NULL\<close>, outside RAM, unaligned,
  already free) is refused with nothing changed but the console.  The frame accounting stays
  exact in both cases when the frame is not one of the bitmap's own.
\<close>

theorem free_frame_spec:
  assumes "pmm_inv L s" and "tx_drains (uart s)" and "frame_index a \<notin> bitmap_frames L"
  shows "\<exists>s'. free_frame L a s = Some s' \<and> pmm_inv L s' \<and>
     (if allocated_frame L s a
      then free_frames L (mem s') = insert (frame_index a) (free_frames L (mem s)) \<and>
        uart s' = uart s \<and> free_memory s' = free_memory s + 4096
      else \<exists>u. s' = s\<lparr>uart := u\<rparr>)"
proof (cases "allocated_frame L s a")
  case True
  with free_frame_ok [OF True] free_frame_effect [OF assms(1) True assms(3)] show ?thesis
    by (simp add: pmm_consts)
next
  case False
  with free_frame_refused [OF False assms(2)] assms(1) show ?thesis by (auto simp: pmm_inv_def)
qed

theorem free_frame_spec_witness:
  "\<exists>s s'. frame_alloc_init elf_layout None pmm_boot = Some s \<and>
     free_frame elf_layout 0x40000000 s = Some s' \<and> (\<exists>u. s' = s\<lparr>uart := u\<rparr>)"
proof -
  obtain s where s: "frame_alloc_init elf_layout None pmm_boot = Some s" "pmm_inv elf_layout s"
    "tx_drains (uart s)" "free_frames elf_layout (mem s) = {..<256} \<union> {312..<FRAMES}"
    by (rule boot_pmm)
  have a: "(0x40000000 :: u64) = frame_addr 0" by (simp add: frame_addr_def pmm_consts)
  have "frame_index 0x40000000 \<notin> bitmap_frames elf_layout"
    by (simp add: frame_index_def bitmap_frames_def frame_meets_def elf_layout_def)
  moreover have "\<not> allocated_frame elf_layout s 0x40000000"
    using s(4) frame_index_addr unfolding allocated_frame_def a
    by (metis UnI1 lessThan_iff zero_less_numeral)
  ultimately show ?thesis
    using free_frame_spec [OF s(2,3), where a = "0x40000000"] s(1) by auto
qed

text \<open>
  (C24) Allocating a frame and releasing it at once restores the set of free frames and the
  free memory counter.
\<close>

theorem alloc_free_roundtrip:
  assumes "link_ok L" and "pmm_inv L s" and "free_frames L (mem s) \<noteq> {}"
    and "alloc_frame L s = Some (a, s')"
  shows "\<exists>s''. free_frame L a s' = Some s'' \<and> free_frames L (mem s'') = free_frames L (mem s) \<and>
     free_memory s'' = free_memory s"
proof -
  define i where "i = Min (free_frames L (mem s))"
  have i: "i \<in> free_frames L (mem s)" using assms(3) by (simp add: i_def)
  then have lt: "i < FRAMES" by (simp add: clear_bits_def)
  have a: "a = frame_addr i" "s' = take_frame L i s"
    using alloc_frame_lowest [OF assms(3)] assms(4) by (simp_all add: i_def)
  note eff = take_frame_effect(1,2) [OF assms(1,2) i]
  have al: "allocated_frame L s' a" using a lt eff(1) by (auto simp: allocated_frame_def)
  have "frame_index a \<notin> bitmap_frames L" using a lt i assms(2) by (auto simp: pmm_inv_def)
  then have "free_frames L (clear_bit L i (mem s')) = free_frames L (mem s)"
    using free_frame_effect(2) [OF _ al] eff a lt i by auto
  with free_frame_ok [OF al] a lt show ?thesis by (simp add: take_frame_def)
qed

theorem alloc_free_roundtrip_witness:
  "\<exists>(s :: pmm_state) a s' s''. alloc_frame elf_layout s = Some (a, s') \<and> free_frame elf_layout a s' = Some s'' \<and>
     free_frames elf_layout (mem s'') = free_frames elf_layout (mem s)"
proof -
  obtain s :: pmm_state where s: "pmm_inv elf_layout s" "free_frames elf_layout (mem s) = {..<256} \<union> {312..<FRAMES}"
    using boot_pmm by metis
  then have ne: "free_frames elf_layout (mem s) \<noteq> {}" by auto
  from alloc_free_roundtrip [OF link_ok_elf s(1) ne alloc_frame_lowest [OF ne]] alloc_frame_lowest [OF ne]
  show ?thesis by blast
qed

text \<open>
  (C6) In every state reached from initialisation by allocations and by releases of frames
  outside the kernel image and the bitmap, the free memory counter is 4096 times the number of
  clear bits, and no frame that meets the kernel image or the bitmap is free, so none is ever
  handed out.  That no caller releases a frame of the kernel image or of the bitmap is an
  obligation of the callers: \<open>free_frame\<close> does not refuse them.
\<close>

theorem pmm_reachable_safe:
  assumes "link_ok L" and "kernel_range L params = (base_addr, sz)" and "in_ram base_addr sz"
    and "pmm_reach L params s"
  shows "unat (free_memory s) = 4096 * card {i. i < 0x40000 \<and> \<not> test_bit L (mem s) i} \<and>
     (\<forall>i < 0x40000. frame_meets i base_addr sz \<or> frame_meets i (pmm_bitmap_start L) 0x20000 \<longrightarrow>
        test_bit L (mem s) i) \<and>
     (\<forall>a s'. alloc_frame L s = Some (a, s') \<and> a \<noteq> NULL \<longrightarrow> \<not> frame_meets (frame_index a) base_addr sz \<and>
        \<not> frame_meets (frame_index a) (pmm_bitmap_start L) 0x20000)"
proof -
  have safe: "pmm_safe L params s" by (rule pmm_reach_safe [OF assms])
  then have res: "free_frames L (mem s) \<inter> reserved L params = {}" by (simp add: pmm_safe_def)
  then have "\<forall>i < FRAMES. frame_meets i base_addr sz \<or> frame_meets i (pmm_bitmap_start L) 0x20000 \<longrightarrow>
        test_bit L (mem s) i"
    using assms(2) by (auto simp: clear_bits_def reserved_def)
  moreover have "unat (free_memory s) = 4096 * card {i. i < FRAMES \<and> \<not> test_bit L (mem s) i}"
    using safe unat_free_memory [of L s] by (simp add: pmm_safe_def pmm_inv_def clear_bits_def)
  moreover have "\<not> frame_meets (frame_index a) base_addr sz \<and> \<not> frame_meets (frame_index a) (pmm_bitmap_start L) 0x20000"
    if a: "alloc_frame L s = Some (a, s')" "a \<noteq> NULL" for a s'
  proof (cases "free_frames L (mem s) = {}")
    case True
    with a alloc_frame_full [OF True] safe show ?thesis by (simp add: pmm_safe_def)
  next
    case False
    then have i: "Min (free_frames L (mem s)) \<in> free_frames L (mem s)" by simp
    then have "frame_index a = Min (free_frames L (mem s))"
      using a alloc_frame_lowest [OF False] free_frames_subset [of L "mem s"] by auto
    with i res assms(2) show ?thesis by (auto simp: reserved_def)
  qed
  ultimately show ?thesis by blast
qed

theorem pmm_reachable_safe_witness:
  "\<exists>s :: pmm_state. pmm_reach elf_layout None s \<and>
     unat (free_memory s) = 4096 * card {i. i < 0x40000 \<and> \<not> test_bit elf_layout (mem s) i}"
proof -
  obtain s where s: "frame_alloc_init elf_layout None pmm_boot = Some s" by (rule boot_pmm)
  then have "pmm_reach elf_layout None s" by (rule pmm_reach.init [OF tx_drains_pmm_boot])
  with pmm_reachable_safe [OF link_ok_elf kernel_range_elf in_ram_elf this] show ?thesis by auto
qed

lemma bitmap_page_cleared:
  assumes "\<forall>x \<in> span (pmm_bitmap_start L) 4096. m x = 0" and "i < 0x8000"
  shows "\<not> test_bit L m i"
proof -
  have "unat (of_nat (i div 8) :: u64) = i div 8" and "i div 8 < 4096" using assms(2) by (auto intro!: unat_of_nat64)
  then have "bitmap_byte L i \<in> span (pmm_bitmap_start L) 4096" by (simp add: bitmap_byte_def mem_span)
  with assms(1) show ?thesis by (simp add: test_bit_iff)
qed

lemma pmm_reach_below:
  assumes "tx_drains (uart (s0 :: 'a pmm_state_scheme))"
  shows "n \<le> 256 \<Longrightarrow> \<exists>s :: 'a pmm_state_scheme. pmm_reach elf_layout None s \<and> pmm_inv elf_layout s \<and> tx_drains (uart s) \<and>
     free_frames elf_layout (mem s) = {n..<256} \<union> {312..<FRAMES}"
proof (induction n)
  case 0
  obtain s where s: "frame_alloc_init elf_layout None s0 = Some s" "pmm_inv elf_layout s" "tx_drains (uart s)"
    "free_frames elf_layout (mem s) = {..<256} \<union> {312..<FRAMES}"
    by (rule boot_any [OF assms])
  then show ?case using pmm_reach.init [OF assms s(1)] by (auto simp: lessThan_atLeast0)
next
  case (Suc n)
  then obtain s :: "'a pmm_state_scheme" where s: "pmm_reach elf_layout None s" "pmm_inv elf_layout s" "tx_drains (uart s)"
    "free_frames elf_layout (mem s) = {n..<256} \<union> {312..<FRAMES}" using Suc_leD by blast
  have n: "n \<in> free_frames elf_layout (mem s)" using s(4) Suc.prems by simp
  have "Min (free_frames elf_layout (mem s)) = n" unfolding s(4) using Suc.prems by (intro Min_eqI) auto
  then have "alloc_frame elf_layout s = Some (frame_addr n, take_frame elf_layout n s)"
    using alloc_frame_lowest [of elf_layout s] n by auto
  note reach = pmm_reach.step [OF s(1) pmm_step.alloc [OF this]] and eff = take_frame_effect(1,2) [OF link_ok_elf s(2) n]
  have "{n..<256} \<union> {312..<FRAMES} - {n} = {Suc n..<256} \<union> {312..<FRAMES}" using Suc.prems by (auto simp: le_Suc_eq)
  moreover have "tx_drains (uart (take_frame elf_layout n s))" using s(3) by (simp add: take_frame_def)
  ultimately show ?case using reach eff s(4) by (intro exI [of _ "take_frame elf_layout n s"]) simp
qed

text \<open>
  (C34) What the runs above leave out: \<open>free_frame\<close> accepts the frames of the bitmap too.  When all
  frames up to the first one of the bitmap are in use, releasing that frame succeeds, the next
  allocation hands it out and clears it, so that the first 32768 frames all count as free,
  the one just handed out and those in use among them, and the allocation after that hands
  out frame 0, which was in use, a second time.
\<close>

theorem free_frame_bitmap_unsafe:
  fixes s :: "'a pmm_state_scheme"
  assumes "link_ok L" and "\<forall>i \<le> frame_index (pmm_bitmap_start L). test_bit L (mem s) i"
  shows "\<exists>s1 s2 s3. free_frame L (pmm_bitmap_start L) s = Some s1 \<and>
     alloc_frame L s1 = Some (pmm_bitmap_start L, s2) \<and> (\<forall>i < 0x8000. \<not> test_bit L (mem s2) i) \<and>
     alloc_frame L s2 = Some (0x40000000, s3)"
proof -
  note D = link_okD [OF assms(1)]
  let ?b = "frame_index (pmm_bitmap_start L)"
  let ?s = "s\<lparr>mem := clear_bit L ?b (mem s), free_memory := free_memory s + PAGE_SIZE\<rparr>"
  have r: "0x40000000 \<le> unat (pmm_bitmap_start L)" "unat (pmm_bitmap_start L) < 0x80000000" using D(2,3) by simp_all
  note b = frame_addr_index [OF r D(4)]
  have "allocated_frame L s (pmm_bitmap_start L)"
    unfolding allocated_frame_def using b assms(2) by (intro exI [of _ ?b]) (simp add: clear_bits_def)
  then have f: "free_frame L (pmm_bitmap_start L) s = Some ?s" by (rule free_frame_ok)
  have fr: "free_frames L (mem ?s) = insert ?b (free_frames L (mem s))" using b(2) by (simp add: bm.clear_clr)
  then have "Min (free_frames L (mem ?s)) = ?b"
    using assms(2) by (intro Min_eqI) (auto simp: clear_bits_def intro: ccontr)
  then have a: "alloc_frame L ?s = Some (pmm_bitmap_start L, take_frame L ?b ?s)"
    using alloc_frame_lowest [of L ?s] fr b(1) by auto
  have "\<forall>x \<in> span (pmm_bitmap_start L) 4096. mem (take_frame L ?b ?s) x = 0"
    using b(1) by (simp add: take_frame_def memset_eq pmm_consts)
  then have z: "\<forall>i < 0x8000. \<not> test_bit L (mem (take_frame L ?b ?s)) i" using bitmap_page_cleared by blast
  then have "0 \<in> free_frames L (mem (take_frame L ?b ?s))" by (simp add: clear_bits_def)
  then have "\<exists>s3. alloc_frame L (take_frame L ?b ?s) = Some (frame_addr 0, s3)"
    using alloc_frame_lowest [of L "take_frame L ?b ?s"] Min_eqI [of "free_frames L (mem (take_frame L ?b ?s))" 0] by auto
  with f a z show ?thesis by (auto simp: frame_addr_def pmm_consts)
qed

theorem free_frame_bitmap_unsafe_witness:
  "\<exists>(s :: pmm_state) s1 s2 s3. pmm_reach elf_layout None s \<and> test_bit elf_layout (mem s) 0 \<and>
     free_frame elf_layout 0x40118000 s = Some s1 \<and> alloc_frame elf_layout s1 = Some (0x40118000, s2) \<and>
     alloc_frame elf_layout s2 = Some (0x40000000, s3)"
proof -
  obtain s :: pmm_state where s: "pmm_reach elf_layout None s" "free_frames elf_layout (mem s) = {256..<256} \<union> {312..<FRAMES}"
    using pmm_reach_below [OF tx_drains_pmm_boot, of 256] by auto
  have "test_bit elf_layout (mem s) i" if "i \<le> 280" for i
  proof -
    have "i \<notin> free_frames elf_layout (mem s)" unfolding s(2) using that by simp
    with that show ?thesis by (simp add: clear_bits_def)
  qed
  moreover have "pmm_bitmap_start elf_layout = 0x40118000" "frame_index 0x40118000 = 280"
    by (simp_all add: elf_layout_def frame_index_def)
  ultimately show ?thesis using free_frame_bitmap_unsafe [OF link_ok_elf, of s] s(1) by auto
qed

text \<open>
  (C25) Isolation of frames: while a frame in use, not one of the bitmap's own, stays in use,
  no sequence of further allocations, of releases of other such frames and of stores into
  other such frames changes a byte of it, and the accounting stays exact throughout.  Releases of
  the bitmap's own frames and stores into them are excluded: \<open>free_frame\<close> accepts them, and they
  destroy the bitmap.
\<close>

theorem frame_isolation:
  assumes "(uses (\<lambda>z. alloc_frame L) (free_frame L) poke_mem (\<lambda>z s. unat z \<le> 4096) (live_frames L) p)\<^sup>*\<^sup>* s s'"
    and "frame_ok L s" and "(p, n) \<in> live_frames L s"
  shows "frame_ok L s' \<and> (p, n) \<in> live_frames L s' \<and> (\<forall>x \<in> span p n. mem s' x = mem s x)"
  by (rule frames.isolation [OF assms])

theorem frame_isolation_witness:
  "\<exists>s0 s p s'. frame_alloc_init elf_layout None pmm_boot = Some s0 \<and>
     alloc_frame elf_layout s0 = Some (frame_addr 0, s) \<and> alloc_frame elf_layout s = Some (p, s') \<and>
     (\<forall>x \<in> span (frame_addr 0) 4096. mem s' x = mem s x)"
proof -
  let ?L = elf_layout
  obtain t where t: "frame_alloc_init ?L None pmm_boot = Some t" "pmm_inv ?L t"
    "tx_drains (uart t)" "free_frames ?L (mem t) = {..<256} \<union> {312..<FRAMES}"
    by (rule boot_pmm)
  have ok: "frame_ok ?L t" using t by (simp add: frame_ok_def link_ok_elf)
  have f: "0 \<in> free_frames ?L (mem t)" using t(4) by simp
  then have "Min (free_frames ?L (mem t)) = 0" by (intro Min_eqI) auto
  then have a: "alloc_frame ?L t = Some (frame_addr 0, take_frame ?L 0 t)" using alloc_frame_lowest [of ?L t] f by auto
  note ok1 = frame_ok_take [OF ok f]
  have live: "(frame_addr 0, 4096) \<in> live_frames ?L (take_frame ?L 0 t)"
    using frames_used_take(1) [OF ok f] by (simp add: live_frames_def)
  obtain p s' where b: "alloc_frame ?L (take_frame ?L 0 t) = Some (p, s')"
    using frames.alloc_returns [OF ok1, of 0] by auto
  have "uses (\<lambda>z. alloc_frame ?L) (free_frame ?L) poke_mem (\<lambda>z s. unat z \<le> 4096) (live_frames ?L) (frame_addr 0)
      (take_frame ?L 0 t) s'"
    by (rule uses.alloc [where z = 0 and p = p]) (use b in simp_all)
  with frame_isolation [OF r_into_rtranclp ok1 live] t(1) a b show ?thesis by blast
qed

end
