(* ===== verification/Kheap.thy ===== *)
theory Kheap
  imports Frame_Alloc
begin

text \<open>
  The kernel heap, \<open>src/src/memory/kheap.c\<close>.  A block is a 48-byte header in physical memory
  followed by its data; \<open>heap_block\<close> is the header as the code reads it and \<open>blk m b\<close> decodes
  the header at address \<open>b\<close>.  Every field is read from and written to byte memory, so two
  blocks that overlap, or a header the data of another block runs into, behave as they do on
  the machine.  The operations follow the order of the source.  \<open>None\<close> is a free-list search
  that never ends.
\<close>

record kheap_state = pmm_state +
  free_list_head :: u64
  heap_start :: u64
  heap_end :: u64

record heap_block =
  hsize :: u64
  is_free :: bool
  hnext :: u64
  hprev :: u64
  next_free :: u64
  prev_free :: u64

definition HEAP_HEADER_SIZE :: u64 where "HEAP_HEADER_SIZE = 48"
definition HEAP_MIN_BLOCK_SIZE :: u64 where "HEAP_MIN_BLOCK_SIZE = HEAP_HEADER_SIZE * 2"

subsection \<open>Header fields\<close>

definition blk :: "mem \<Rightarrow> u64 \<Rightarrow> heap_block" where
  "blk m b = \<lparr>hsize = load_le 8 m b, is_free = (m (b + 8) \<noteq> 0), hnext = load_le 8 m (b + 16),
     hprev = load_le 8 m (b + 24), next_free = load_le 8 m (b + 32), prev_free = load_le 8 m (b + 40)\<rparr>"

definition put_size :: "u64 \<Rightarrow> u64 \<Rightarrow> mem \<Rightarrow> mem" where
  "put_size b v m = store_le 8 m b v"

definition put_is_free :: "u64 \<Rightarrow> bool \<Rightarrow> mem \<Rightarrow> mem" where
  "put_is_free b v m = m(b + 8 := if v then 1 else 0)"

definition put_next :: "u64 \<Rightarrow> u64 \<Rightarrow> mem \<Rightarrow> mem" where
  "put_next b v m = store_le 8 m (b + 16) v"

definition put_prev :: "u64 \<Rightarrow> u64 \<Rightarrow> mem \<Rightarrow> mem" where
  "put_prev b v m = store_le 8 m (b + 24) v"

definition put_next_free :: "u64 \<Rightarrow> u64 \<Rightarrow> mem \<Rightarrow> mem" where
  "put_next_free b v m = store_le 8 m (b + 32) v"

definition put_prev_free :: "u64 \<Rightarrow> u64 \<Rightarrow> mem \<Rightarrow> mem" where
  "put_prev_free b v m = store_le 8 m (b + 40) v"

subsection \<open>Free list management\<close>

definition add_to_free_list :: "u64 \<Rightarrow> 'a kheap_state_scheme \<Rightarrow> 'a kheap_state_scheme" where
  "add_to_free_list block s =
     (let m = put_is_free block True (mem s);
          m = put_next_free block (free_list_head s) m;
          m = put_prev_free block NULL m;
          m = (if free_list_head s \<noteq> NULL then put_prev_free (free_list_head s) block m else m)
      in s\<lparr>mem := m, free_list_head := block\<rparr>)"

definition remove_from_free_list :: "u64 \<Rightarrow> 'a kheap_state_scheme \<Rightarrow> 'a kheap_state_scheme" where
  "remove_from_free_list block s =
     (let b = blk (mem s) block;
          s = (if prev_free b \<noteq> NULL
               then s\<lparr>mem := put_next_free (prev_free b) (next_free b) (mem s)\<rparr>
               else s\<lparr>free_list_head := next_free b\<rparr>);
          b = blk (mem s) block;
          m = (if next_free b \<noteq> NULL then put_prev_free (next_free b) (prev_free b) (mem s) else mem s);
          m = put_is_free block False m;
          m = put_next_free block NULL m;
          m = put_prev_free block NULL m
      in s\<lparr>mem := m\<rparr>)"

subsection \<open>Heap expansion\<close>

definition expand_link :: "u64 \<Rightarrow> 'a kheap_state_scheme \<Rightarrow> 'a kheap_state_scheme" where
  "expand_link current_block s =
     (let m = put_size current_block (PAGE_SIZE - HEAP_HEADER_SIZE) (mem s);
          m = put_is_free current_block True m;
          m = put_next current_block NULL m;
          s = s\<lparr>mem := m\<rparr>;
          s = (if heap_end s \<noteq> NULL
               then let m = put_prev current_block (heap_end s) (mem s)
                    in s\<lparr>mem := put_next (heap_end s) current_block m\<rparr>
               else s\<lparr>heap_start := current_block, mem := put_prev current_block NULL (mem s)\<rparr>)
      in s\<lparr>heap_end := current_block\<rparr>)"

fun expand_loop ::
  "layout \<Rightarrow> nat \<Rightarrow> u64 \<Rightarrow> 'a kheap_state_scheme \<Rightarrow> (bool \<times> u64 \<times> 'a kheap_state_scheme) option" where
  "expand_loop L 0 new_block s = Some (True, new_block, s)"
| "expand_loop L (Suc n) new_block s = do {
     (frame, s) \<leftarrow> alloc_frame L s;
     if frame = NULL then do {
       s \<leftarrow> kprint ''KHeap Error: Failed to allocate frame during expansion!\<newline>'' [] s;
       Some (False, new_block, s) }
     else expand_loop L n (if new_block = NULL then frame else new_block) (expand_link frame s) }"

definition expand_merge :: "u64 \<Rightarrow> 'a kheap_state_scheme \<Rightarrow> u64 \<times> 'a kheap_state_scheme" where
  "expand_merge new_block s =
     (let prev_block = hprev (blk (mem s) new_block)
      in if prev_block \<noteq> NULL \<and> is_free (blk (mem s) prev_block) then
           let s = remove_from_free_list prev_block s;
               m = put_size prev_block (hsize (blk (mem s) prev_block)
                     + (hsize (blk (mem s) new_block) + HEAP_HEADER_SIZE)) (mem s);
               m = put_next prev_block (hnext (blk m new_block)) m;
               nx = hnext (blk m new_block);
               m = (if nx \<noteq> NULL then put_prev nx prev_block m else m);
               s = s\<lparr>mem := m\<rparr>;
               s = (if heap_end s = new_block then s\<lparr>heap_end := prev_block\<rparr> else s)
           in (prev_block, s)
         else (new_block, s))"

definition expand_heap :: "layout \<Rightarrow> u64 \<Rightarrow> 'a kheap_state_scheme \<Rightarrow> (bool \<times> 'a kheap_state_scheme) option" where
  "expand_heap L min_expand_size s = do {
     let pages_needed = (min_expand_size + HEAP_HEADER_SIZE + PAGE_SIZE - 1) div PAGE_SIZE;
     let pages_needed = (if pages_needed = 0 then 1 else pages_needed);
     s \<leftarrow> kprint ''KHeap: Expanding heap by %zu pages\<newline>'' [VA pages_needed] s;
     (ok, new_block, s) \<leftarrow> expand_loop L (unat pages_needed) NULL s;
     if \<not> ok then Some (False, s)
     else if new_block = NULL then Some (False, s)
     else case expand_merge new_block s of (new_block, s) \<Rightarrow> Some (True, add_to_free_list new_block s) }"

subsection \<open>Coalescing\<close>

definition coalesce_next :: "u64 \<Rightarrow> 'a kheap_state_scheme \<Rightarrow> 'a kheap_state_scheme option" where
  "coalesce_next current s =
     (let next_block = hnext (blk (mem s) current)
      in if next_block \<noteq> NULL \<and> is_free (blk (mem s) next_block) then do {
           s \<leftarrow> kprint ''KHeap: Coalescing forward %p (%zu) with %p (%zu)\<newline>''
             [VA current, VA (hsize (blk (mem s) current)), VA next_block,
              VA (hsize (blk (mem s) next_block))] s;
           let s = remove_from_free_list next_block s;
           let m = put_size current (hsize (blk (mem s) current)
                     + (hsize (blk (mem s) next_block) + HEAP_HEADER_SIZE)) (mem s);
           let m = put_next current (hnext (blk m next_block)) m;
           let nx = hnext (blk m current);
           let m = (if nx \<noteq> NULL then put_prev nx current m else m);
           let s = (if heap_end s = next_block then s\<lparr>heap_end := current\<rparr> else s);
           Some (s\<lparr>mem := memset m next_block 0 HEAP_HEADER_SIZE\<rparr>) }
         else Some s)"

definition coalesce_prev :: "u64 \<Rightarrow> 'a kheap_state_scheme \<Rightarrow> (u64 \<times> 'a kheap_state_scheme) option" where
  "coalesce_prev current s =
     (let prev_block = hprev (blk (mem s) current)
      in if prev_block \<noteq> NULL \<and> is_free (blk (mem s) prev_block) then do {
           s \<leftarrow> kprint ''KHeap: Coalescing backward %p (%zu) with %p (%zu)\<newline>''
             [VA prev_block, VA (hsize (blk (mem s) prev_block)), VA current,
              VA (hsize (blk (mem s) current))] s;
           let s = remove_from_free_list prev_block s;
           let m = put_size prev_block (hsize (blk (mem s) prev_block)
                     + (hsize (blk (mem s) current) + HEAP_HEADER_SIZE)) (mem s);
           let m = put_next prev_block (hnext (blk m current)) m;
           let nx = hnext (blk m prev_block);
           let m = (if nx \<noteq> NULL then put_prev nx prev_block m else m);
           let s = (if heap_end s = current then s\<lparr>heap_end := prev_block\<rparr> else s);
           Some (prev_block, s\<lparr>mem := memset m current 0 HEAP_HEADER_SIZE\<rparr>) }
         else Some (current, s))"

definition coalesce :: "u64 \<Rightarrow> 'a kheap_state_scheme \<Rightarrow> (u64 \<times> 'a kheap_state_scheme) option" where
  "coalesce block s =
     (if block = NULL \<or> \<not> is_free (blk (mem s) block) then Some (block, s)
      else do { s \<leftarrow> coalesce_next block s; coalesce_prev block s })"

subsection \<open>Public interface\<close>

definition kheap_init :: "layout \<Rightarrow> 'a kheap_state_scheme \<Rightarrow> 'a kheap_state_scheme option" where
  "kheap_init L s = do {
     let s = s\<lparr>free_list_head := NULL, heap_start := NULL, heap_end := NULL\<rparr>;
     (ok, s) \<leftarrow> expand_heap L (PAGE_SIZE * 4) s;
     kprint ''KHeap: Initialized.\<newline>'' [] s }"

partial_function (option) first_fit :: "mem \<Rightarrow> u64 \<Rightarrow> u64 \<Rightarrow> u64 option" where
  "first_fit m current_free sz =
     (if current_free \<noteq> NULL then
        if hsize (blk m current_free) \<ge> sz then Some current_free
        else first_fit m (next_free (blk m current_free)) sz
      else Some NULL)"

definition kmalloc_take :: "u64 \<Rightarrow> u64 \<Rightarrow> 'a kheap_state_scheme \<Rightarrow> (u64 \<times> 'a kheap_state_scheme) option" where
  "kmalloc_take best_fit sz s = do {
     let s = remove_from_free_list best_fit s;
     s \<leftarrow> (if hsize (blk (mem s) best_fit) \<ge> sz + HEAP_MIN_BLOCK_SIZE then do {
         let remaining_size = hsize (blk (mem s) best_fit) - sz - HEAP_HEADER_SIZE;
         let new_free_block = best_fit + HEAP_HEADER_SIZE + sz;
         let m = put_size new_free_block remaining_size (mem s);
         let m = put_is_free new_free_block True m;
         let m = put_next new_free_block (hnext (blk m best_fit)) m;
         let m = put_prev new_free_block best_fit m;
         let nx = hnext (blk m new_free_block);
         let s = (if nx \<noteq> NULL then s\<lparr>mem := put_prev nx new_free_block m\<rparr>
                  else s\<lparr>mem := m, heap_end := new_free_block\<rparr>);
         let m = put_size best_fit sz (mem s);
         let m = put_next best_fit new_free_block m;
         let s = add_to_free_list new_free_block (s\<lparr>mem := m\<rparr>);
         kprint ''KHeap: Split block %p. Allocated %zu, remaining %zu at %p\<newline>''
           [VA best_fit, VA (hsize (blk (mem s) best_fit)), VA (hsize (blk (mem s) new_free_block)),
            VA new_free_block] s }
       else kprint ''KHeap: Allocated whole block %p (%zu) for size %zu\<newline>''
         [VA best_fit, VA (hsize (blk (mem s) best_fit)), VA sz] s);
     let m = put_is_free best_fit False (mem s);
     let data_ptr = best_fit + HEAP_HEADER_SIZE;
     Some (data_ptr, s\<lparr>mem := memset m data_ptr 0 (hsize (blk m best_fit))\<rparr>) }"

definition kmalloc :: "layout \<Rightarrow> u64 \<Rightarrow> 'a kheap_state_scheme \<Rightarrow> (u64 \<times> 'a kheap_state_scheme) option" where
  "kmalloc L sz s =
     (if sz = 0 then Some (NULL, s)
      else do {
        let alignment = 8;
        let sz = (sz + alignment - 1) AND NOT (alignment - 1);
        let total_size_needed = sz + HEAP_HEADER_SIZE;
        best_fit \<leftarrow> first_fit (mem s) (free_list_head s) sz;
        if best_fit \<noteq> NULL then kmalloc_take best_fit sz s
        else do {
          (ok, s) \<leftarrow> expand_heap L total_size_needed s;
          if \<not> ok then do {
            s \<leftarrow> kprint ''KHeap Error: Failed to expand heap for allocation of size %zu\<newline>'' [VA sz] s;
            Some (NULL, s) }
          else do {
            best_fit \<leftarrow> first_fit (mem s) (free_list_head s) sz;
            if best_fit = NULL then do {
              s \<leftarrow> kprint ''KHeap Error: Still no suitable block after expansion!\<newline>'' [] s;
              Some (NULL, s) }
            else kmalloc_take best_fit sz s }}})"

definition kfree :: "u64 \<Rightarrow> 'a kheap_state_scheme \<Rightarrow> 'a kheap_state_scheme option" where
  "kfree ptr s =
     (if ptr = NULL then Some s
      else let block = ptr - HEAP_HEADER_SIZE in
        if is_free (blk (mem s) block) then
          kprint ''KHeap Warning: Double free detected for pointer %p\<newline>'' [VA ptr] s
        else do {
          s \<leftarrow> kprint ''KHeap: kfree(%p) - block %p, size %zu\<newline>''
            [VA ptr, VA block, VA (hsize (blk (mem s) block))] s;
          let s = s\<lparr>mem := put_is_free block True (mem s)\<rparr>;
          (coalesced_block, s) \<leftarrow> coalesce block s;
          if coalesced_block = block then do {
            let s = add_to_free_list coalesced_block s;
            kprint ''KHeap: Added block %p (%zu) to free list\<newline>''
              [VA coalesced_block, VA (hsize (blk (mem s) coalesced_block))] s }
          else do {
            let s = add_to_free_list coalesced_block s;
            kprint ''KHeap: Added coalesced block %p (%zu) to free list\<newline>''
              [VA coalesced_block, VA (hsize (blk (mem s) coalesced_block))] s }})"

end
