(* ===== verification/Dll.thy ===== *)
theory Dll
  imports Main
begin

text \<open>
  Doubly linked lists, as the heap has two of: one in address order through \<open>next\<close> and
  \<open>prev\<close>, one of free blocks through \<open>next_free\<close> and \<open>prev_free\<close>.  \<open>dseg nx pv p as q\<close> says
  that the nodes \<open>as\<close> are linked in that order by the two link functions, with \<open>p\<close> before the
  first and \<open>q\<close> after the last.  Unlinking and inserting a node change the links of its
  neighbours only; the lemmas take the new link functions by what they are on the nodes.
\<close>

fun dseg :: "('a \<Rightarrow> 'a) \<Rightarrow> ('a \<Rightarrow> 'a) \<Rightarrow> 'a \<Rightarrow> 'a list \<Rightarrow> 'a \<Rightarrow> bool" where
  "dseg nx pv p [] q = True"
| "dseg nx pv p (a # as) q =
     (pv a = p \<and> nx a = (if as = [] then q else hd as) \<and> dseg nx pv a as q)"

lemma dseg_append:
  "dseg nx pv p (xs @ ys) q \<longleftrightarrow>
     dseg nx pv p xs (if ys = [] then q else hd ys) \<and>
     dseg nx pv (if xs = [] then p else last xs) ys q"
  by (induction xs arbitrary: p) auto

lemma dseg_cong:
  "(\<And>a. a \<in> set as \<Longrightarrow> nx a = nx' a \<and> pv a = pv' a) \<Longrightarrow> dseg nx pv p as q = dseg nx' pv' p as q"
  by (induction as arbitrary: p) auto

lemma dseg_ends:
  assumes "dseg nx pv p (xs @ b # ys) q"
  shows "pv b = (if xs = [] then p else last xs)" and "nx b = (if ys = [] then q else hd ys)"
  using assms by (auto simp: dseg_append)

lemma dseg_set_first:
  assumes "dseg nx pv p as q" and "\<And>a. a \<in> set as \<Longrightarrow> nx' a = nx a" and "distinct as"
    and "\<And>a. a \<in> set as \<Longrightarrow> pv' a = (if a = hd as then p' else pv a)"
  shows "dseg nx' pv' p' as q"
proof (cases as)
  case (Cons a bs)
  have "dseg nx' pv' a bs q = dseg nx pv a bs q" by (rule dseg_cong) (use assms Cons in auto)
  then show ?thesis using assms Cons by auto
qed simp

lemma dseg_set_last:
  assumes "dseg nx pv p as q" and "\<And>a. a \<in> set as \<Longrightarrow> pv' a = pv a" and "distinct as"
    and "\<And>a. a \<in> set as \<Longrightarrow> nx' a = (if a = last as then q' else nx a)"
  shows "dseg nx' pv' p as q'"
proof (cases as rule: rev_cases)
  case (snoc bs a)
  have "dseg nx' pv' p bs a = dseg nx pv p bs a" by (rule dseg_cong) (use assms snoc in auto)
  then show ?thesis using assms snoc by (auto simp: dseg_append)
qed simp

lemma dseg_remove:
  assumes "dseg nx pv p (xs @ b # ys) q" and "distinct (xs @ b # ys)"
    and nx: "\<And>a. a \<in> set xs \<union> set ys \<Longrightarrow> nx' a = (if xs \<noteq> [] \<and> a = last xs then nx b else nx a)"
    and pv: "\<And>a. a \<in> set xs \<union> set ys \<Longrightarrow> pv' a = (if ys \<noteq> [] \<and> a = hd ys then pv b else pv a)"
  shows "dseg nx' pv' p (xs @ ys) q"
proof -
  have l: "dseg nx pv p xs b" and r: "dseg nx pv b ys q" using assms(1) by (auto simp: dseg_append)
  have neq: "ys \<noteq> [] \<Longrightarrow> a \<in> set xs \<Longrightarrow> a \<noteq> hd ys" "xs \<noteq> [] \<Longrightarrow> a \<in> set ys \<Longrightarrow> a \<noteq> last xs" for a
    using assms(2) by (auto dest: hd_in_set last_in_set)
  have "dseg nx' pv' p xs (nx b)"
    by (rule dseg_set_last [OF l]) (use assms(2) nx pv neq in auto)
  moreover have "dseg nx' pv' (pv b) ys q"
    by (rule dseg_set_first [OF r]) (use assms(2) nx pv neq in auto)
  ultimately show ?thesis using dseg_ends [OF assms(1)] by (auto simp: dseg_append)
qed

lemma dseg_insert:
  assumes "dseg nx pv p (xs @ ys) q" and "distinct (xs @ ys)" and "b \<notin> set xs" and "b \<notin> set ys"
    and nx: "\<And>a. a \<in> set xs \<union> set ys \<Longrightarrow> nx' a = (if xs \<noteq> [] \<and> a = last xs then b else nx a)"
    and pv: "\<And>a. a \<in> set xs \<union> set ys \<Longrightarrow> pv' a = (if ys \<noteq> [] \<and> a = hd ys then b else pv a)"
    and b: "nx' b = (if ys = [] then q else hd ys)" "pv' b = (if xs = [] then p else last xs)"
  shows "dseg nx' pv' p (xs @ b # ys) q"
proof -
  let ?q = "if ys = [] then q else hd ys" and ?p = "if xs = [] then p else last xs"
  have l: "dseg nx pv p xs ?q" and r: "dseg nx pv ?p ys q" using assms(1) by (auto simp: dseg_append)
  have neq: "ys \<noteq> [] \<Longrightarrow> a \<in> set xs \<Longrightarrow> a \<noteq> hd ys" "xs \<noteq> [] \<Longrightarrow> a \<in> set ys \<Longrightarrow> a \<noteq> last xs" for a
    using assms(2) by (auto dest: hd_in_set last_in_set)
  have "dseg nx' pv' p xs b"
    by (rule dseg_set_last [OF l]) (use assms(2) nx pv neq in auto)
  moreover have "dseg nx' pv' b ys q"
    by (rule dseg_set_first [OF r]) (use assms(2) nx pv neq in auto)
  ultimately show ?thesis using b by (auto simp: dseg_append)
qed

lemma dseg_links_in:
  assumes "dseg nx pv p as q" and "b \<in> set as"
  shows "nx b \<in> insert q (set as)" and "pv b \<in> insert p (set as)"
proof -
  obtain xs ys where as: "as = xs @ b # ys" using split_list [OF assms(2)] by blast
  show "nx b \<in> insert q (set as)" "pv b \<in> insert p (set as)"
    using dseg_ends [of nx pv p xs b ys q] assms(1) as by (auto dest: hd_in_set last_in_set)
qed

lemma dseg_unique:
  "dseg nx pv p as z \<Longrightarrow> dseg nx pv' q bs z \<Longrightarrow> z \<notin> set as \<Longrightarrow> z \<notin> set bs \<Longrightarrow>
   (if as = [] then z else hd as) = (if bs = [] then z else hd bs) \<Longrightarrow> as = bs"
proof (induction as arbitrary: bs p q)
  case Nil
  then show ?case by (cases bs) (auto split: if_splits)
next
  case (Cons a as)
  then obtain cs where bs: "bs = a # cs" by (cases bs) auto
  have "(if as = [] then z else hd as) = (if cs = [] then z else hd cs)" using Cons.prems bs by simp
  with Cons.IH [of a a cs] Cons.prems bs show ?case by simp
qed

end
