(* ===== verification/Kheap_Blocks.thy ===== *)
theory Kheap_Blocks
  imports Kheap Dll
begin

text \<open>
  Heap block headers in byte memory.  Two headers that do not overlap are independent: a
  store to a field of one leaves the other as it was (\<open>blk_put\<close>), and no store to a header
  reaches outside its 48 bytes (\<open>put_outside\<close>).  On a set of pairwise separate headers the
  two free-list operations are therefore functions of the decoded headers
  (\<open>remove_view\<close>, \<open>add_view\<close>).
\<close>


definition sep :: "u64 \<Rightarrow> u64 \<Rightarrow> bool" where
  "sep a b \<longleftrightarrow> a = b \<or> apart a 48 b 48"

lemmas put_defs = put_size_def put_is_free_def put_next_def put_prev_def put_next_free_def put_prev_free_def

lemma load_apart_blk:
  assumes "apart b 48 a 48" and "unat x + 8 \<le> 48" and "unat y + 8 \<le> 48"
  shows "load_le 8 (store_le 8 m (b + x) v) (a + y) = load_le 8 m (a + y)"
  by (rule load_le_store_le_apart [OF apart_sub [OF assms]]) simp_all

lemma blk_store_other:
  assumes "apart b 48 a 48" and "unat x + 8 \<le> 48"
  shows "blk (store_le 8 m (b + x) v) a = blk m a"
proof -
  have "load_le 8 (store_le 8 m (b + x) v) a = load_le 8 m a"
    using load_apart_blk [OF assms, of 0] by simp
  moreover have "store_le 8 m (b + x) v (a + 8) = m (a + 8)"
    using apart_sub [OF assms, of 8 1] by (intro store_le_apart) simp_all
  ultimately show ?thesis using load_apart_blk [OF assms] by (simp add: blk_def)
qed

lemma blk_put_same:
  "blk (put_size b v m) b = (blk m b)\<lparr>hsize := v\<rparr>"
  "blk (put_is_free b f m) b = (blk m b)\<lparr>is_free := f\<rparr>"
  "blk (put_next b v m) b = (blk m b)\<lparr>hnext := v\<rparr>"
  "blk (put_prev b v m) b = (blk m b)\<lparr>hprev := v\<rparr>"
  "blk (put_next_free b v m) b = (blk m b)\<lparr>next_free := v\<rparr>"
  "blk (put_prev_free b v m) b = (blk m b)\<lparr>prev_free := v\<rparr>"
proof -
  have st: "load_le 8 (store_le 8 m (b + x) v) (b + y) = load_le 8 m (b + y)"
    if "8 \<le> unat (y - x)" "8 \<le> unat (x - y)" for x y
    using that by (intro load_le_store_le_apart) (simp_all add: apart_def)
  have st0: "load_le 8 (store_le 8 m b v) (b + y) = load_le 8 m (b + y)"
    "load_le 8 (store_le 8 m (b + y) v) b = load_le 8 m b"
    if "8 \<le> unat y" "8 \<le> unat (- y)" for y
    using that by (intro load_le_store_le_apart; simp add: apart_def)+
  have bt: "store_le 8 m (b + x) v (b + 8) = m (b + 8)" if "8 \<le> unat (8 - x)" for x
    using that by (simp add: store_le_eq)
  have bt0: "store_le 8 m b v (b + 8) = m (b + 8)" by (simp add: store_le_eq)
  have up: "load_le 8 (m(b + 8 := w)) (b + y) = load_le 8 m (b + y)"
    if "8 \<le> unat (8 - y)" "1 \<le> unat (y - 8)" for y w
    using that by (intro load_le_upd_apart) (simp_all add: apart_def)
  have up0: "load_le 8 (m(b + 8 := w)) b = load_le 8 m b" for w
    by (intro load_le_upd_apart) (simp_all add: apart_def)
  show "blk (put_size b v m) b = (blk m b)\<lparr>hsize := v\<rparr>"
    "blk (put_is_free b f m) b = (blk m b)\<lparr>is_free := f\<rparr>"
    "blk (put_next b v m) b = (blk m b)\<lparr>hnext := v\<rparr>"
    "blk (put_prev b v m) b = (blk m b)\<lparr>hprev := v\<rparr>"
    "blk (put_next_free b v m) b = (blk m b)\<lparr>next_free := v\<rparr>"
    "blk (put_prev_free b v m) b = (blk m b)\<lparr>prev_free := v\<rparr>"
    by (simp_all add: blk_def put_defs st st0 bt bt0 up up0)
qed

lemma blk_cong:
  assumes "\<And>x. x \<in> span a 48 \<Longrightarrow> m x = m' x"
  shows "blk m a = blk m' a"
proof -
  have ld: "load_le 8 m (a + y) = load_le 8 m' (a + y)" if "unat y + 8 \<le> 48" for y
    using span_sub [OF that] assms by (intro load_le_cong) auto
  have "m (a + 8) = m' (a + 8)" by (rule assms) (simp add: mem_span)
  then show ?thesis using ld [of 0] by (simp add: blk_def ld)
qed

lemma blk_put_other:
  assumes "apart b 48 a 48"
  shows "blk (put_size b v m) a = blk m a"
    and "blk (put_is_free b f m) a = blk m a"
    and "blk (put_next b v m) a = blk m a"
    and "blk (put_prev b v m) a = blk m a"
    and "blk (put_next_free b v m) a = blk m a"
    and "blk (put_prev_free b v m) a = blk m a"
proof -
  show "blk (put_is_free b f m) a = blk m a"
  proof (rule blk_cong)
    fix x assume "x \<in> span a 48"
    moreover have "b + 8 \<in> span b 48" by (simp add: mem_span)
    ultimately have "x \<noteq> b + 8" using apart_disjoint [OF assms] by blast
    then show "put_is_free b f m x = m x" by (simp add: put_is_free_def)
  qed
  show "blk (put_size b v m) a = blk m a"
    using blk_store_other [OF assms, of 0] by (simp add: put_size_def)
qed (simp_all add: put_defs blk_store_other [OF assms])

lemma blk_put:
  assumes "sep b a"
  shows "blk (put_size b v m) a = (if a = b then (blk m b)\<lparr>hsize := v\<rparr> else blk m a)"
    and "blk (put_is_free b f m) a = (if a = b then (blk m b)\<lparr>is_free := f\<rparr> else blk m a)"
    and "blk (put_next b v m) a = (if a = b then (blk m b)\<lparr>hnext := v\<rparr> else blk m a)"
    and "blk (put_prev b v m) a = (if a = b then (blk m b)\<lparr>hprev := v\<rparr> else blk m a)"
    and "blk (put_next_free b v m) a = (if a = b then (blk m b)\<lparr>next_free := v\<rparr> else blk m a)"
    and "blk (put_prev_free b v m) a = (if a = b then (blk m b)\<lparr>prev_free := v\<rparr> else blk m a)"
  using assms blk_put_other [of b a] by (auto simp: sep_def blk_put_same)

lemma put_outside:
  assumes "x \<notin> span b 48"
  shows "put_size b v m x = m x" "put_is_free b f m x = m x" "put_next b v m x = m x"
    "put_prev b v m x = m x" "put_next_free b v m x = m x" "put_prev_free b v m x = m x"
proof -
  have far: "\<not> unat (x - (b + y)) < 8" if "unat y + 8 \<le> 48" for y
    using span_sub [OF that, of b] assms by (auto simp: mem_span)
  show "put_is_free b f m x = m x" using assms by (auto simp: put_is_free_def mem_span)
  show "put_size b v m x = m x" using far [of 0] by (simp add: put_size_def store_le_eq)
  show "put_next b v m x = m x" "put_prev b v m x = m x" "put_next_free b v m x = m x"
    "put_prev_free b v m x = m x"
    by (simp_all add: put_defs store_le_eq far)
qed

subsection \<open>Separate headers\<close>

definition sepset :: "u64 set \<Rightarrow> bool" where
  "sepset A \<longleftrightarrow> NULL \<notin> A \<and> (\<forall>a\<in>A. \<forall>b\<in>A. sep a b)"

lemma sepsetD: "sepset A \<Longrightarrow> a \<in> A \<Longrightarrow> b \<in> A \<Longrightarrow> sep a b" "sepset A \<Longrightarrow> a \<in> A \<Longrightarrow> a \<noteq> NULL"
  by (auto simp: sepset_def)

lemma sepset_mono: "sepset A \<Longrightarrow> B \<subseteq> A \<Longrightarrow> sepset B"
  by (auto simp: sepset_def)

definition headers :: "u64 set \<Rightarrow> u64 set" where
  "headers A = (\<Union>a\<in>A. span a 48)"

definition only_in :: "u64 set \<Rightarrow> mem \<Rightarrow> mem \<Rightarrow> bool" where
  "only_in X m m' \<longleftrightarrow> (\<forall>x. x \<notin> X \<longrightarrow> m' x = m x)"

lemma only_in_refl [simp]: "only_in X m m"
  by (simp add: only_in_def)

lemma only_in_trans: "only_in X m m' \<Longrightarrow> only_in X m' m'' \<Longrightarrow> only_in X m m''"
  by (simp add: only_in_def)

lemma only_in_mono: "only_in X m m' \<Longrightarrow> X \<subseteq> Y \<Longrightarrow> only_in Y m m'"
  by (auto simp: only_in_def)

lemma only_in_put:
  assumes "b \<in> A" and "only_in (headers A) m m'"
  shows "only_in (headers A) m (put_size b v m')" "only_in (headers A) m (put_is_free b f m')"
    "only_in (headers A) m (put_next b v m')" "only_in (headers A) m (put_prev b v m')"
    "only_in (headers A) m (put_next_free b v m')" "only_in (headers A) m (put_prev_free b v m')"
  using assms by (auto simp: only_in_def headers_def put_outside)

lemma sep_refl [simp]: "sep a a"
  by (simp add: sep_def)

lemma remove_mem:
  assumes A: "sepset A" "b \<in> A"
    and p: "p = prev_free (blk (mem s) b)" "p \<in> insert NULL (A - {b})"
    and n: "n = next_free (blk (mem s) b)" "n \<in> insert NULL (A - {b})"
  shows "remove_from_free_list b s = s\<lparr>
     mem := (let m1 = (if p \<noteq> NULL then put_next_free p n (mem s) else mem s);
                 m2 = (if n \<noteq> NULL then put_prev_free n p m1 else m1)
             in put_prev_free b NULL (put_next_free b NULL (put_is_free b False m2))),
     free_list_head := (if p = NULL then n else free_list_head s)\<rparr>"
proof (cases "p = NULL")
  case False
  then have "sep p b" "p \<noteq> b" using A p(2) sepsetD(1) by auto
  then have "blk (put_next_free p n (mem s)) b = blk (mem s) b" by (simp add: blk_put)
  with False p(1) n(1) show ?thesis by (simp add: remove_from_free_list_def Let_def)
qed (use p(1) n(1) in \<open>simp add: remove_from_free_list_def Let_def\<close>)

lemma remove_view:
  assumes A: "sepset A" "b \<in> A" "a \<in> A"
    and p: "p = prev_free (blk (mem s) b)" "p \<in> insert NULL (A - {b})"
    and n: "n = next_free (blk (mem s) b)" "n \<in> insert NULL (A - {b})"
  shows "blk (mem (remove_from_free_list b s)) a = (blk (mem s) a)\<lparr>
     is_free := a \<noteq> b \<and> is_free (blk (mem s) a),
     next_free := if a = b then NULL else if a = p then n else next_free (blk (mem s) a),
     prev_free := if a = b then NULL else if a = n then p else prev_free (blk (mem s) a)\<rparr>"
proof -
  define m1 where "m1 = (if p \<noteq> NULL then put_next_free p n (mem s) else mem s)"
  define m2 where "m2 = (if n \<noteq> NULL then put_prev_free n p m1 else m1)"
  have sb: "sep b a" "a \<noteq> NULL" using sepsetD [OF A(1)] A by blast+
  have sp: "p \<noteq> NULL \<Longrightarrow> sep p a" "p \<noteq> b" using sepsetD [OF A(1)] A p(2) by blast+
  have sn: "n \<noteq> NULL \<Longrightarrow> sep n a" "n \<noteq> b" using sepsetD [OF A(1)] A n(2) by blast+
  have v1: "blk m1 a = (blk (mem s) a)\<lparr>next_free := if a = p then n else next_free (blk (mem s) a)\<rparr>"
    using sp sb by (simp add: m1_def blk_put)
  have v2: "blk m2 a = (blk m1 a)\<lparr>prev_free := if a = n then p else prev_free (blk m1 a)\<rparr>"
    using sn sb by (simp add: m2_def blk_put)
  have "mem (remove_from_free_list b s) = put_prev_free b NULL (put_next_free b NULL (put_is_free b False m2))"
    by (simp add: remove_mem [OF A(1,2) p n] m1_def m2_def)
  moreover have "blk (put_prev_free b NULL (put_next_free b NULL (put_is_free b False m2))) a =
     (if a = b then (blk m2 b)\<lparr>is_free := False, next_free := NULL, prev_free := NULL\<rparr> else blk m2 a)"
    using sb by (simp add: blk_put)
  ultimately show ?thesis using v1 v2 by auto
qed

lemma remove_frame:
  assumes A: "sepset A" "b \<in> A"
    and p: "p = prev_free (blk (mem s) b)" "p \<in> insert NULL (A - {b})"
    and n: "n = next_free (blk (mem s) b)" "n \<in> insert NULL (A - {b})"
  shows "only_in (headers A) (mem s) (mem (remove_from_free_list b s))"
  using A p(2) n(2) by (auto simp: remove_mem [OF A p n] Let_def intro!: only_in_put)

lemma add_view:
  assumes A: "sepset A" "b \<in> A" "a \<in> A" and h: "free_list_head s \<in> insert NULL (A - {b})"
  shows "blk (mem (add_to_free_list b s)) a = (blk (mem s) a)\<lparr>
     is_free := a = b \<or> is_free (blk (mem s) a),
     next_free := if a = b then free_list_head s else next_free (blk (mem s) a),
     prev_free := if a = b then NULL else if a = free_list_head s then b else prev_free (blk (mem s) a)\<rparr>"
proof -
  define m1 where "m1 = put_prev_free b NULL (put_next_free b (free_list_head s) (put_is_free b True (mem s)))"
  have sb: "sep b a" "a \<noteq> NULL" using sepsetD [OF A(1)] A by blast+
  have sh: "free_list_head s \<noteq> NULL \<Longrightarrow> sep (free_list_head s) a" "free_list_head s \<noteq> b"
    using sepsetD [OF A(1)] A h by blast+
  have v: "blk m1 a = (if a = b then (blk (mem s) b)\<lparr>is_free := True, next_free := free_list_head s,
     prev_free := NULL\<rparr> else blk (mem s) a)"
    using sb by (simp add: m1_def blk_put)
  have "mem (add_to_free_list b s) = (if free_list_head s \<noteq> NULL then put_prev_free (free_list_head s) b m1 else m1)"
    by (simp add: add_to_free_list_def m1_def Let_def)
  then have "blk (mem (add_to_free_list b s)) a =
     (if a = free_list_head s then (blk m1 a)\<lparr>prev_free := b\<rparr> else blk m1 a)"
    using sh sb by (simp add: blk_put)
  with v sh(2) show ?thesis by auto
qed

lemma add_frame:
  assumes "b \<in> A" and "free_list_head s \<in> insert NULL A"
  shows "only_in (headers A) (mem s) (mem (add_to_free_list b s))"
  using assms by (auto simp: add_to_free_list_def Let_def intro!: only_in_put)


subsection \<open>Free lists\<close>

definition chains :: "(u64 \<Rightarrow> heap_block) \<Rightarrow> u64 \<Rightarrow> u64 list list \<Rightarrow> bool" where
  "chains H head cs \<longleftrightarrow> distinct (concat cs) \<and> NULL \<notin> set (concat cs) \<and>
     (\<forall>c \<in> set cs. dseg (next_free \<circ> H) (prev_free \<circ> H) NULL c NULL) \<and>
     (head = NULL \<or> (\<exists>c \<in> set cs. c \<noteq> [] \<and> hd c = head))"

lemma chains_cong:
  assumes "\<And>a. a \<in> set (concat cs) \<Longrightarrow> next_free (H a) = next_free (H' a) \<and> prev_free (H a) = prev_free (H' a)"
  shows "chains H head cs = chains H' head cs"
proof -
  have "dseg (next_free \<circ> H) (prev_free \<circ> H) NULL c NULL = dseg (next_free \<circ> H') (prev_free \<circ> H') NULL c NULL"
    if "c \<in> set cs" for c
    using that assms by (intro dseg_cong) auto
  then show ?thesis by (auto simp: chains_def)
qed

lemma chains_head: "chains H head cs \<Longrightarrow> head \<in> insert NULL (set (concat cs))"
  by (auto simp: chains_def dest: hd_in_set)

text \<open>A block on a chain: the chain around it, and where its two links lead.\<close>

lemma chains_at:
  assumes "chains H head cs" and "b \<in> set (concat cs)"
  obtains ds es xs ys where "cs = ds @ (xs @ b # ys) # es"
    and "dseg (next_free \<circ> H) (prev_free \<circ> H) NULL (xs @ b # ys) NULL"
    and "prev_free (H b) = (if xs = [] then NULL else last xs)"
    and "next_free (H b) = (if ys = [] then NULL else hd ys)"
proof -
  obtain c where "c \<in> set cs" "b \<in> set c" using assms(2) by auto
  then obtain ds es xs ys where cs: "cs = ds @ (xs @ b # ys) # es" by (metis split_list)
  then have d: "dseg (next_free \<circ> H) (prev_free \<circ> H) NULL (xs @ b # ys) NULL"
    using assms(1) by (simp add: chains_def)
  from that [OF cs d] dseg_ends [OF d] show thesis by simp
qed

lemma chains_links:
  assumes "chains H head cs" and "b \<in> set (concat cs)"
  shows "prev_free (H b) \<in> insert NULL (set (concat cs) - {b})"
    and "next_free (H b) \<in> insert NULL (set (concat cs) - {b})"
proof -
  obtain ds es xs ys where cs: "cs = ds @ (xs @ b # ys) # es"
    "prev_free (H b) = (if xs = [] then NULL else last xs)"
    "next_free (H b) = (if ys = [] then NULL else hd ys)"
    by (rule chains_at [OF assms])
  have "distinct (xs @ b # ys)" using assms(1) cs(1) by (auto simp: chains_def)
  then show "prev_free (H b) \<in> insert NULL (set (concat cs) - {b})"
    "next_free (H b) \<in> insert NULL (set (concat cs) - {b})"
    using cs by (auto dest: last_in_set hd_in_set)
qed

lemma concat_mid:
  assumes "distinct (concat (ds @ c # es))"
  shows "distinct c" and "set c \<inter> set (concat (ds @ es)) = {}" and "distinct (concat (ds @ es))"
  using assms by auto

lemma hd_last_mem: "xs \<noteq> [] \<Longrightarrow> last xs \<in> set (xs @ b # ys)" "ys \<noteq> [] \<Longrightarrow> hd ys \<in> set (xs @ b # ys)"
  by auto

lemma chains_remove:
  assumes C: "chains H head cs" and b: "b \<in> set (concat cs)"
    and p: "p = prev_free (H b)" and n: "n = next_free (H b)"
    and H': "\<And>a. a \<in> set (concat cs) - {b} \<Longrightarrow>
       next_free (H' a) = (if a = p then n else next_free (H a)) \<and>
       prev_free (H' a) = (if a = n then p else prev_free (H a))"
  obtains cs' where "chains H' (if p = NULL then n else head) cs'" and "set (concat cs') = set (concat cs) - {b}"
proof -
  obtain ds es xs ys where cs: "cs = ds @ (xs @ b # ys) # es"
    and d: "dseg (next_free \<circ> H) (prev_free \<circ> H) NULL (xs @ b # ys) NULL"
    and "prev_free (H b) = (if xs = [] then NULL else last xs)"
    and "next_free (H b) = (if ys = [] then NULL else hd ys)"
    by (rule chains_at [OF C b])
  with p n have pn: "p = (if xs = [] then NULL else last xs)" "n = (if ys = [] then NULL else hd ys)" by simp_all
  let ?cs = "ds @ (xs @ ys) # es" and ?N' = "next_free \<circ> H'" and ?P' = "prev_free \<circ> H'"
  have dist: "distinct (concat cs)" and null: "NULL \<notin> set (concat cs)" using C by (simp_all add: chains_def)
  note mid = concat_mid [OF dist [unfolded cs]]
  have set: "set (concat ?cs) = set (concat cs) - {b}" using mid(1,2) by (auto simp: cs)
  have "dseg ?N' ?P' NULL (xs @ ys) NULL"
  proof (rule dseg_remove [OF d mid(1)])
    fix a assume a: "a \<in> set xs \<union> set ys"
    then have "a \<noteq> NULL" "a \<in> set (concat cs) - {b}" using null mid(1) by (auto simp: cs)
    with H' [of a] pn p n show "?N' a = (if xs \<noteq> [] \<and> a = last xs then (next_free \<circ> H) b else (next_free \<circ> H) a)"
      "?P' a = (if ys \<noteq> [] \<and> a = hd ys then (prev_free \<circ> H) b else (prev_free \<circ> H) a)"
      by simp_all
  qed
  moreover have "dseg ?N' ?P' NULL c NULL" if c: "c \<in> set ds \<union> set es" for c
  proof -
    have "?N' a = (next_free \<circ> H) a \<and> ?P' a = (prev_free \<circ> H) a" if a: "a \<in> set c" for a
    proof -
      have "a \<in> set (concat (ds @ es))" "a \<in> set (concat cs)" using a c by (auto simp: cs)
      then have "a \<noteq> NULL" "a \<notin> set (xs @ b # ys)" "a \<in> set (concat cs) - {b}" using null mid(2) by auto
      then have "a \<noteq> p" "a \<noteq> n" using pn hd_last_mem by metis+
      with H' [OF \<open>a \<in> set (concat cs) - {b}\<close>] show ?thesis by simp
    qed
    then have "dseg ?N' ?P' NULL c NULL = dseg (next_free \<circ> H) (prev_free \<circ> H) NULL c NULL"
      by (rule dseg_cong)
    with C c show ?thesis by (auto simp: chains_def cs)
  qed
  moreover have "(if p = NULL then n else head) = NULL \<or>
      (\<exists>c \<in> set ?cs. c \<noteq> [] \<and> hd c = (if p = NULL then n else head))"
  proof (cases "xs = []")
    case True
    with pn show ?thesis by auto
  next
    case False
    have "last xs \<in> set (concat cs)" using False by (simp add: cs)
    with False have "p \<noteq> NULL" using pn null by metis
    moreover have "head = NULL \<or> (\<exists>c \<in> set ds \<union> set es \<union> {xs @ b # ys}. c \<noteq> [] \<and> hd c = head)"
      using C by (auto simp: chains_def cs)
    ultimately show ?thesis using False by auto
  qed
  moreover have "distinct (concat ?cs)" using dist by (auto simp: cs)
  ultimately have "chains H' (if p = NULL then n else head) ?cs"
    using set null by (simp only: chains_def) auto
  with set that show thesis by blast
qed

lemma chains_add:
  assumes C: "chains H head cs" and b: "b \<notin> set (concat cs)" "b \<noteq> NULL"
    and Hb: "next_free (H' b) = head" "prev_free (H' b) = NULL"
    and H': "\<And>a. a \<in> set (concat cs) \<Longrightarrow>
       next_free (H' a) = next_free (H a) \<and> prev_free (H' a) = (if a = head then b else prev_free (H a))"
  obtains cs' where "chains H' b cs'" and "set (concat cs') = insert b (set (concat cs))"
proof (cases "head = NULL")
  case True
  have "NULL \<notin> set (concat cs)" using C by (simp add: chains_def)
  then have "chains H' NULL cs" using C H' True
    by (subst chains_cong [of cs H' H]) auto
  then have "chains H' b ([b] # cs)" using b Hb True by (simp add: chains_def)
  from that [OF this] show thesis by simp
next
  case False
  then obtain c where "c \<in> set cs" "c \<noteq> []" "hd c = head" using C by (auto simp: chains_def)
  then obtain ds es ys where cs: "cs = ds @ (head # ys) # es" by (metis list.collapse split_list)
  let ?N' = "next_free \<circ> H'" and ?P' = "prev_free \<circ> H'"
  have dist: "distinct (concat cs)" and null: "NULL \<notin> set (concat cs)" using C by (simp_all add: chains_def)
  note mid = concat_mid [OF dist [unfolded cs]]
  have "dseg ?N' ?P' NULL ([] @ b # head # ys) NULL"
  proof (rule dseg_insert)
    show "dseg (next_free \<circ> H) (prev_free \<circ> H) NULL ([] @ head # ys) NULL" using C by (simp add: chains_def cs)
  qed (use mid(1) b H' Hb in \<open>auto simp: cs\<close>)
  moreover have "dseg ?N' ?P' NULL c NULL" if c: "c \<in> set ds \<union> set es" for c
  proof -
    have "?N' a = (next_free \<circ> H) a \<and> ?P' a = (prev_free \<circ> H) a" if a: "a \<in> set c" for a
    proof -
      have "a \<in> set (concat (ds @ es))" "a \<in> set (concat cs)" using a c by (auto simp: cs)
      with mid(2) H' [of a] show ?thesis by auto
    qed
    then have "dseg ?N' ?P' NULL c NULL = dseg (next_free \<circ> H) (prev_free \<circ> H) NULL c NULL"
      by (rule dseg_cong)
    with C c show ?thesis by (auto simp: chains_def cs)
  qed
  moreover have "distinct (concat (ds @ (b # head # ys) # es))" using dist b by (auto simp: cs)
  ultimately have "chains H' b (ds @ (b # head # ys) # es)"
    using null b by (auto simp: chains_def cs)
  from that [OF this] show thesis by (auto simp: cs)
qed

end
