(* ===== verification/Kheap_Shape.thy ===== *)
theory Kheap_Shape
  imports Kheap_Blocks
begin

text \<open>
  The list of all blocks.  \<open>tiles\<close> says that the blocks of a list cover an address range
  exactly, each header followed by its data and then by the next header; \<open>block_list\<close> adds
  the \<open>next\<close> and \<open>prev\<close> links and the two ends the heap keeps.  Merging two neighbours,
  splitting a block and appending a page keep the shape.
\<close>

subsection \<open>Blocks that tile a region\<close>

fun tiles :: "(u64 \<Rightarrow> u64) \<Rightarrow> nat \<Rightarrow> u64 list \<Rightarrow> nat \<Rightarrow> bool" where
  "tiles sz lo [] hi \<longleftrightarrow> lo = hi"
| "tiles sz lo (a # as) hi \<longleftrightarrow> unat a = lo \<and> 8 dvd unat (sz a) \<and> tiles sz (lo + 48 + unat (sz a)) as hi"

lemma tiles_append: "tiles sz lo (xs @ ys) hi \<longleftrightarrow> (\<exists>mid. tiles sz lo xs mid \<and> tiles sz mid ys hi)"
  by (induction xs arbitrary: lo) auto

lemma tiles_cong: "(\<And>a. a \<in> set as \<Longrightarrow> sz a = sz' a) \<Longrightarrow> tiles sz lo as hi = tiles sz' lo as hi"
  by (induction as arbitrary: lo) auto

lemma tiles_le: "tiles sz lo as hi \<Longrightarrow> lo \<le> hi"
  by (induction as arbitrary: lo) fastforce+

lemma tiles_in: "tiles sz lo as hi \<Longrightarrow> a \<in> set as \<Longrightarrow> lo \<le> unat a \<and> unat a + 48 + unat (sz a) \<le> hi \<and> 8 dvd unat (sz a)"
proof (induction as arbitrary: lo)
  case (Cons b bs)
  then show ?case using tiles_le [of sz "lo + 48 + unat (sz b)" bs hi] by fastforce
qed simp

lemma tiles_aligned: "tiles sz lo as hi \<Longrightarrow> 8 dvd lo \<Longrightarrow> a \<in> set as \<Longrightarrow> 8 dvd unat a"
proof (induction as arbitrary: lo)
  case (Cons b bs)
  moreover have "8 dvd (48 :: nat)" by simp
  ultimately show ?case by (auto intro: dvd_add)
qed simp

lemma tiles_before:
  assumes "tiles sz lo (xs @ a # ys) hi" and "b \<in> set ys"
  shows "unat a + 48 + unat (sz a) \<le> unat b"
  using assms tiles_in [of sz _ ys hi b] by (auto simp: tiles_append)

lemma tiles_disjoint:
  assumes "tiles sz lo as hi" and "a \<in> set as" and "b \<in> set as" and "a \<noteq> b"
  shows "unat a + 48 + unat (sz a) \<le> unat b \<or> unat b + 48 + unat (sz b) \<le> unat a"
proof -
  obtain xs ys where as: "as = xs @ a # ys" using split_list [OF assms(2)] by blast
  show ?thesis
  proof (cases "b \<in> set ys")
    case True
    with assms(1) show ?thesis by (auto simp: as dest: tiles_before)
  next
    case False
    then have "b \<in> set xs" using as assms(3,4) by auto
    then obtain us vs where "xs = us @ b # vs" using split_list by metis
    with assms(1) tiles_before [of sz lo us b "vs @ a # ys" hi a] show ?thesis by (simp add: as)
  qed
qed

lemma tiles_distinct: "tiles sz lo as hi \<Longrightarrow> distinct as"
proof (induction as arbitrary: lo)
  case (Cons b bs)
  then show ?case using tiles_in [of sz "lo + 48 + unat (sz b)" bs hi b] by auto
qed simp

lemma tiles_sepset:
  assumes "tiles sz lo as hi" and "0 < lo" and "hi \<le> 2 ^ 64"
  shows "sepset (set as)"
proof -
  have "sep a b" if "a \<in> set as" "b \<in> set as" for a b
  proof (cases "a = b")
    case False
    have "unat a + 48 \<le> 2 ^ 64" "unat b + 48 \<le> 2 ^ 64" using tiles_in [OF assms(1)] that assms(3) by fastforce+
    then have "apart a 48 b 48 \<or> apart b 48 a 48"
      using tiles_disjoint [OF assms(1) that False] apart_nat [of a 48 b 48] apart_nat [of b 48 a 48] by auto
    then show ?thesis by (auto simp: sep_def apart_sym)
  qed simp
  moreover have "NULL \<notin> set as" using tiles_in [OF assms(1), of NULL] assms(2) by auto
  ultimately show ?thesis by (auto simp: sepset_def)
qed

subsection \<open>The block list\<close>

definition block_list :: "(u64 \<Rightarrow> heap_block) \<Rightarrow> u64 \<Rightarrow> u64 \<Rightarrow> u64 list \<Rightarrow> nat \<Rightarrow> nat \<Rightarrow> bool" where
  "block_list H first final as lo hi \<longleftrightarrow>
     tiles (hsize \<circ> H) lo as hi \<and> dseg (hnext \<circ> H) (hprev \<circ> H) NULL as NULL \<and>
     first = (if as = [] then NULL else hd as) \<and> final = (if as = [] then NULL else last as)"

lemma block_list_cong:
  assumes "\<And>a. a \<in> set as \<Longrightarrow> hsize (H' a) = hsize (H a) \<and> hnext (H' a) = hnext (H a) \<and> hprev (H' a) = hprev (H a)"
  shows "block_list H' first final as lo hi = block_list H first final as lo hi"
proof -
  have "tiles (hsize \<circ> H') lo as hi = tiles (hsize \<circ> H) lo as hi" by (rule tiles_cong) (simp add: assms)
  moreover have "dseg (hnext \<circ> H') (hprev \<circ> H') NULL as NULL = dseg (hnext \<circ> H) (hprev \<circ> H) NULL as NULL"
    by (rule dseg_cong) (simp add: assms)
  ultimately show ?thesis by (simp add: block_list_def)
qed

lemma block_list_links:
  assumes "block_list H first final (xs @ b # ys) lo hi"
  shows "hprev (H b) = (if xs = [] then NULL else last xs)" and "hnext (H b) = (if ys = [] then NULL else hd ys)"
  using assms dseg_ends [of "hnext \<circ> H" "hprev \<circ> H" NULL xs b ys NULL] by (simp_all add: block_list_def)

lemma block_list_merge:
  assumes B: "block_list H first final (xs @ a # b # ys) lo hi" and hi: "hi < 2 ^ 64"
    and sz: "\<And>c. c \<in> set (xs @ a # ys) \<Longrightarrow>
       hsize (H' c) = (if c = a then hsize (H a) + (hsize (H b) + 48) else hsize (H c))"
    and nx: "\<And>c. c \<in> set (xs @ a # ys) \<Longrightarrow> hnext (H' c) = (if c = a then hnext (H b) else hnext (H c))"
    and pv: "\<And>c. c \<in> set (xs @ a # ys) \<Longrightarrow> hprev (H' c) = (if c = hnext (H b) then a else hprev (H c))"
    and nz: "NULL \<notin> set (xs @ a # ys)"
  shows "block_list H' first (if final = b then a else final) (xs @ a # ys) lo hi"
proof -
  let ?S = "hsize \<circ> H" and ?S' = "hsize \<circ> H'"
  have T: "tiles ?S lo (xs @ a # b # ys) hi" and D: "dseg (hnext \<circ> H) (hprev \<circ> H) NULL ((xs @ [a]) @ b # ys) NULL"
    using B by (simp_all add: block_list_def)
  have dis: "distinct (xs @ a # b # ys)" by (rule tiles_distinct [OF T])
  obtain mid where m: "tiles ?S lo xs mid" "unat a = mid" "8 dvd unat (?S a)" "8 dvd unat (?S b)"
    "tiles ?S (mid + 48 + unat (?S a) + 48 + unat (?S b)) ys hi"
    using T by (auto simp: tiles_append)
  have "mid + 48 + unat (?S a) + 48 + unat (?S b) \<le> hi" by (rule tiles_le [OF m(5)])
  then have add: "unat (hsize (H a) + (hsize (H b) + 48)) = unat (?S a) + (unat (?S b) + 48)"
    using hi by (simp add: unat_word_ariths)
  have "tiles ?S' lo xs mid = tiles ?S lo xs mid" using dis sz by (intro tiles_cong) auto
  moreover have "tiles ?S' (mid + 48 + unat (?S a) + 48 + unat (?S b)) ys hi
      = tiles ?S (mid + 48 + unat (?S a) + 48 + unat (?S b)) ys hi"
    using dis sz by (intro tiles_cong) auto
  moreover have "8 dvd unat (hsize (H a)) + (unat (hsize (H b)) + 48)"
    using m(3,4) by (intro dvd_add) simp_all
  ultimately have "tiles ?S' lo (xs @ a # ys) hi"
    using m sz [of a] add by (auto simp: tiles_append ac_simps)
  moreover have "dseg (hnext \<circ> H') (hprev \<circ> H') NULL ((xs @ [a]) @ ys) NULL"
  proof (rule dseg_remove [OF D])
    show "distinct ((xs @ [a]) @ b # ys)" using dis by simp
    have "hprev (H b) = a" using block_list_links(1) [of H first final "xs @ [a]" b ys lo hi] B by simp
    moreover have "hnext (H b) = (if ys = [] then NULL else hd ys)"
      using block_list_links(2) [of H first final "xs @ [a]" b ys lo hi] B by simp
    moreover fix c assume c: "c \<in> set (xs @ [a]) \<union> set ys"
    then have "c \<in> set (xs @ a # ys)" "c \<noteq> NULL" using nz by auto
    ultimately show "(hnext \<circ> H') c = (if xs @ [a] \<noteq> [] \<and> c = last (xs @ [a]) then (hnext \<circ> H) b else (hnext \<circ> H) c)"
      "(hprev \<circ> H') c = (if ys \<noteq> [] \<and> c = hd ys then (hprev \<circ> H) b else (hprev \<circ> H) c)"
      using nx [of c] pv [of c] by simp_all
  qed
  ultimately show ?thesis using B dis by (auto simp: block_list_def hd_append)
qed

lemma block_list_split:
  assumes B: "block_list H first final (xs @ a # ys) lo hi" and hi: "hi < 2 ^ 64"
    and n: "unat n = unat a + 48 + unat z" and z: "8 dvd unat z" and le: "unat z + 48 \<le> unat (hsize (H a))"
    and sz: "\<And>c. c \<in> set (xs @ a # n # ys) \<Longrightarrow> hsize (H' c) =
       (if c = a then z else if c = n then hsize (H a) - z - 48 else hsize (H c))"
    and nx: "\<And>c. c \<in> set (xs @ a # n # ys) \<Longrightarrow> hnext (H' c) =
       (if c = a then n else if c = n then hnext (H a) else hnext (H c))"
    and pv: "\<And>c. c \<in> set (xs @ a # n # ys) \<Longrightarrow> hprev (H' c) =
       (if c = n then a else if c = hnext (H a) then n else hprev (H c))"
    and nz: "NULL \<notin> set (xs @ a # ys)"
  shows "block_list H' first (if hnext (H a) = NULL then n else final) (xs @ a # n # ys) lo hi"
proof -
  let ?S = "hsize \<circ> H" and ?S' = "hsize \<circ> H'"
  have T: "tiles ?S lo (xs @ a # ys) hi" and D: "dseg (hnext \<circ> H) (hprev \<circ> H) NULL ((xs @ [a]) @ ys) NULL"
    using B by (simp_all add: block_list_def)
  have dis: "distinct (xs @ a # ys)" by (rule tiles_distinct [OF T])
  obtain mid where m: "tiles ?S lo xs mid" "unat a = mid" "8 dvd unat (?S a)"
    "tiles ?S (mid + 48 + unat (?S a)) ys hi"
    using T by (auto simp: tiles_append)
  have nin: "n \<notin> set (xs @ a # ys)"
  proof
    assume "n \<in> set (xs @ a # ys)"
    moreover have "n \<noteq> a" using n by auto
    moreover have "n \<notin> set xs" using tiles_in [OF m(1), of n] n m(2) by auto
    ultimately show False using tiles_in [OF m(4), of n] n m(2) le by auto
  qed
  have zr: "unat (hsize (H a) - z - 48) = unat (?S a) - unat z - 48"
    using le by (simp add: unat_sub_if')
  have "tiles ?S' lo xs mid = tiles ?S lo xs mid" using dis sz nin by (intro tiles_cong) auto
  moreover have "tiles ?S' (mid + 48 + unat (?S a)) ys hi = tiles ?S (mid + 48 + unat (?S a)) ys hi"
    using dis sz nin by (intro tiles_cong) auto
  moreover have "8 dvd unat (?S a) - unat z - 48" using m(3) z by (intro dvd_diff_nat) simp_all
  moreover have "hsize (H' a) = z" "hsize (H' n) = hsize (H a) - z - 48" using sz nin by auto
  ultimately have "tiles ?S' lo (xs @ a # n # ys) hi"
    using m n z zr le by (auto simp: tiles_append ac_simps)
  moreover have "dseg (hnext \<circ> H') (hprev \<circ> H') NULL ((xs @ [a]) @ n # ys) NULL"
  proof (rule dseg_insert [OF D])
    have h: "hnext (H a) = (if ys = [] then NULL else hd ys)" using block_list_links(2) [OF B] .
    show "distinct ((xs @ [a]) @ ys)" "n \<notin> set (xs @ [a])" "n \<notin> set ys" using dis nin by simp_all
    show "(hnext \<circ> H') n = (if ys = [] then NULL else hd ys)"
      "(hprev \<circ> H') n = (if xs @ [a] = [] then NULL else last (xs @ [a]))"
      using nx [of n] pv [of n] nin h by auto
    fix c assume "c \<in> set (xs @ [a]) \<union> set ys"
    then have "c \<in> set (xs @ a # n # ys)" "c \<noteq> NULL" "c \<noteq> n" using nz nin by auto
    then show "(hnext \<circ> H') c = (if xs @ [a] \<noteq> [] \<and> c = last (xs @ [a]) then n else (hnext \<circ> H) c)"
      "(hprev \<circ> H') c = (if ys \<noteq> [] \<and> c = hd ys then n else (hprev \<circ> H) c)"
      using nx [of c] pv [of c] h by simp_all
  qed
  moreover have "hnext (H a) = NULL \<longleftrightarrow> ys = []"
    using block_list_links(2) [OF B] nz by (cases ys) auto
  ultimately show ?thesis using B by (auto simp: block_list_def hd_append)
qed

lemma block_list_snoc:
  assumes B: "block_list H first final as lo hi" and f: "unat f = hi" "f \<noteq> NULL"
    and z: "unat (hsize (H' f)) + 48 = 4096" and fl: "hnext (H' f) = NULL" "hprev (H' f) = final"
    and sz: "\<And>c. c \<in> set as \<Longrightarrow> hsize (H' c) = hsize (H c)"
    and nx: "\<And>c. c \<in> set as \<Longrightarrow> hnext (H' c) = (if c = final then f else hnext (H c))"
    and pv: "\<And>c. c \<in> set as \<Longrightarrow> hprev (H' c) = hprev (H c)" and nz: "NULL \<notin> set as"
  shows "block_list H' (if final = NULL then f else first) f (as @ [f]) lo (hi + 4096)"
proof -
  let ?S = "hsize \<circ> H" and ?S' = "hsize \<circ> H'"
  have T: "tiles ?S lo as hi" and D: "dseg (hnext \<circ> H) (hprev \<circ> H) NULL (as @ []) NULL"
    using B by (simp_all add: block_list_def)
  have nin: "f \<notin> set as" using tiles_in [OF T, of f] f by auto
  have s: "unat (hsize (H' f)) = 4048" using z by simp
  have "tiles ?S' lo as hi = tiles ?S lo as hi" using sz by (intro tiles_cong) auto
  then have "tiles ?S' lo (as @ [f]) (hi + 4096)" using T f s by (auto simp: tiles_append)
  moreover have "dseg (hnext \<circ> H') (hprev \<circ> H') NULL (as @ f # []) NULL"
    by (rule dseg_insert [OF D]) (use tiles_distinct [OF T] nin B nx pv fl in \<open>auto simp: block_list_def\<close>)
  moreover have "final = NULL \<longleftrightarrow> as = []"
    using B nz by (cases as rule: rev_cases) (auto simp: block_list_def)
  ultimately show ?thesis using B by (auto simp: block_list_def)
qed

end
