(* ===== verification/Kheap_Inv.thy ===== *)
theory Kheap_Inv
  imports Kheap_Shape
begin

text \<open>
  The heap invariant.  \<open>heap_wf s as P lo hi\<close> says that the blocks \<open>as\<close> tile \<open>[lo, hi)\<close> and are
  linked in address order between \<open>heap_start\<close> and \<open>heap_end\<close>, and that the free blocks, less
  the pending ones \<open>P\<close>, are threaded on well-formed free lists of which \<open>free_list_head\<close> heads
  one (or is \<open>NULL\<close>).  Several lists, because \<open>expand_heap\<close> puts only the first of its pages on the
  list: every other page is a list of its own until a neighbour absorbs it.  \<open>only_in\<close> and
  \<open>heap_only\<close> bound what an operation writes.  \<open>chunks\<close> is the abstract view of the blocks: address,
  size, free or not.
\<close>

definition heap_wf :: "'a kheap_state_scheme \<Rightarrow> u64 list \<Rightarrow> u64 set \<Rightarrow> nat \<Rightarrow> nat \<Rightarrow> bool" where
  "heap_wf s as P lo hi \<longleftrightarrow>
     block_list (blk (mem s)) (heap_start s) (heap_end s) as lo hi \<and>
     0 < lo \<and> 8 dvd lo \<and> hi \<le> 0x80000000 \<and>
     (\<exists>cs. chains (blk (mem s)) (free_list_head s) cs \<and>
        set (concat cs) = {a \<in> set as. is_free (blk (mem s) a)} - P)"

definition heap_only :: "'a kheap_state_scheme \<Rightarrow> 'a kheap_state_scheme \<Rightarrow> bool" where
  "heap_only s s' \<longleftrightarrow> s' = s\<lparr>mem := mem s', uart := uart s', free_list_head := free_list_head s',
     heap_start := heap_start s', heap_end := heap_end s'\<rparr>"

lemma heap_only_refl [simp]: "heap_only s s"
  by (simp add: heap_only_def)

lemma heap_only_trans: "heap_only s t \<Longrightarrow> heap_only t u \<Longrightarrow> heap_only s u"
  by (cases s, cases t, cases u) (simp add: heap_only_def)

lemma heap_only_upd:
  "heap_only s t \<Longrightarrow> heap_only s (t\<lparr>mem := m\<rparr>)" "heap_only s t \<Longrightarrow> heap_only s (t\<lparr>uart := u\<rparr>)"
  by (cases s, cases t, simp add: heap_only_def)+

lemma heap_only_uart: "heap_only (s\<lparr>uart := u\<rparr>) t \<Longrightarrow> heap_only s t"
  by (cases s, cases t) (simp add: heap_only_def)

lemma heap_wf_tiles: "heap_wf s as P lo hi \<Longrightarrow> tiles (hsize \<circ> blk (mem s)) lo as hi"
  by (simp add: heap_wf_def block_list_def)

lemma heap_wf_sepset: "heap_wf s as P lo hi \<Longrightarrow> sepset (set as)"
  by (auto simp: heap_wf_def block_list_def intro!: tiles_sepset)

lemma heap_wf_nz: "heap_wf s as P lo hi \<Longrightarrow> a \<in> set as \<Longrightarrow> a \<noteq> NULL"
  using heap_wf_sepset sepsetD(2) by blast

lemma heap_wf_uart: "heap_wf (s\<lparr>uart := u\<rparr>) as P lo hi = heap_wf s as P lo hi"
  by (simp add: heap_wf_def)

text \<open>Taking a free block off its list.\<close>

lemma heap_wf_remove:
  assumes wf: "heap_wf s as P lo hi" and b: "b \<in> set as" "is_free (blk (mem s) b)" "b \<notin> P"
  defines "s' \<equiv> remove_from_free_list b s"
  shows "heap_wf s' as P lo hi" and "only_in (headers (set as)) (mem s) (mem s')" and "heap_only s s'"
    and "uart s' = uart s" and "heap_end s' = heap_end s"
    and "\<And>a. a \<in> set as \<Longrightarrow> hsize (blk (mem s') a) = hsize (blk (mem s) a) \<and>
       hnext (blk (mem s') a) = hnext (blk (mem s) a) \<and> hprev (blk (mem s') a) = hprev (blk (mem s) a) \<and>
       (is_free (blk (mem s') a) \<longleftrightarrow> a \<noteq> b \<and> is_free (blk (mem s) a))"
proof -
  let ?H = "blk (mem s)"
  define p n where "p = prev_free (?H b)" and "n = next_free (?H b)"
  have A: "sepset (set as)" by (rule heap_wf_sepset [OF wf])
  obtain cs where C: "chains ?H (free_list_head s) cs" "set (concat cs) = {a \<in> set as. is_free (?H a)} - P"
    using wf by (auto simp: heap_wf_def)
  then have bc: "b \<in> set (concat cs)" using b by auto
  have pn: "p \<in> insert NULL (set as - {b})" "n \<in> insert NULL (set as - {b})"
    using chains_links [OF C(1) bc] C(2) by (auto simp: p_def n_def)
  note view = remove_view [OF A b(1) _ p_def pn(1) n_def pn(2)]
  note st = remove_mem [OF A b(1) p_def pn(1) n_def pn(2)]
  show "only_in (headers (set as)) (mem s) (mem s')"
    unfolding s'_def by (rule remove_frame [OF A b(1) p_def pn(1) n_def pn(2)])
  show only: "heap_only s s'" "uart s' = uart s" and ends: "heap_end s' = heap_end s"
    by (simp_all add: s'_def heap_only_def st)
  show hdr: "hsize (blk (mem s') a) = hsize (?H a) \<and> hnext (blk (mem s') a) = hnext (?H a) \<and>
      hprev (blk (mem s') a) = hprev (?H a) \<and> (is_free (blk (mem s') a) \<longleftrightarrow> a \<noteq> b \<and> is_free (?H a))"
    if "a \<in> set as" for a
    using view [OF that] by (simp add: s'_def)
  obtain cs' where C': "chains (blk (mem s')) (if p = NULL then n else free_list_head s) cs'"
    "set (concat cs') = set (concat cs) - {b}"
  proof (rule chains_remove [OF C(1) bc p_def n_def])
    fix a assume "a \<in> set (concat cs) - {b}"
    with C(2) view [of a] show "next_free (blk (mem s') a) = (if a = p then n else next_free (?H a)) \<and>
        prev_free (blk (mem s') a) = (if a = n then p else prev_free (?H a))"
      by (auto simp: s'_def)
  qed
  have "free_list_head s' = (if p = NULL then n else free_list_head s)" "heap_start s' = heap_start s"
    by (simp_all add: s'_def st)
  moreover have "block_list (blk (mem s')) (heap_start s) (heap_end s) as lo hi"
    using wf hdr by (subst block_list_cong [of as _ ?H]) (auto simp: heap_wf_def)
  moreover have "set (concat cs') = {a \<in> set as. is_free (blk (mem s') a)} - P" using C'(2) C(2) hdr by auto
  ultimately show "heap_wf s' as P lo hi" using wf C'(1) ends by (auto simp: heap_wf_def)
qed

text \<open>Putting a block on the list.\<close>

lemma heap_wf_add:
  assumes wf: "heap_wf s as P lo hi" and b: "b \<in> set as" "is_free (blk (mem s) b) \<longrightarrow> b \<in> P"
  defines "s' \<equiv> add_to_free_list b s"
  shows "heap_wf s' as (P - {b}) lo hi" and "only_in (headers (set as)) (mem s) (mem s')" and "heap_only s s'"
    and "uart s' = uart s" and "heap_end s' = heap_end s"
    and "\<And>a. a \<in> set as \<Longrightarrow> hsize (blk (mem s') a) = hsize (blk (mem s) a) \<and>
       hnext (blk (mem s') a) = hnext (blk (mem s) a) \<and> hprev (blk (mem s') a) = hprev (blk (mem s) a) \<and>
       (is_free (blk (mem s') a) \<longleftrightarrow> a = b \<or> is_free (blk (mem s) a))"
proof -
  let ?H = "blk (mem s)"
  have A: "sepset (set as)" by (rule heap_wf_sepset [OF wf])
  obtain cs where C: "chains ?H (free_list_head s) cs" "set (concat cs) = {a \<in> set as. is_free (?H a)} - P"
    using wf by (auto simp: heap_wf_def)
  then have bc: "b \<notin> set (concat cs)" using b by auto
  have h: "free_list_head s \<in> insert NULL (set as - {b})"
    using chains_head [OF C(1)] C(2) bc by auto
  note view = add_view [OF A b(1) _ h]
  show "only_in (headers (set as)) (mem s) (mem s')"
    unfolding s'_def by (rule add_frame [OF b(1)]) (use h in auto)
  show only: "heap_only s s'" "uart s' = uart s" and ends: "heap_end s' = heap_end s"
    by (simp_all add: s'_def heap_only_def add_to_free_list_def Let_def)
  show hdr: "hsize (blk (mem s') a) = hsize (?H a) \<and> hnext (blk (mem s') a) = hnext (?H a) \<and>
      hprev (blk (mem s') a) = hprev (?H a) \<and> (is_free (blk (mem s') a) \<longleftrightarrow> a = b \<or> is_free (?H a))"
    if "a \<in> set as" for a
    using view [OF that] by (simp add: s'_def)
  have nz: "b \<noteq> NULL" by (rule sepsetD(2) [OF A b(1)])
  have Hb: "next_free (blk (mem s') b) = free_list_head s" "prev_free (blk (mem s') b) = NULL"
    using view [OF b(1)] by (simp_all add: s'_def)
  obtain cs' where C': "chains (blk (mem s')) b cs'" "set (concat cs') = insert b (set (concat cs))"
  proof (rule chains_add [where H' = "blk (mem s')", OF C(1) bc nz Hb])
    fix a assume a: "a \<in> set (concat cs)"
    then have "a \<noteq> b" "a \<in> set as" using bc C(2) by auto
    with view [of a] show "next_free (blk (mem s') a) = next_free (?H a) \<and>
        prev_free (blk (mem s') a) = (if a = free_list_head s then b else prev_free (?H a))"
      by (simp add: s'_def)
  qed
  have "free_list_head s' = b" "heap_start s' = heap_start s"
    by (simp_all add: s'_def add_to_free_list_def Let_def)
  moreover have "block_list (blk (mem s')) (heap_start s) (heap_end s) as lo hi"
    using wf hdr by (subst block_list_cong [of as _ ?H]) (auto simp: heap_wf_def)
  moreover have "set (concat cs') = {a \<in> set as. is_free (blk (mem s') a)} - (P - {b})"
    using C'(2) C(2) hdr b by auto
  ultimately show "heap_wf s' as (P - {b}) lo hi" using wf C'(1) ends by (auto simp: heap_wf_def)
qed

text \<open>Only the headers of the blocks matter.\<close>

lemma heap_wf_mem:
  assumes eq: "\<And>a. a \<in> set as \<Longrightarrow> blk m' a = blk (mem s) a"
  shows "heap_wf (s\<lparr>mem := m'\<rparr>) as P lo hi = heap_wf s as P lo hi"
proof -
  let ?F = "{a \<in> set as. is_free (blk (mem s) a)} - P"
  have B: "block_list (blk m') (heap_start s) (heap_end s) as lo hi
      = block_list (blk (mem s)) (heap_start s) (heap_end s) as lo hi"
    by (rule block_list_cong) (simp add: eq)
  have C: "chains (blk m') (free_list_head s) cs = chains (blk (mem s)) (free_list_head s) cs"
    if "set (concat cs) = ?F" for cs
    by (rule chains_cong) (simp only: that, simp add: eq)
  have F: "{a \<in> set as. is_free (blk m' a)} - P = ?F" using eq by auto
  have "(\<exists>cs. chains (blk m') (free_list_head s) cs \<and> set (concat cs) = ?F)
      = (\<exists>cs. chains (blk (mem s)) (free_list_head s) cs \<and> set (concat cs) = ?F)"
    using C by blast
  then show ?thesis by (simp add: heap_wf_def B F del: set_concat)
qed

text \<open>Two neighbours become one, in the order of stores that expansion and both directions of
  coalescing share.\<close>

definition absorb :: "u64 \<Rightarrow> u64 \<Rightarrow> 'a kheap_state_scheme \<Rightarrow> 'a kheap_state_scheme" where
  "absorb a b s =
     (let m = put_size a (hsize (blk (mem s) a) + (hsize (blk (mem s) b) + HEAP_HEADER_SIZE)) (mem s);
          nx = hnext (blk (mem s) b);
          m = put_next a nx m;
          m = (if nx \<noteq> NULL then put_prev nx a m else m)
      in s\<lparr>mem := m, heap_end := if heap_end s = b then a else heap_end s\<rparr>)"

lemma absorb_view:
  assumes A: "sepset A" "a \<in> A" "c \<in> A" and n: "n = hnext (blk (mem s) b)" "n \<in> insert NULL (A - {a})"
  shows "blk (mem (absorb a b s)) c = (blk (mem s) c)\<lparr>
     hsize := if c = a then hsize (blk (mem s) a) + (hsize (blk (mem s) b) + 48) else hsize (blk (mem s) c),
     hnext := if c = a then n else hnext (blk (mem s) c),
     hprev := if c = n then a else hprev (blk (mem s) c)\<rparr>"
proof -
  define m1 where "m1 = put_next a n (put_size a (hsize (blk (mem s) a) + (hsize (blk (mem s) b) + 48)) (mem s))"
  have sa: "sep a c" "c \<noteq> NULL" using sepsetD [OF A(1)] A by blast+
  have sn: "n \<noteq> NULL \<Longrightarrow> sep n c" "n \<noteq> a" using sepsetD [OF A(1)] A n(2) by blast+
  have "blk m1 c = (if c = a then (blk (mem s) a)\<lparr>hsize := hsize (blk (mem s) a) + (hsize (blk (mem s) b) + 48),
     hnext := n\<rparr> else blk (mem s) c)"
    using sa by (simp add: m1_def blk_put)
  moreover have "mem (absorb a b s) = (if n \<noteq> NULL then put_prev n a m1 else m1)"
    by (simp add: absorb_def Let_def m1_def n(1) HEAP_HEADER_SIZE_def)
  then have "blk (mem (absorb a b s)) c = (if c = n then (blk m1 c)\<lparr>hprev := a\<rparr> else blk m1 c)"
    using sn sa by (simp add: blk_put)
  ultimately show ?thesis using sn by auto
qed

lemma heap_wf_absorb:
  assumes wf: "heap_wf s (xs @ a # b # ys) P lo hi"
    and b: "is_free (blk (mem s) b) \<longrightarrow> b \<in> P"
  defines "s' \<equiv> absorb a b s"
  shows "heap_wf s' (xs @ a # ys) P lo hi" and "only_in (headers (set (xs @ a # b # ys))) (mem s) (mem s')"
    and "heap_only s s'" and "uart s' = uart s"
    and "\<And>c. c \<in> set (xs @ a # ys) \<Longrightarrow> is_free (blk (mem s') c) = is_free (blk (mem s) c) \<and>
       hsize (blk (mem s') c) =
       (if c = a then hsize (blk (mem s) a) + (hsize (blk (mem s) b) + 48) else hsize (blk (mem s) c))"
proof -
  let ?H = "blk (mem s)" and ?as = "xs @ a # b # ys"
  define n where "n = hnext (?H b)"
  have A: "sepset (set ?as)" by (rule heap_wf_sepset [OF wf])
  have B: "block_list ?H (heap_start s) (heap_end s) ?as lo hi" using wf by (simp add: heap_wf_def)
  have dis: "distinct ?as" using tiles_distinct [OF heap_wf_tiles [OF wf]] .
  have n: "n = (if ys = [] then NULL else hd ys)"
    using block_list_links(2) [of ?H _ _ "xs @ [a]" b ys] B by (simp add: n_def)
  then have nA: "n \<in> insert NULL (set ?as - {a})" using dis by (auto dest: hd_in_set)
  have aA: "a \<in> set ?as" by simp
  note view = absorb_view [OF A aA _ n_def nA]
  show "only_in (headers (set ?as)) (mem s) (mem s')"
    unfolding s'_def using nA by (auto simp: absorb_def Let_def n_def intro!: only_in_put)
  show "heap_only s s'" "uart s' = uart s" by (simp_all add: s'_def absorb_def Let_def heap_only_def)
  show hdr: "is_free (blk (mem s') c) = is_free (?H c) \<and>
      hsize (blk (mem s') c) = (if c = a then hsize (?H a) + (hsize (?H b) + 48) else hsize (?H c))"
    if "c \<in> set (xs @ a # ys)" for c
    using view [of c] that by (auto simp: s'_def)
  have "block_list (blk (mem s')) (heap_start s) (if heap_end s = b then a else heap_end s) (xs @ a # ys) lo hi"
  proof (rule block_list_merge [OF B])
    show "hi < 2 ^ 64" using wf by (simp add: heap_wf_def)
    show "NULL \<notin> set (xs @ a # ys)" using A by (auto simp: sepset_def)
    fix c assume "c \<in> set (xs @ a # ys)"
    with view [of c] show "hsize (blk (mem s') c) = (if c = a then hsize (?H a) + (hsize (?H b) + 48) else hsize (?H c))"
      "hnext (blk (mem s') c) = (if c = a then hnext (?H b) else hnext (?H c))"
      "hprev (blk (mem s') c) = (if c = hnext (?H b) then a else hprev (?H c))"
      by (auto simp: s'_def n_def)
  qed
  moreover obtain cs where C: "chains ?H (free_list_head s) cs" "set (concat cs) = {c \<in> set ?as. is_free (?H c)} - P"
    using wf by (auto simp: heap_wf_def)
  have cin: "set (concat cs) = {c \<in> set (xs @ a # ys). is_free (blk (mem s') c)} - P"
    using C(2) b hdr by auto
  moreover have "chains (blk (mem s')) (free_list_head s) cs"
    using C(1) cin view by (subst chains_cong [of cs _ ?H]) (auto simp: s'_def)
  ultimately show "heap_wf s' (xs @ a # ys) P lo hi"
    using wf unfolding heap_wf_def by (auto simp: s'_def absorb_def Let_def)
qed

lemma heap_wf_pending: "b \<notin> set as \<Longrightarrow> heap_wf s as P lo hi = heap_wf s as (P - {b}) lo hi"
proof -
  assume "b \<notin> set as"
  then have "{a \<in> set as. is_free (blk (mem s) a)} - P = {a \<in> set as. is_free (blk (mem s) a)} - (P - {b})"
    by auto
  then show ?thesis by (simp only: heap_wf_def)
qed

lemma blk_wipe: "sep b a \<Longrightarrow> a \<noteq> b \<Longrightarrow> blk (memset m b 0 HEAP_HEADER_SIZE) a = blk m a"
  using apart_disjoint [of b 48 a 48]
  by (intro blk_cong) (auto simp: sep_def memset_eq HEAP_HEADER_SIZE_def)

text \<open>A free neighbour \<open>b\<close> comes off its list, joins \<open>a\<close> and has its header wiped.  Which of the
  two is free, and which was on a list, differs between the callers.\<close>

lemma heap_wf_join:
  assumes wf: "heap_wf s (xs @ a # b # ys) P lo hi" and b: "is_free (blk (mem s) b) \<longrightarrow> b \<in> P"
  defines "s1 \<equiv> absorb a b s"
  defines "s' \<equiv> s1\<lparr>mem := memset (mem s1) b 0 HEAP_HEADER_SIZE\<rparr>"
  shows "heap_wf s' (xs @ a # ys) P lo hi" and "only_in (headers (set (xs @ a # b # ys))) (mem s) (mem s')"
    and "heap_only s s'" and "uart s' = uart s"
    and "\<And>c. c \<in> set (xs @ a # ys) \<Longrightarrow> is_free (blk (mem s') c) = is_free (blk (mem s) c) \<and>
       hsize (blk (mem s') c) =
       (if c = a then hsize (blk (mem s) a) + (hsize (blk (mem s) b) + 48) else hsize (blk (mem s) c))"
proof -
  note ab = heap_wf_absorb [OF wf b, folded s1_def]
  have A: "sepset (set (xs @ a # b # ys))" by (rule heap_wf_sepset [OF wf])
  have dis: "distinct (xs @ a # b # ys)" by (rule tiles_distinct [OF heap_wf_tiles [OF wf]])
  have eq: "blk (mem s') c = blk (mem s1) c" if "c \<in> set (xs @ a # ys)" for c
    using that dis sepsetD(1) [OF A, of b c] unfolding s'_def by (auto intro!: blk_wipe)
  show "heap_wf s' (xs @ a # ys) P lo hi"
    using ab(1) eq heap_wf_mem [of "xs @ a # ys" "mem s'" s1] by (simp add: s'_def)
  show "only_in (headers (set (xs @ a # b # ys))) (mem s) (mem s')"
    using ab(2) by (auto simp: only_in_def s'_def memset_eq HEAP_HEADER_SIZE_def headers_def)
  show "heap_only s s'" "uart s' = uart s"
    using ab(3,4) by (simp_all add: heap_only_upd s'_def)
  show "is_free (blk (mem s') c) = is_free (blk (mem s) c) \<and> hsize (blk (mem s') c) =
       (if c = a then hsize (blk (mem s) a) + (hsize (blk (mem s) b) + 48) else hsize (blk (mem s) c))"
    if "c \<in> set (xs @ a # ys)" for c
    using ab(5) [OF that] eq [OF that] by simp
qed

lemma heap_fits:
  "fits ''KHeap: Expanding heap by %zu pages\<newline>'' [VA a]"
  "fits ''KHeap Error: Failed to allocate frame during expansion!\<newline>'' []"
  "fits ''KHeap: Coalescing forward %p (%zu) with %p (%zu)\<newline>'' [VA a, VA b, VA c, VA d]"
  "fits ''KHeap: Coalescing backward %p (%zu) with %p (%zu)\<newline>'' [VA a, VA b, VA c, VA d]"
  "fits ''KHeap: Initialized.\<newline>'' []"
  "fits ''KHeap: Split block %p. Allocated %zu, remaining %zu at %p\<newline>'' [VA a, VA b, VA c, VA d]"
  "fits ''KHeap: Allocated whole block %p (%zu) for size %zu\<newline>'' [VA a, VA b, VA c]"
  "fits ''KHeap Error: Failed to expand heap for allocation of size %zu\<newline>'' [VA a]"
  "fits ''KHeap Error: Still no suitable block after expansion!\<newline>'' []"
  "fits ''KHeap Warning: Double free detected for pointer %p\<newline>'' [VA a]"
  "fits ''KHeap: kfree(%p) - block %p, size %zu\<newline>'' [VA a, VA b, VA c]"
  "fits ''KHeap: Added block %p (%zu) to free list\<newline>'' [VA a, VA b]"
  "fits ''KHeap: Added coalesced block %p (%zu) to free list\<newline>'' [VA a, VA b]"
  by (simp_all add: fits_def modifiers_def)

text \<open>The console changes and nothing else.\<close>

lemma kprint_heap:
  assumes "fits f args" and "tx_drains (uart s)"
  obtains u where "kprint f args s = Some (s\<lparr>uart := u\<rparr>)" and "tx_drains u"
  using kprint_fits [OF assms] by simp

type_synonym chunk = "u64 \<times> u64 \<times> bool"

definition chunks :: "mem \<Rightarrow> u64 list \<Rightarrow> chunk list" where
  "chunks m as = map (\<lambda>a. (a, hsize (blk m a), is_free (blk m a))) as"

lemma chunks_simps [simp]:
  "chunks m [] = []"
  "chunks m (a # as) = (a, hsize (blk m a), is_free (blk m a)) # chunks m as"
  "chunks m (as @ bs) = chunks m as @ chunks m bs"
  "length (chunks m as) = length as"
  "map fst (chunks m as) = as"
  by (simp_all add: chunks_def comp_def)

lemma chunks_cong:
  "(\<And>a. a \<in> set as \<Longrightarrow> is_free (blk m' a) = is_free (blk m a) \<and> hsize (blk m' a) = hsize (blk m a)) \<Longrightarrow>
   chunks m' as = chunks m as"
  by (simp add: chunks_def)

end
