(* ===== verification/Kheap_Free.thy ===== *)
theory Kheap_Free
  imports Kheap_Inv
begin

text \<open>
  Release.  \<open>free_chunk\<close> is the abstract operation: the released block joins a free successor
  and a free predecessor.  \<open>kfree_wf\<close> shows that \<open>kfree\<close> implements it on every well-formed
  heap, keeps the heap well formed and writes block headers only.
\<close>

lemma coalesce_absorb:
  assumes "sep a b" and "a \<noteq> b"
  shows "(let m = put_size a (hsize (blk (mem s) a) + (hsize (blk (mem s) b) + HEAP_HEADER_SIZE)) (mem s);
       m = put_next a (hnext (blk m b)) m; nx = hnext (blk m a);
       m = (if nx \<noteq> NULL then put_prev nx a m else m);
       s = (if heap_end s = b then s\<lparr>heap_end := a\<rparr> else s)
     in s\<lparr>mem := memset m b 0 HEAP_HEADER_SIZE\<rparr>)
   = (absorb a b s)\<lparr>mem := memset (mem (absorb a b s)) b 0 HEAP_HEADER_SIZE\<rparr>"
  using assms by (simp add: absorb_def Let_def blk_put)

lemma coalesce_next_wf:
  assumes wf: "heap_wf s (xs @ a # ys) {a} lo hi" and tx: "tx_drains (uart s)"
  obtains s' ys' where "coalesce_next a s = Some s'" and "heap_wf s' (xs @ a # ys') {a} lo hi"
    and "only_in (headers (set (xs @ a # ys))) (mem s) (mem s')" and "heap_only s s'" and "tx_drains (uart s')"
    and "(ys', hsize (blk (mem s') a)) = (if ys \<noteq> [] \<and> is_free (blk (mem s) (hd ys))
      then (tl ys, hsize (blk (mem s) a) + (hsize (blk (mem s) (hd ys)) + 48)) else (ys, hsize (blk (mem s) a)))"
    and "chunks (mem s') (xs @ ys') = chunks (mem s) (xs @ ys')"
    and "is_free (blk (mem s') a) = is_free (blk (mem s) a)"
proof -
  let ?H = "blk (mem s)"
  have nx: "hnext (?H a) = (if ys = [] then NULL else hd ys)"
    using wf block_list_links(2) [of ?H _ _ xs a ys] by (auto simp: heap_wf_def)
  show thesis
  proof (cases "ys \<noteq> [] \<and> is_free (?H (hd ys))")
    case False
    then have "coalesce_next a s = Some s" using nx by (auto simp: coalesce_next_def)
    with False that [OF _ wf] tx show thesis by (auto simp: chunks_def)
  next
    case True
    then obtain b zs where ys: "ys = b # zs" by (cases ys) auto
    have bf: "is_free (?H b)" using True ys by simp
    have bz: "b \<noteq> NULL" by (rule heap_wf_nz [OF wf]) (simp add: ys)
    have dis: "distinct (xs @ a # b # zs)" using tiles_distinct [OF heap_wf_tiles [OF wf]] ys by simp
    obtain u where u: "kprint ''KHeap: Coalescing forward %p (%zu) with %p (%zu)\<newline>''
        [VA a, VA (hsize (?H a)), VA b, VA (hsize (?H b))] s = Some (s\<lparr>uart := u\<rparr>)" "tx_drains u"
      by (rule kprint_heap [OF heap_fits(3) tx])
    define t where "t = remove_from_free_list b (s\<lparr>uart := u\<rparr>)"
    have wfu: "heap_wf (s\<lparr>uart := u\<rparr>) (xs @ a # b # zs) {a} lo hi" using wf ys by (simp add: heap_wf_uart)
    have b: "b \<in> set (xs @ a # b # zs)" "is_free (blk (mem (s\<lparr>uart := u\<rparr>)) b)" "b \<notin> {a}" using bf dis by auto
    note rem = heap_wf_remove [OF wfu b, folded t_def]
    define t' where "t' = (absorb a b t)\<lparr>mem := memset (mem (absorb a b t)) b 0 HEAP_HEADER_SIZE\<rparr>"
    have nfree: "is_free (blk (mem t) b) \<longrightarrow> b \<in> {a}" using rem(6) [OF b(1)] by simp
    note join = heap_wf_join [OF rem(1) nfree, folded t'_def]
    have "sep a b" "a \<noteq> b" using sepsetD(1) [OF heap_wf_sepset [OF wf]] dis by (auto simp: ys)
    note ab = coalesce_absorb [OF this, symmetric]
    have "coalesce_next a s = Some t'"
      using nx bf bz u(1) ys unfolding t'_def ab by (simp add: coalesce_next_def Let_def t_def)
    moreover have "only_in (headers (set (xs @ a # ys))) (mem s) (mem t')"
      using only_in_trans [OF rem(2) join(2)] ys by simp
    moreover have "heap_only s t'" "uart t' = u"
      using heap_only_trans [OF heap_only_uart [OF rem(3)] join(3)] rem(4) join(4) by simp_all
    moreover have "chunks (mem t') (xs @ zs) = chunks (mem s) (xs @ zs)"
      by (rule chunks_cong) (use join(5) rem(6) dis in auto)
    ultimately show thesis
      using that [of t' zs] join(1) join(5) [of a] rem(6) [of a] rem(6) [of b] True u(2) dis by (simp add: ys)
  qed
qed

lemma coalesce_prev_wf:
  assumes wf: "heap_wf s (xs @ a # ys) {a} lo hi" and tx: "tx_drains (uart s)"
  obtains s' b xs' where "coalesce_prev a s = Some (b, s')" and "heap_wf s' (xs' @ b # ys) {a} lo hi"
    and "only_in (headers (set (xs @ a # ys))) (mem s) (mem s')" and "heap_only s s'" and "tx_drains (uart s')"
    and "(xs', b, hsize (blk (mem s') b)) = (if xs \<noteq> [] \<and> is_free (blk (mem s) (last xs))
      then (butlast xs, last xs, hsize (blk (mem s) (last xs)) + (hsize (blk (mem s) a) + 48))
      else (xs, a, hsize (blk (mem s) a)))"
    and "chunks (mem s') (xs' @ ys) = chunks (mem s) (xs' @ ys)"
    and "b \<noteq> a \<longrightarrow> \<not> is_free (blk (mem s') b)"
proof -
  let ?H = "blk (mem s)"
  have pv: "hprev (?H a) = (if xs = [] then NULL else last xs)"
    using wf block_list_links(1) [of ?H _ _ xs a ys] by (auto simp: heap_wf_def)
  show thesis
  proof (cases "xs \<noteq> [] \<and> is_free (?H (last xs))")
    case False
    then have "coalesce_prev a s = Some (a, s)" using pv by (auto simp: coalesce_prev_def)
    with False that [OF _ wf] tx show thesis by (auto simp: chunks_def)
  next
    case True
    then obtain p ws where xs: "xs = ws @ [p]" by (cases xs rule: rev_cases) auto
    have pf: "is_free (?H p)" using True xs by simp
    have pz: "p \<noteq> NULL" by (rule heap_wf_nz [OF wf]) (simp add: xs)
    have dis: "distinct (ws @ p # a # ys)" using tiles_distinct [OF heap_wf_tiles [OF wf]] xs by simp
    obtain u where u: "kprint ''KHeap: Coalescing backward %p (%zu) with %p (%zu)\<newline>''
        [VA p, VA (hsize (?H p)), VA a, VA (hsize (?H a))] s = Some (s\<lparr>uart := u\<rparr>)" "tx_drains u"
      by (rule kprint_heap [OF heap_fits(4) tx])
    define t where "t = remove_from_free_list p (s\<lparr>uart := u\<rparr>)"
    have wfu: "heap_wf (s\<lparr>uart := u\<rparr>) (ws @ p # a # ys) {a} lo hi" using wf xs by (simp add: heap_wf_uart)
    have b: "p \<in> set (ws @ p # a # ys)" "is_free (blk (mem (s\<lparr>uart := u\<rparr>)) p)" "p \<notin> {a}" using pf dis by auto
    note rem = heap_wf_remove [OF wfu b, folded t_def]
    define t' where "t' = (absorb p a t)\<lparr>mem := memset (mem (absorb p a t)) a 0 HEAP_HEADER_SIZE\<rparr>"
    have nfree: "is_free (blk (mem t) a) \<longrightarrow> a \<in> {a}" by simp
    note join = heap_wf_join [OF rem(1) nfree, folded t'_def]
    have "sep p a" "p \<noteq> a" using sepsetD(1) [OF heap_wf_sepset [OF wf]] dis by (auto simp: xs)
    note ab = coalesce_absorb [OF this, symmetric]
    have "coalesce_prev a s = Some (p, t')"
      using pv pf pz u(1) xs unfolding t'_def ab by (simp add: coalesce_prev_def Let_def t_def)
    moreover have "only_in (headers (set (xs @ a # ys))) (mem s) (mem t')"
      using only_in_trans [OF rem(2) join(2)] xs by simp
    moreover have "heap_only s t'" "uart t' = u"
      using heap_only_trans [OF heap_only_uart [OF rem(3)] join(3)] rem(4) join(4) by simp_all
    moreover have "chunks (mem t') (ws @ ys) = chunks (mem s) (ws @ ys)"
      by (rule chunks_cong) (use join(5) rem(6) dis in auto)
    ultimately show thesis
      using that [of p t' ws] join(1) join(5) [of p] rem(6) [of a] rem(6) [of p] True u(2) dis by (simp add: xs)
  qed
qed

definition free_chunk :: "chunk list \<Rightarrow> u64 \<Rightarrow> u64 \<Rightarrow> chunk list \<Rightarrow> chunk list" where
  "free_chunk xs a n ys =
     (let (n, ys) = (case ys of (b, k, True) # zs \<Rightarrow> (n + (k + 48), zs) | _ \<Rightarrow> (n, ys))
      in case rev xs of (p, k, True) # ws \<Rightarrow> rev ws @ (p, k + (n + 48), True) # ys
         | _ \<Rightarrow> xs @ (a, n, True) # ys)"

lemma heap_wf_mark:
  assumes wf: "heap_wf s as P lo hi" and b: "b \<in> set as" "\<not> is_free (blk (mem s) b)"
  shows "heap_wf (s\<lparr>mem := put_is_free b True (mem s)\<rparr>) as (insert b P) lo hi"
proof -
  let ?m = "put_is_free b True (mem s)"
  have view: "blk ?m a = (if a = b then (blk (mem s) b)\<lparr>is_free := True\<rparr> else blk (mem s) a)" if "a \<in> set as" for a
    using that b(1) sepsetD(1) [OF heap_wf_sepset [OF wf]] by (simp add: blk_put)
  have "block_list (blk ?m) (heap_start s) (heap_end s) as lo hi
      = block_list (blk (mem s)) (heap_start s) (heap_end s) as lo hi"
    by (rule block_list_cong) (simp add: view)
  moreover obtain cs where C: "chains (blk (mem s)) (free_list_head s) cs"
    "set (concat cs) = {a \<in> set as. is_free (blk (mem s) a)} - P"
    using wf by (auto simp: heap_wf_def)
  moreover have "chains (blk ?m) (free_list_head s) cs = chains (blk (mem s)) (free_list_head s) cs"
    by (rule chains_cong) (simp only: C(2), simp add: view)
  moreover have "set (concat cs) = {a \<in> set as. is_free (blk ?m a)} - insert b P"
    unfolding C(2) using b view by auto
  ultimately show ?thesis using wf unfolding heap_wf_def by auto
qed

lemma heap_wf_data_ptr:
  assumes "heap_wf s as P lo hi" and "a \<in> set as"
  shows "unat (a + 48) = unat a + 48" and "a + 48 \<noteq> NULL"
proof -
  show u: "unat (a + 48) = unat a + 48"
    using tiles_in [OF heap_wf_tiles [OF assms(1)] assms(2)] assms(1)
    by (simp add: heap_wf_def unat_word_ariths)
  show "a + 48 \<noteq> NULL" using u by (metis add_is_0 unat_0 zero_neq_numeral)
qed

lemma headers_mono: "A \<subseteq> B \<Longrightarrow> headers A \<subseteq> headers B"
  by (auto simp: headers_def)

lemma chunks_last: "xs \<noteq> [] \<Longrightarrow> chunks m xs = chunks m (butlast xs) @ [(last xs, hsize (blk m (last xs)), is_free (blk m (last xs)))]"
  by (cases xs rule: rev_cases) simp_all

lemma free_chunk_eq:
  "free_chunk (chunks m xs) a n (chunks m ys) =
     (let (n, ys) = (if ys \<noteq> [] \<and> is_free (blk m (hd ys)) then (n + (hsize (blk m (hd ys)) + 48), tl ys) else (n, ys))
      in if xs \<noteq> [] \<and> is_free (blk m (last xs))
         then chunks m (butlast xs) @ (last xs, hsize (blk m (last xs)) + (n + 48), True) # chunks m ys
         else chunks m xs @ (a, n, True) # chunks m ys)"
  by (cases ys; cases xs rule: rev_cases) (auto simp: free_chunk_def Let_def)

lemma coalesce_wf:
  assumes wf: "heap_wf s (xs @ a # ys) {a} lo hi" and fr: "is_free (blk (mem s) a)" and tx: "tx_drains (uart s)"
  obtains s' xs' b ys' where "coalesce a s = Some (b, s')" and "heap_wf s' (xs' @ b # ys') {a} lo hi"
    and "is_free (blk (mem s') b) \<longrightarrow> b = a" and "a \<notin> set (xs' @ ys')"
    and "set (xs' @ b # ys') \<subseteq> set (xs @ a # ys)"
    and "only_in (headers (set (xs @ a # ys))) (mem s) (mem s')" and "heap_only s s'" and "tx_drains (uart s')"
    and "chunks (mem s') xs' @ (b, hsize (blk (mem s') b), True) # chunks (mem s') ys' =
       free_chunk (chunks (mem s) xs) a (hsize (blk (mem s) a)) (chunks (mem s) ys)"
proof -
  let ?as = "xs @ a # ys"
  have dis: "distinct ?as" by (rule tiles_distinct [OF heap_wf_tiles [OF wf]])
  obtain s2 ys' where s2: "coalesce_next a s = Some s2" "heap_wf s2 (xs @ a # ys') {a} lo hi"
    "only_in (headers (set ?as)) (mem s) (mem s2)" "heap_only s s2" "tx_drains (uart s2)"
    "(ys', hsize (blk (mem s2) a)) = (if ys \<noteq> [] \<and> is_free (blk (mem s) (hd ys))
      then (tl ys, hsize (blk (mem s) a) + (hsize (blk (mem s) (hd ys)) + 48)) else (ys, hsize (blk (mem s) a)))"
    "chunks (mem s2) (xs @ ys') = chunks (mem s) (xs @ ys')" "is_free (blk (mem s2) a) = is_free (blk (mem s) a)"
    by (rule coalesce_next_wf [OF wf tx])
  obtain s3 b xs' where s3: "coalesce_prev a s2 = Some (b, s3)" "heap_wf s3 (xs' @ b # ys') {a} lo hi"
    "only_in (headers (set (xs @ a # ys'))) (mem s2) (mem s3)" "heap_only s2 s3" "tx_drains (uart s3)"
    "(xs', b, hsize (blk (mem s3) b)) = (if xs \<noteq> [] \<and> is_free (blk (mem s2) (last xs))
      then (butlast xs, last xs, hsize (blk (mem s2) (last xs)) + (hsize (blk (mem s2) a) + 48))
      else (xs, a, hsize (blk (mem s2) a)))"
    "chunks (mem s3) (xs' @ ys') = chunks (mem s2) (xs' @ ys')" "b \<noteq> a \<longrightarrow> \<not> is_free (blk (mem s3) b)"
    by (rule coalesce_prev_wf [OF s2(2,5)])
  have suby: "set ys' \<subseteq> set ys" using s2(6) by (auto split: if_splits dest: list.set_sel(2))
  have subx: "set xs' \<subseteq> set xs \<and> b \<in> insert a (set xs)" using s3(6) by (auto split: if_splits dest: in_set_butlastD)
  have "a \<noteq> NULL" by (rule heap_wf_nz [OF wf]) simp
  then have "coalesce a s = Some (b, s3)" using fr s2(1) s3(1) by (simp add: coalesce_def)
  moreover have "only_in (headers (set ?as)) (mem s) (mem s3)"
    by (rule only_in_trans [OF s2(3) only_in_mono [OF s3(3) headers_mono]]) (use suby in auto)
  moreover have "chunks (mem s3) xs' @ (b, hsize (blk (mem s3) b), True) # chunks (mem s3) ys' =
       free_chunk (chunks (mem s) xs) a (hsize (blk (mem s) a)) (chunks (mem s) ys)"
  proof -
    have cx: "chunks (mem s2) xs = chunks (mem s) xs" "chunks (mem s2) ys' = chunks (mem s) ys'"
      using s2(7) by simp_all
    have cy: "chunks (mem s3) xs' = chunks (mem s2) xs'" "chunks (mem s3) ys' = chunks (mem s2) ys'"
      using s3(7) by simp_all
    have fr2: "free_chunk (chunks (mem s) xs) a (hsize (blk (mem s) a)) (chunks (mem s) ys) =
        (if xs \<noteq> [] \<and> is_free (blk (mem s) (last xs))
         then chunks (mem s) (butlast xs) @ (last xs, hsize (blk (mem s) (last xs)) + (hsize (blk (mem s2) a) + 48), True) # chunks (mem s) ys'
         else chunks (mem s) xs @ (a, hsize (blk (mem s2) a), True) # chunks (mem s) ys')"
      unfolding free_chunk_eq using s2(6) by (auto simp: Let_def split: if_splits)
    have lst: "chunks (mem s2) (butlast xs) = chunks (mem s) (butlast xs) \<and>
        hsize (blk (mem s2) (last xs)) = hsize (blk (mem s) (last xs)) \<and>
        is_free (blk (mem s2) (last xs)) = is_free (blk (mem s) (last xs))" if "xs \<noteq> []"
      using cx(1) that by (simp add: chunks_last)
    show ?thesis
    proof (cases "xs \<noteq> [] \<and> is_free (blk (mem s) (last xs))")
      case True
      with s3(6) lst show ?thesis unfolding fr2 cy by (auto simp: cx)
    next
      case False
      then have "\<not> (xs \<noteq> [] \<and> is_free (blk (mem s2) (last xs)))" using lst by blast
      with False s3(6) show ?thesis unfolding fr2 cy by (auto simp: cx)
    qed
  qed
  moreover have "a \<notin> set (xs' @ ys')" "set (xs' @ b # ys') \<subseteq> set ?as" using suby subx dis by auto
  ultimately show thesis
    using that s3(2,5,8) heap_only_trans [OF s2(4) s3(4)] by metis
qed

lemma kfree_wf:
  assumes wf: "heap_wf s (xs @ a # ys) {} lo hi" and live: "\<not> is_free (blk (mem s) a)"
    and tx: "tx_drains (uart s)"
  obtains s' as' where "kfree (a + 48) s = Some s'" and "heap_wf s' as' {} lo hi"
    and "chunks (mem s') as' = free_chunk (chunks (mem s) xs) a (hsize (blk (mem s) a)) (chunks (mem s) ys)"
    and "only_in (headers (set (xs @ a # ys))) (mem s) (mem s')" and "heap_only s s'" and "tx_drains (uart s')"
proof -
  let ?H = "blk (mem s)" and ?as = "xs @ a # ys"
  have A: "sepset (set ?as)" and dis: "distinct ?as"
    using heap_wf_sepset [OF wf] tiles_distinct [OF heap_wf_tiles [OF wf]] by simp_all
  obtain u where u: "kprint ''KHeap: kfree(%p) - block %p, size %zu\<newline>''
      [VA (a + 48), VA a, VA (hsize (?H a))] s = Some (s\<lparr>uart := u\<rparr>)" "tx_drains u"
    by (rule kprint_heap [OF heap_fits(11) tx])
  define s1 where "s1 = s\<lparr>uart := u, mem := put_is_free a True (mem s)\<rparr>"
  have wf1: "heap_wf s1 ?as {a} lo hi" and fr: "is_free (blk (mem s1) a)" and tx1: "tx_drains (uart s1)"
    using heap_wf_mark [OF wf _ live] u(2) by (simp_all add: s1_def heap_wf_def blk_put)
  have view: "blk (mem s1) c = (if c = a then (?H a)\<lparr>is_free := True\<rparr> else ?H c)" if "c \<in> set ?as" for c
    using that sepsetD(1) [OF A, of a c] by (simp add: s1_def blk_put)
  have ch: "chunks (mem s1) xs = chunks (mem s) xs" "chunks (mem s1) ys = chunks (mem s) ys"
    "hsize (blk (mem s1) a) = hsize (?H a)"
    using dis view by (auto intro!: chunks_cong split: if_splits)
  obtain s3 xs' b ys' where s3: "coalesce a s1 = Some (b, s3)" "heap_wf s3 (xs' @ b # ys') {a} lo hi"
    "is_free (blk (mem s3) b) \<longrightarrow> b = a" "a \<notin> set (xs' @ ys')" "set (xs' @ b # ys') \<subseteq> set ?as"
    "only_in (headers (set ?as)) (mem s1) (mem s3)" "heap_only s1 s3" "tx_drains (uart s3)"
    "chunks (mem s3) xs' @ (b, hsize (blk (mem s3) b), True) # chunks (mem s3) ys' =
       free_chunk (chunks (mem s1) xs) a (hsize (blk (mem s1) a)) (chunks (mem s1) ys)"
    by (rule coalesce_wf [OF wf1 fr tx1])
  define s4 where "s4 = add_to_free_list b s3"
  have b4: "b \<in> set (xs' @ b # ys')" "is_free (blk (mem s3) b) \<longrightarrow> b \<in> {a}" using s3(3) by auto
  note add = heap_wf_add [OF s3(2) b4, folded s4_def]
  have wf4: "heap_wf s4 (xs' @ b # ys') {} lo hi"
    using add(1) s3(4) heap_wf_pending [of a "xs' @ b # ys'" s4 "{a} - {b}"] by (cases "a = b") auto
  obtain u' where u': "kfree (a + 48) s = Some (s4\<lparr>uart := u'\<rparr>)" "tx_drains u'"
  proof -
    have tx4: "tx_drains (uart s4)" using s3(8) add(4) by simp
    obtain v where v: "kprint ''KHeap: Added block %p (%zu) to free list\<newline>''
        [VA b, VA (hsize (blk (mem s4) b))] s4 = Some (s4\<lparr>uart := v\<rparr>)" "tx_drains v"
      by (rule kprint_heap [OF heap_fits(12) tx4])
    obtain w where w: "kprint ''KHeap: Added coalesced block %p (%zu) to free list\<newline>''
        [VA b, VA (hsize (blk (mem s4) b))] s4 = Some (s4\<lparr>uart := w\<rparr>)" "tx_drains w"
      by (rule kprint_heap [OF heap_fits(13) tx4])
    have "kfree (a + 48) s = Some (s4\<lparr>uart := if b = a then v else w\<rparr>)"
      using heap_wf_data_ptr(2) [OF wf, of a] live u(1) s3(1) v(1) w(1)
      by (cases "b = a") (simp_all add: kfree_def HEAP_HEADER_SIZE_def s1_def s4_def Let_def)
    from that [OF this] v(2) w(2) show thesis by simp
  qed
  have dis': "distinct (xs' @ b # ys')" by (rule tiles_distinct [OF heap_wf_tiles [OF s3(2)]])
  have "chunks (mem s4) xs' = chunks (mem s3) xs'" "chunks (mem s4) ys' = chunks (mem s3) ys'"
    using dis' add(6) by (auto intro!: chunks_cong)
  then have "chunks (mem s4) (xs' @ b # ys') = free_chunk (chunks (mem s) xs) a (hsize (?H a)) (chunks (mem s) ys)"
    using s3(9) add(6) [of b] by (simp add: ch)
  moreover have "only_in (headers (set ?as)) (mem s) (mem s1)" "heap_only s s1"
    by (simp_all add: s1_def only_in_put heap_only_def)
  then have "only_in (headers (set ?as)) (mem s) (mem s4)" "heap_only s s4"
    using only_in_trans [OF _ only_in_trans [OF s3(6) only_in_mono [OF add(2) headers_mono [OF s3(5)]]]]
      heap_only_trans [OF _ heap_only_trans [OF s3(7) add(3)]] by blast+
  ultimately show thesis
    using that [OF u'(1)] wf4 u'(2) by (simp add: heap_wf_uart heap_only_upd)
qed

end
