(* ===== verification/Kheap_Alloc.thy ===== *)
theory Kheap_Alloc
  imports Kheap_Free
begin

text \<open>
  Allocation from the free list.  The search stops at the first block of the list that is
  large enough (\<open>first_fit_wf\<close>), and terminates because the list is well formed.
  \<open>take_chunk\<close> is the abstract operation on the block found: split when at least 96 bytes
  would remain, taken whole otherwise.  \<open>kmalloc_take_wf\<close> shows that the code implements it,
  zeroes the data and writes nothing but headers and the data of that block.
\<close>

lemma first_fit_chain:
  assumes "dseg (next_free \<circ> blk m) pv p c NULL" and "NULL \<notin> set c"
  shows "first_fit m (if c = [] then NULL else hd c) sz =
     Some (case List.find (\<lambda>a. sz \<le> hsize (blk m a)) c of None \<Rightarrow> NULL | Some a \<Rightarrow> a)"
  using assms
proof (induction c arbitrary: p)
  case (Cons a c)
  then have "a \<noteq> NULL" "first_fit m (next_free (blk m a)) sz =
     Some (case List.find (\<lambda>a. sz \<le> hsize (blk m a)) c of None \<Rightarrow> NULL | Some a \<Rightarrow> a)"
    by (auto split: if_splits)
  then show ?case by (subst first_fit.simps) simp
qed (subst first_fit.simps, simp)

text \<open>The list the head starts: its blocks in order.\<close>

definition free_chain :: "'a kheap_state_scheme \<Rightarrow> u64 list \<Rightarrow> bool" where
  "free_chain s c \<longleftrightarrow> dseg (next_free \<circ> blk (mem s)) (prev_free \<circ> blk (mem s)) NULL c NULL \<and>
     free_list_head s = (if c = [] then NULL else hd c) \<and> NULL \<notin> set c"

lemma heap_wf_free_chain:
  assumes "heap_wf s as P lo hi"
  obtains c where "free_chain s c" and "set c \<subseteq> {a \<in> set as. is_free (blk (mem s) a)} - P" and "NULL \<notin> set c"
proof -
  obtain cs where C: "chains (blk (mem s)) (free_list_head s) cs"
    "set (concat cs) = {a \<in> set as. is_free (blk (mem s) a)} - P"
    using assms by (auto simp: heap_wf_def)
  show thesis
  proof (cases "free_list_head s = NULL")
    case True
    then have "free_chain s []" by (simp add: free_chain_def)
    from that [OF this] show thesis by simp
  next
    case False
    then obtain c where c: "c \<in> set cs" "c \<noteq> []" "hd c = free_list_head s" using C(1) by (auto simp: chains_def)
    then have "free_chain s c" "NULL \<notin> set c" using C(1) by (auto simp: chains_def free_chain_def)
    moreover have "set c \<subseteq> set (concat cs)" using c by auto
    ultimately show thesis using that [of c] unfolding C(2) by blast
  qed
qed

lemma first_fit_wf:
  assumes "heap_wf s as P lo hi" and "free_chain s c" and "NULL \<notin> set c"
  shows "first_fit (mem s) (free_list_head s) sz =
     Some (case List.find (\<lambda>a. sz \<le> hsize (blk (mem s) a)) c of None \<Rightarrow> NULL | Some a \<Rightarrow> a)"
  using assms(2,3) first_fit_chain [of "mem s" "prev_free \<circ> blk (mem s)" NULL c sz] by (simp add: free_chain_def)

lemma tiles_split:
  assumes T: "tiles sz lo (xs @ a # ys) hi"
    and n: "unat n = unat a + 48 + unat z" and z: "8 dvd unat z" and le: "unat z + 48 \<le> unat (sz a)"
  shows "n \<notin> set (xs @ a # ys)" and "tiles (sz(a := z, n := sz a - z - 48)) lo (xs @ a # n # ys) hi"
proof -
  obtain mid where m: "tiles sz lo xs mid" "unat a = mid" "8 dvd unat (sz a)"
    "tiles sz (mid + 48 + unat (sz a)) ys hi"
    using T by (auto simp: tiles_append)
  have dis: "distinct (xs @ a # ys)" by (rule tiles_distinct [OF T])
  show nin: "n \<notin> set (xs @ a # ys)"
  proof
    assume "n \<in> set (xs @ a # ys)"
    moreover have "n \<noteq> a" using n by auto
    moreover have "n \<notin> set xs" using tiles_in [OF m(1), of n] n m(2) by auto
    ultimately show False using tiles_in [OF m(4), of n] n m(2) le by auto
  qed
  let ?sz = "sz(a := z, n := sz a - z - 48)"
  have zr: "unat (sz a - z - 48) = unat (sz a) - unat z - 48" using le by (simp add: unat_sub_if')
  have "tiles ?sz lo xs mid = tiles sz lo xs mid" using dis nin by (intro tiles_cong) auto
  moreover have "tiles ?sz (mid + 48 + unat (sz a)) ys hi = tiles sz (mid + 48 + unat (sz a)) ys hi"
    using dis nin by (intro tiles_cong) auto
  moreover have "8 dvd unat (sz a) - unat z - 48" using m(3) z by (intro dvd_diff_nat) simp_all
  ultimately show "tiles ?sz lo (xs @ a # n # ys) hi"
    using m n z zr le nin by (auto simp: tiles_append ac_simps)
qed

text \<open>The stores of a split, before the new block is put on the free list.\<close>

definition split_block :: "u64 \<Rightarrow> u64 \<Rightarrow> u64 \<Rightarrow> 'a kheap_state_scheme \<Rightarrow> 'a kheap_state_scheme" where
  "split_block a n z s =
     (let nx = hnext (blk (mem s) a);
          m = put_size n (hsize (blk (mem s) a) - z - 48) (mem s);
          m = put_prev n a (put_next n nx (put_is_free n True m));
          m = (if nx \<noteq> NULL then put_prev nx n m else m)
      in s\<lparr>heap_end := if nx = NULL then n else heap_end s, mem := put_next a n (put_size a z m)\<rparr>)"

lemma split_view:
  assumes A: "sepset A" "a \<in> A" "n \<in> A" "c \<in> A" "a \<noteq> n"
    and x: "nx = hnext (blk (mem s) a)" "nx \<in> insert NULL (A - {a, n})"
  shows "blk (mem (split_block a n z s)) c = (blk (mem s) c)\<lparr>
     hsize := if c = a then z else if c = n then hsize (blk (mem s) a) - z - 48 else hsize (blk (mem s) c),
     is_free := c = n \<or> is_free (blk (mem s) c),
     hnext := if c = a then n else if c = n then nx else hnext (blk (mem s) c),
     hprev := if c = n then a else if c = nx then n else hprev (blk (mem s) c)\<rparr>"
proof -
  define m1 where "m1 = put_prev n a (put_next n nx (put_is_free n True
     (put_size n (hsize (blk (mem s) a) - z - 48) (mem s))))"
  define m2 where "m2 = (if nx \<noteq> NULL then put_prev nx n m1 else m1)"
  have sc: "sep a c" "sep n c" "c \<noteq> NULL" "a \<noteq> NULL" "n \<noteq> NULL" using sepsetD [OF A(1)] A by blast+
  have sx: "nx \<noteq> NULL \<Longrightarrow> sep nx c" "nx \<noteq> a" "nx \<noteq> n" using sepsetD [OF A(1)] A x(2) by blast+
  have "blk m1 c = (if c = n then (blk (mem s) n)\<lparr>hsize := hsize (blk (mem s) a) - z - 48, is_free := True,
     hnext := nx, hprev := a\<rparr> else blk (mem s) c)"
    using sc by (simp add: m1_def blk_put)
  moreover have "blk m2 c = (if c = nx then (blk m1 c)\<lparr>hprev := n\<rparr> else blk m1 c)"
    using sx sc by (simp add: m2_def blk_put)
  moreover have "mem (split_block a n z s) = put_next a n (put_size a z m2)"
    by (simp add: split_block_def Let_def m1_def m2_def x(1))
  then have "blk (mem (split_block a n z s)) c = (if c = a then (blk m2 a)\<lparr>hsize := z, hnext := n\<rparr> else blk m2 c)"
    using sc by (simp add: blk_put)
  ultimately show ?thesis using sx A(5) by (auto simp del: blk_put)
qed

lemma heap_wf_split:
  assumes wf: "heap_wf s (xs @ a # ys) P lo hi" and n: "n = a + 48 + z" and z: "8 dvd unat z"
    and le: "unat z + 48 \<le> unat (hsize (blk (mem s) a))"
  defines "s' \<equiv> split_block a n z s"
  shows "n \<notin> set (xs @ a # ys)" and "heap_wf s' (xs @ a # n # ys) (insert n P) lo hi"
    and "only_in (headers (set (xs @ a # n # ys))) (mem s) (mem s')" and "heap_only s s'"
    and "\<And>c. c \<in> set (xs @ a # n # ys) \<Longrightarrow>
      is_free (blk (mem s') c) = (c = n \<or> is_free (blk (mem s) c)) \<and>
      hsize (blk (mem s') c) = (if c = a then z else if c = n then hsize (blk (mem s) a) - z - 48 else hsize (blk (mem s) c))"
proof -
  let ?H = "blk (mem s)" and ?as = "xs @ a # n # ys" and ?H' = "blk (mem s')"
  note T = heap_wf_tiles [OF wf]
  have hi: "hi \<le> 0x80000000" "0 < lo" using wf by (simp_all add: heap_wf_def)
  have un: "unat n = unat a + 48 + unat z"
    using tiles_in [OF T, of a] le hi by (simp add: n unat_word_ariths)
  have le': "unat z + 48 \<le> unat ((hsize \<circ> ?H) a)" using le by simp
  show nin: "n \<notin> set (xs @ a # ys)" by (rule tiles_split(1) [OF T un z le'])
  have A: "sepset (set ?as)" by (rule tiles_sepset [OF tiles_split(2) [OF T un z le'] hi(2)]) (use hi in simp)
  have B: "block_list ?H (heap_start s) (heap_end s) (xs @ a # ys) lo hi" using wf by (simp add: heap_wf_def)
  define nx where "nx = hnext (?H a)"
  have dis: "distinct (xs @ a # ys)" by (rule tiles_distinct [OF T])
  have nx: "nx \<in> insert NULL (set ?as - {a, n})"
    using block_list_links(2) [OF B] dis nin by (cases ys) (auto simp: nx_def)
  have an: "a \<in> set ?as" "n \<in> set ?as" "a \<noteq> n" using nin by auto
  note view = split_view [OF A an(1,2) _ an(3) nx_def nx, where z = z, folded s'_def]
  show "only_in (headers (set ?as)) (mem s) (mem s')"
    unfolding s'_def using nx by (auto simp: split_block_def Let_def nx_def intro!: only_in_put)
  show "heap_only s s'" by (simp add: s'_def split_block_def Let_def heap_only_def)
  show hdr: "is_free (?H' c) = (c = n \<or> is_free (?H c)) \<and>
      hsize (?H' c) = (if c = a then z else if c = n then hsize (?H a) - z - 48 else hsize (?H c))"
    if "c \<in> set ?as" for c
    using view [OF that] by simp
  have "block_list ?H' (heap_start s) (if nx = NULL then n else heap_end s) ?as lo hi"
    unfolding nx_def
  proof (rule block_list_split [OF B _ un z le])
    show "hi < 2 ^ 64" using hi by simp
    show "NULL \<notin> set (xs @ a # ys)" using A by (auto simp: sepset_def)
  qed (simp_all only: view, simp_all add: nx_def)
  moreover obtain cs where C: "chains ?H (free_list_head s) cs"
    "set (concat cs) = {c \<in> set (xs @ a # ys). is_free (?H c)} - P"
    using wf by (auto simp: heap_wf_def)
  have "next_free (?H' c) = next_free (?H c) \<and> prev_free (?H' c) = prev_free (?H c)" if "c \<in> set ?as" for c
    using view [OF that] by simp
  then have "chains ?H' (free_list_head s) cs = chains ?H (free_list_head s) cs"
    by (intro chains_cong) (simp only: C(2), auto)
  moreover have "set (concat cs) = {c \<in> set ?as. is_free (?H' c)} - insert n P"
    unfolding C(2) using hdr nin by auto
  ultimately show "heap_wf s' ?as (insert n P) lo hi"
    using wf C(1) unfolding heap_wf_def by (auto simp: s'_def split_block_def Let_def nx_def)
qed

definition take_chunk :: "u64 \<Rightarrow> u64 \<Rightarrow> u64 \<Rightarrow> chunk list" where
  "take_chunk a n z =
     (if z + 96 \<le> n then [(a, z, False), (a + 48 + z, n - z - 48, True)] else [(a, n, False)])"

text \<open>The first half of the hand-over: off the list, split when there is room.\<close>

lemma kmalloc_carve:
  assumes wf: "heap_wf s (xs @ a # ys) {} lo hi" and fr: "is_free (blk (mem s) a)" and z: "8 dvd unat z"
    and le: "z \<le> hsize (blk (mem s) a)" and tx: "tx_drains (uart s)"
  obtains s' ns where "kmalloc_take a z s = Some (a + 48, s'\<lparr>mem := memset (put_is_free a False (mem s')) (a + 48) 0
        (hsize (blk (put_is_free a False (mem s')) a))\<rparr>)"
    and "heap_wf s' (xs @ a # ns @ ys) {} lo hi" and "\<not> is_free (blk (mem s') a)"
    and "chunks (mem s') (xs @ a # ns @ ys) =
      chunks (mem s) xs @ take_chunk a (hsize (blk (mem s) a)) z @ chunks (mem s) ys"
    and "only_in (headers (set (xs @ a # ns @ ys))) (mem s) (mem s')" and "heap_only s s'" and "tx_drains (uart s')"
    and "\<forall>n \<in> set ns. n = a + 48 + z \<and> z + 96 \<le> hsize (blk (mem s) a)"
    and "hsize (blk (mem s') a) \<le> hsize (blk (mem s) a)"
proof -
  let ?H = "blk (mem s)" and ?as = "xs @ a # ys"
  define t where "t = remove_from_free_list a s"
  have ain: "a \<in> set ?as" "a \<notin> {}" by simp_all
  note rem = heap_wf_remove [OF wf ain(1) fr ain(2), folded t_def]
  have dis: "distinct ?as" by (rule tiles_distinct [OF heap_wf_tiles [OF wf]])
  have tx_t: "tx_drains (uart t)" using rem(4) tx by simp
  have t_a: "hsize (blk (mem t) a) = hsize (?H a)" "\<not> is_free (blk (mem t) a)" using rem(6) [of a] by simp_all
  have tch: "chunks (mem t) xs = chunks (mem s) xs" "chunks (mem t) ys = chunks (mem s) ys"
    using dis rem(6) by (auto intro!: chunks_cong)
  have small: "unat (hsize (?H a)) \<le> 0x80000000"
    using tiles_in [OF heap_wf_tiles [OF wf] ain(1)] wf by (simp add: heap_wf_def)
  have uz: "unat (z + 96) = unat z + 96" using small le by (simp add: unat_word_ariths word_le_nat_alt)
  show thesis
  proof (cases "z + 96 \<le> hsize (?H a)")
    case False
    obtain u where u: "kprint ''KHeap: Allocated whole block %p (%zu) for size %zu\<newline>''
        [VA a, VA (hsize (blk (mem t) a)), VA z] t = Some (t\<lparr>uart := u\<rparr>)" "tx_drains u"
      by (rule kprint_heap [OF heap_fits(7) tx_t])
    show thesis
    proof (rule that [of "t\<lparr>uart := u\<rparr>" "[]"])
      show "kmalloc_take a z s = Some (a + 48, (t\<lparr>uart := u\<rparr>)\<lparr>mem := memset (put_is_free a False (mem (t\<lparr>uart := u\<rparr>)))
          (a + 48) 0 (hsize (blk (put_is_free a False (mem (t\<lparr>uart := u\<rparr>))) a))\<rparr>)"
        using False u(1) t_a
        by (simp add: kmalloc_take_def Let_def HEAP_MIN_BLOCK_SIZE_def HEAP_HEADER_SIZE_def t_def [symmetric])
    qed (use False rem u(2) t_a tch in \<open>simp_all add: heap_wf_uart heap_only_upd take_chunk_def\<close>)
  next
    case True
    define n where "n = a + 48 + z"
    have zle: "unat z + 48 \<le> unat (hsize (blk (mem t) a))" using True uz t_a by (simp add: word_le_nat_alt)
    define t2 where "t2 = split_block a n z t"
    note sp = heap_wf_split [OF rem(1) n_def z zle, folded t2_def]
    define t3 where "t3 = add_to_free_list n t2"
    have nin: "n \<in> set (xs @ a # n # ys)" "is_free (blk (mem t2) n) \<longrightarrow> n \<in> {n}" by simp_all
    note add = heap_wf_add [OF sp(2) nin, folded t3_def]
    have A: "sepset (set (xs @ a # n # ys))" by (rule heap_wf_sepset [OF sp(2)])
    then have na: "sep n a" "a \<noteq> n" using sepsetD(1) [OF A, of n a] sp(1) by auto
    have "tx_drains (uart t3)" using add(4) tx_t by (simp add: t2_def split_block_def Let_def)
    then obtain u where u: "kprint ''KHeap: Split block %p. Allocated %zu, remaining %zu at %p\<newline>''
        [VA a, VA (hsize (blk (mem t3) a)), VA (hsize (blk (mem t3) n)), VA n] t3 = Some (t3\<lparr>uart := u\<rparr>)" "tx_drains u"
      by (rule kprint_heap [OF heap_fits(6)])
    have u': "kmalloc_take a z s = Some (a + 48, (t3\<lparr>uart := u\<rparr>)\<lparr>mem := memset (put_is_free a False (mem (t3\<lparr>uart := u\<rparr>)))
          (a + 48) 0 (hsize (blk (put_is_free a False (mem (t3\<lparr>uart := u\<rparr>))) a))\<rparr>)"
      using True t_a u(1) na unfolding t3_def t2_def split_block_def
      by (cases "hnext (blk (mem t) a) = NULL") (simp_all add: kmalloc_take_def Let_def HEAP_MIN_BLOCK_SIZE_def
          HEAP_HEADER_SIZE_def blk_put t_def [symmetric] n_def [symmetric])
    have dis': "distinct (xs @ a # n # ys)" using dis sp(1) by auto
    have ch: "chunks (mem t3) xs = chunks (mem s) xs" "chunks (mem t3) ys = chunks (mem s) ys"
      using dis' add(6) sp(5) unfolding tch [symmetric] by (auto intro!: chunks_cong)
    have fields: "hsize (blk (mem t3) a) = z" "\<not> is_free (blk (mem t3) a)" "is_free (blk (mem t3) n)"
      "hsize (blk (mem t3) n) = hsize (?H a) - z - 48"
      using add(6) [of a] add(6) [of n] sp(5) [of a] sp(5) [of n] t_a dis' by auto
    have "only_in (headers (set (xs @ a # n # ys))) (mem s) (mem t)"
      by (rule only_in_mono [OF rem(2) headers_mono]) auto
    then have "only_in (headers (set (xs @ a # n # ys))) (mem s) (mem t3)"
      using only_in_trans [OF _ only_in_trans [OF sp(3) add(2)]] by blast
    moreover have "heap_only s t3" using heap_only_trans [OF rem(3) heap_only_trans [OF sp(4) add(3)]] .
    ultimately show thesis
      using that [OF u', of "[n]"] add(1) u(2) ch fields True le
      by (simp add: heap_wf_uart heap_only_upd take_chunk_def n_def [symmetric])
  qed
qed

subsection \<open>Data areas\<close>

definition data_span :: "mem \<Rightarrow> u64 \<Rightarrow> u64 set" where
  "data_span m a = span (a + 48) (unat (hsize (blk m a)))"

lemma data_span_nat:
  assumes "heap_wf s as P lo hi" and "a \<in> set as"
  shows "x \<in> data_span (mem s) a \<longleftrightarrow> unat a + 48 \<le> unat x \<and> unat x < unat a + 48 + unat (hsize (blk (mem s) a))"
proof -
  have "unat a + 48 + unat (hsize (blk (mem s) a)) \<le> 2 ^ 64"
    using tiles_in [OF heap_wf_tiles [OF assms(1)] assms(2)] assms(1) by (simp add: heap_wf_def)
  then show ?thesis
    using heap_wf_data_ptr(1) [OF assms] span_nat [of "a + 48" "unat (hsize (blk (mem s) a))" x]
    by (simp add: data_span_def)
qed

lemma header_nat:
  assumes "heap_wf s as P lo hi" and "a \<in> set as"
  shows "x \<in> span a 48 \<longleftrightarrow> unat a \<le> unat x \<and> unat x < unat a + 48"
  using tiles_in [OF heap_wf_tiles [OF assms(1)] assms(2)] assms(1) span_nat [of a 48 x]
  by (simp add: heap_wf_def)

lemma data_outside_headers:
  assumes wf: "heap_wf s as P lo hi" and a: "a \<in> set as"
  shows "data_span (mem s) a \<inter> headers (set as) = {}"
proof -
  have False if "x \<in> data_span (mem s) a" "b \<in> set as" "x \<in> span b 48" for x b
    using tiles_disjoint [OF heap_wf_tiles [OF wf] a that(2)] that data_span_nat [OF wf a] header_nat [OF wf that(2)]
    by (cases "a = b") auto
  then show ?thesis by (auto simp: headers_def)
qed

lemma data_disjoint:
  assumes wf: "heap_wf s as P lo hi" and a: "a \<in> set as" and b: "b \<in> set as" and "a \<noteq> b"
  shows "data_span (mem s) a \<inter> data_span (mem s) b = {}"
  using tiles_disjoint [OF heap_wf_tiles [OF wf] assms(2-4)] data_span_nat [OF wf a] data_span_nat [OF wf b]
  by auto

lemma kmalloc_take_wf:
  assumes wf: "heap_wf s (xs @ a # ys) {} lo hi" and fr: "is_free (blk (mem s) a)" and z: "8 dvd unat z"
    and le: "z \<le> hsize (blk (mem s) a)" and tx: "tx_drains (uart s)"
  obtains s' as' where "kmalloc_take a z s = Some (a + 48, s')" and "heap_wf s' as' {} lo hi" and "a \<in> set as'"
    and "chunks (mem s') as' = chunks (mem s) xs @ take_chunk a (hsize (blk (mem s) a)) z @ chunks (mem s) ys"
    and "\<forall>x \<in> data_span (mem s') a. mem s' x = 0"
    and "only_in (headers (set (xs @ a # ys)) \<union> data_span (mem s) a) (mem s) (mem s')"
    and "heap_only s s'" and "tx_drains (uart s')"
proof -
  let ?H = "blk (mem s)"
  obtain t ns where t: "kmalloc_take a z s = Some (a + 48, t\<lparr>mem := memset (put_is_free a False (mem t)) (a + 48) 0
        (hsize (blk (put_is_free a False (mem t)) a))\<rparr>)"
    "heap_wf t (xs @ a # ns @ ys) {} lo hi" "\<not> is_free (blk (mem t) a)"
    "chunks (mem t) (xs @ a # ns @ ys) = chunks (mem s) xs @ take_chunk a (hsize (?H a)) z @ chunks (mem s) ys"
    "only_in (headers (set (xs @ a # ns @ ys))) (mem s) (mem t)" "heap_only s t" "tx_drains (uart t)"
    "\<forall>n \<in> set ns. n = a + 48 + z \<and> z + 96 \<le> hsize (?H a)" "hsize (blk (mem t) a) \<le> hsize (?H a)"
    by (rule kmalloc_carve [OF assms])
  let ?as = "xs @ a # ns @ ys" and ?m = "put_is_free a False (mem t)"
  define s' where "s' = t\<lparr>mem := memset ?m (a + 48) 0 (hsize (blk ?m a))\<rparr>"
  have ain: "a \<in> set ?as" by simp
  have same: "blk ?m c = blk (mem t) c" if "c \<in> set ?as" for c
    using sepsetD(1) [OF heap_wf_sepset [OF t(2)] ain that] t(3) by (simp add: blk_put)
  have ms: "mem s' = memset ?m (a + 48) 0 (hsize (blk (mem t) a))" using same [OF ain] by (simp add: s'_def)
  have zero: "mem s' x = (if x \<in> data_span (mem t) a then 0 else ?m x)" for x
    by (simp add: ms memset_eq data_span_def)
  have eq: "blk (mem s') c = blk (mem t) c" if "c \<in> set ?as" for c
  proof -
    have "blk (mem s') c = blk ?m c"
      using data_outside_headers [OF t(2) ain] that by (intro blk_cong) (auto simp: zero headers_def)
    with same [OF that] show ?thesis by simp
  qed
  have wf': "heap_wf s' ?as {} lo hi"
    using heap_wf_mem [of ?as "mem s'" t] eq t(2) by (simp add: s'_def)
  have "chunks (mem s') ?as = chunks (mem t) ?as" by (rule chunks_cong) (simp add: eq)
  moreover have "\<forall>x \<in> data_span (mem s') a. mem s' x = 0" using eq [OF ain] zero by (simp add: data_span_def)
  moreover have "only_in (headers (set (xs @ a # ys)) \<union> data_span (mem s) a) (mem s) (mem s')"
  proof -
    let ?X = "headers (set (xs @ a # ys)) \<union> data_span (mem s) a"
    have as: "a \<in> set (xs @ a # ys)" by simp
    have small: "unat (hsize (?H a)) \<le> 0x80000000" "unat a \<le> 0x80000000"
      using tiles_in [OF heap_wf_tiles [OF wf] as] wf by (simp_all add: heap_wf_def)
    have "span n 48 \<subseteq> data_span (mem s) a" if "n \<in> set ns" for n
    proof -
      have n: "n = a + 48 + z" "z + 96 \<le> hsize (?H a)" using t(8) that by auto
      have uz: "unat (z + 96) = unat z + 96" using small(1) le by (simp add: unat_word_ariths word_le_nat_alt)
      then have "unat z + 48 \<le> unat (hsize (?H a))" using n(2) by (simp add: word_le_nat_alt)
      then show ?thesis
        using span_sub [of z 48 "unat (hsize (?H a))" "a + 48"] unat_u64_lt [of "hsize (?H a)"]
        by (simp add: n(1) data_span_def)
    qed
    then have h: "headers (set ?as) \<subseteq> ?X" by (auto simp: headers_def)
    have "data_span (mem t) a \<subseteq> data_span (mem s) a" using t(9) by (auto simp: data_span_def mem_span word_le_nat_alt)
    then have "only_in ?X ?m (mem s')" using zero by (auto simp: only_in_def)
    moreover have "only_in ?X (mem t) ?m"
      by (rule only_in_mono [OF only_in_put(2) [OF ain] h]) simp
    ultimately show ?thesis using only_in_trans only_in_mono [OF t(5) h] by blast
  qed
  moreover have "heap_only s s'" "tx_drains (uart s')" using t(6,7) by (simp_all add: s'_def heap_only_upd)
  ultimately show thesis using that [of s' ?as] t(1,4) wf' by (simp add: s'_def)
qed

end
