(* ===== verification/Kheap_Expand.thy ===== *)
theory Kheap_Expand
  imports Kheap_Alloc
begin

text \<open>
  Growing the heap.  \<open>heap_inv\<close> ties a well-formed heap to the frame allocator underneath: the
  heap occupies the frames \<open>f0\<close> to \<open>k\<close>, disjoint from the bitmap, and every free frame lies
  above it.  As long as the frames handed out follow on from the heap (\<open>room\<close>), expansion
  appends pages, merges the first with a free last block (\<open>grow_chunks\<close>), and keeps the
  invariant; when frames run out it reports failure and still keeps the invariant.
\<close>

subsection \<open>One page joins the heap\<close>

lemma link_view:
  assumes A: "sepset A" "f \<in> A" "c \<in> A" and e: "e = heap_end s" "e \<in> insert NULL (A - {f})"
  shows "blk (mem (expand_link f s)) c = (blk (mem s) c)\<lparr>
     hsize := if c = f then 4048 else hsize (blk (mem s) c), is_free := c = f \<or> is_free (blk (mem s) c),
     hnext := if c = f then NULL else if c = e then f else hnext (blk (mem s) c),
     hprev := if c = f then e else hprev (blk (mem s) c)\<rparr>"
proof -
  define m1 where "m1 = put_prev f e (put_next f NULL (put_is_free f True (put_size f 4048 (mem s))))"
  have sc: "sep f c" "c \<noteq> NULL" "f \<noteq> NULL" using sepsetD [OF A(1)] A by blast+
  have se: "e \<noteq> NULL \<Longrightarrow> sep e c" "e \<noteq> f" using sepsetD [OF A(1)] A e(2) by blast+
  have "blk m1 c = (if c = f then (blk (mem s) f)\<lparr>hsize := 4048, is_free := True, hnext := NULL, hprev := e\<rparr>
      else blk (mem s) c)"
    using sc by (simp add: m1_def blk_put)
  moreover have "mem (expand_link f s) = (if e \<noteq> NULL then put_next e f m1 else m1)"
    by (simp add: expand_link_def Let_def m1_def e(1) PAGE_SIZE_def HEAP_HEADER_SIZE_def)
  then have "blk (mem (expand_link f s)) c = (if c = e then (blk m1 c)\<lparr>hnext := f\<rparr> else blk m1 c)"
    using se sc by (simp add: blk_put)
  ultimately show ?thesis using se by auto
qed

definition offlist :: "mem \<Rightarrow> u64 \<Rightarrow> bool" where
  "offlist m a \<longleftrightarrow> next_free (blk m a) = NULL \<and> prev_free (blk m a) = NULL"

lemma heap_wf_link:
  assumes wf: "heap_wf s as {} lo hi" and f: "unat f = hi" "hi + 4096 \<le> 0x80000000"
    and off: "offlist (mem s) f"
  defines "s' \<equiv> expand_link f s"
  shows "heap_wf s' (as @ [f]) {} lo (hi + 4096)" and "chunks (mem s') (as @ [f]) = chunks (mem s) as @ [(f, 4048, True)]"
    and "only_in (headers (set (as @ [f]))) (mem s) (mem s')" and "heap_only s s'" and "uart s' = uart s"
    and "\<forall>a \<in> set as. offlist (mem s) a \<longrightarrow> offlist (mem s') a" and "offlist (mem s') f"
    and "free_list_head s' = free_list_head s"
proof -
  let ?H = "blk (mem s)" and ?H' = "blk (mem s')" and ?e = "heap_end s"
  have B: "block_list ?H (heap_start s) ?e as lo hi" and T: "tiles (hsize \<circ> ?H) lo as hi" and lo: "0 < lo"
    using wf by (simp_all add: heap_wf_def block_list_def)
  have nin: "f \<notin> set as" using tiles_in [OF T, of f] f by auto
  have "tiles ((hsize \<circ> ?H)(f := 4048)) lo as hi"
    using T nin by (subst tiles_cong [of as _ "hsize \<circ> ?H"]) auto
  then have "tiles ((hsize \<circ> ?H)(f := 4048)) lo (as @ [f]) (hi + 4096)"
    using f by (auto simp: tiles_append)
  then have A: "sepset (set (as @ [f]))" by (rule tiles_sepset) (use lo f in auto)
  have e: "?e \<in> insert NULL (set (as @ [f]) - {f})"
    using B nin by (cases as rule: rev_cases) (auto simp: block_list_def)
  have fin: "f \<in> set (as @ [f])" "f \<noteq> NULL" using sepsetD(2) [OF A] by auto
  note view = link_view [OF A fin(1) _ refl e, folded s'_def]
  have hf: "hsize (?H' f) = 4048" "is_free (?H' f)" "hnext (?H' f) = NULL" "hprev (?H' f) = ?e"
    "next_free (?H' f) = NULL" "prev_free (?H' f) = NULL" using view [OF fin(1)] off by (simp_all add: offlist_def)
  have hc: "hsize (?H' c) = hsize (?H c) \<and> is_free (?H' c) = is_free (?H c) \<and> hprev (?H' c) = hprev (?H c) \<and>
      next_free (?H' c) = next_free (?H c) \<and> prev_free (?H' c) = prev_free (?H c) \<and>
      hnext (?H' c) = (if c = ?e then f else hnext (?H c))" if "c \<in> set as" for c
  proof -
    have "c \<noteq> f" "c \<in> set (as @ [f])" using that nin by auto
    then show ?thesis using view [of c] by simp
  qed
  show "only_in (headers (set (as @ [f]))) (mem s) (mem s')"
    unfolding s'_def using e by (auto simp: expand_link_def Let_def intro!: only_in_put)
  show "heap_only s s'" "uart s' = uart s" and head: "free_list_head s' = free_list_head s"
    by (simp_all add: s'_def expand_link_def Let_def heap_only_def)
  show "\<forall>a \<in> set as. offlist (mem s) a \<longrightarrow> offlist (mem s') a" "offlist (mem s') f"
    using hc hf by (simp_all add: offlist_def)
  have "chunks (mem s') as = chunks (mem s) as" by (rule chunks_cong) (simp add: hc)
  then show "chunks (mem s') (as @ [f]) = chunks (mem s) as @ [(f, 4048, True)]" using hf by simp
  have "block_list ?H' (if ?e = NULL then f else heap_start s) f (as @ [f]) lo (hi + 4096)"
    by (rule block_list_snoc [OF B f(1) fin(2)]) (use hf hc A in \<open>simp_all add: sepset_def\<close>)
  moreover obtain cs where C: "chains ?H (free_list_head s) cs" "set (concat cs) = {c \<in> set as. is_free (?H c)} - {}"
    using wf by (auto simp: heap_wf_def)
  have "chains ?H' (free_list_head s) cs = chains ?H (free_list_head s) cs"
    by (rule chains_cong) (simp only: C(2), simp add: hc)
  then have "chains ?H' (free_list_head s) ([f] # cs)"
    using C(1) nin fin hf by (simp add: chains_def del: set_concat) (simp only: C(2), auto)
  moreover have "set (concat ([f] # cs)) = {c \<in> set (as @ [f]). is_free (?H' c)} - {}"
    unfolding concat.simps set_append C(2) using hf hc by auto
  moreover have "heap_start s' = (if ?e = NULL then f else heap_start s)" "heap_end s' = f"
    by (simp_all add: s'_def expand_link_def Let_def)
  ultimately show "heap_wf s' (as @ [f]) {} lo (hi + 4096)"
    using wf f(2) head unfolding heap_wf_def by (simp only:) blast
qed

subsection \<open>The heap over the frame allocator\<close>

definition region :: "nat \<Rightarrow> nat \<Rightarrow> u64 set" where
  "region i k = {x. 0x40000000 + i * 4096 \<le> unat x \<and> unat x < 0x40000000 + k * 4096}"

definition heap_inv :: "layout \<Rightarrow> 'a kheap_state_scheme \<Rightarrow> u64 list \<Rightarrow> nat \<Rightarrow> nat \<Rightarrow> bool" where
  "heap_inv L s as f0 k \<longleftrightarrow>
     heap_wf s as {} (0x40000000 + f0 * 4096) (0x40000000 + k * 4096) \<and> pmm_inv L s \<and> tx_drains (uart s) \<and>
     f0 \<le> k \<and> k \<le> FRAMES \<and> {f0..<k} \<inter> bitmap_frames L = {} \<and> (\<forall>i \<in> free_frames L (mem s). k \<le> i)"

lemma heap_invD:
  assumes "heap_inv L s as f0 k"
  shows "heap_wf s as {} (0x40000000 + f0 * 4096) (0x40000000 + k * 4096)" "pmm_inv L s" "tx_drains (uart s)"
    "f0 \<le> k" "k \<le> FRAMES" "{f0..<k} \<inter> bitmap_frames L = {}" "\<forall>i \<in> free_frames L (mem s). k \<le> i"
  using assms by (simp_all add: heap_inv_def)

lemma frame_region: "i < FRAMES \<Longrightarrow> span (frame_addr i) 4096 = region i (Suc i)"
  using unat_frame_addr [of i] by (auto simp: region_def span_nat)

lemma region_frame:
  assumes "x \<in> region i k"
  obtains j where "i \<le> j" and "j < k" and "x \<in> region j (Suc j)"
proof -
  let ?j = "(unat x - 0x40000000) div 4096"
  have "0x40000000 + i * 4096 \<le> unat x" "unat x < 0x40000000 + k * 4096" using assms by (auto simp: region_def)
  then have "i \<le> ?j" "?j < k" "x \<in> region ?j (Suc ?j)"
    by (auto simp: region_def less_mult_imp_div_less div_le_mono dest: div_le_mono [of "i * 4096" _ 4096])
  then show thesis by (rule that)
qed

lemma region_apart_bitmap:
  assumes "link_ok L" and "k \<le> FRAMES" and "{i..<k} \<inter> bitmap_frames L = {}"
  shows "region i k \<inter> span (pmm_bitmap_start L) 0x20000 = {}"
proof -
  have "x \<notin> span (pmm_bitmap_start L) 0x20000" if x: "x \<in> region i k" for x
  proof -
    obtain j where j: "i \<le> j" "j < k" "x \<in> region j (Suc j)" by (rule region_frame [OF x])
    then have "j < FRAMES" "j \<notin> bitmap_frames L" using assms(2,3) by auto
    then show ?thesis using frame_apart_bitmap [OF assms(1), of j] frame_region [of j] j(3) by auto
  qed
  then show ?thesis by auto
qed

lemma block_in_region:
  assumes "heap_wf s as P (0x40000000 + f0 * 4096) (0x40000000 + k * 4096)" and "a \<in> set as"
  shows "span a 48 \<subseteq> region f0 k" and "data_span (mem s) a \<subseteq> region f0 k"
  using tiles_in [OF heap_wf_tiles [OF assms(1)] assms(2)] header_nat [OF assms] data_span_nat [OF assms]
  by (auto simp: region_def)

lemma headers_in_region:
  "heap_wf s as P (0x40000000 + f0 * 4096) (0x40000000 + k * 4096) \<Longrightarrow> headers (set as) \<subseteq> region f0 k"
  using block_in_region(1) by (fastforce simp: headers_def)

definition grows :: "'a kheap_state_scheme \<Rightarrow> 'a kheap_state_scheme \<Rightarrow> bool" where
  "grows s s' \<longleftrightarrow> s' = s\<lparr>mem := mem s', uart := uart s', free_memory := free_memory s',
     free_list_head := free_list_head s', heap_start := heap_start s', heap_end := heap_end s'\<rparr>"

lemma grows_trans: "grows s t \<Longrightarrow> grows t u \<Longrightarrow> grows s u"
  by (cases s, cases t, cases u) (simp add: grows_def)

lemma heap_only_grows: "heap_only s t \<Longrightarrow> grows s t"
  by (cases s, cases t) (simp add: grows_def heap_only_def)

lemma grows_take_frame: "grows s (take_frame L i s)"
  by (cases s) (simp add: grows_def take_frame_def)

lemma heap_only_free_memory: "heap_only s t \<Longrightarrow> free_memory t = free_memory s"
  by (cases s, cases t) (simp add: heap_only_def)

lemma blk_zero: "(\<And>x. x \<in> span b 48 \<Longrightarrow> m x = 0) \<Longrightarrow> offlist m b"
  using span_sub [of 32 8 48 b] span_sub [of 40 8 48 b] by (simp add: blk_def offlist_def) (intro conjI load_le_zero; auto)

lemma heap_inv_grow:
  assumes L: "link_ok L" and inv: "heap_inv L s as f0 k" and k: "k \<in> free_frames L (mem s)"
  defines "s' \<equiv> expand_link (frame_addr k) (take_frame L k s)"
  shows "heap_inv L s' (as @ [frame_addr k]) f0 (Suc k)"
    and "free_frames L (mem s') = free_frames L (mem s) - {k}"
    and "chunks (mem s') (as @ [frame_addr k]) = chunks (mem s) as @ [(frame_addr k, 4048, True)]"
    and "only_in (headers (set as) \<union> region k (Suc k) \<union> span (pmm_bitmap_start L) 0x20000) (mem s) (mem s')"
    and "grows s s'" and "alloc_frame L s = Some (frame_addr k, take_frame L k s)"
    and "\<forall>a \<in> set as. offlist (mem s) a \<longrightarrow> offlist (mem s') a" and "offlist (mem s') (frame_addr k)"
    and "free_list_head s' = free_list_head s"
proof -
  note I = heap_invD [OF inv]
  let ?t = "take_frame L k s" and ?f = "frame_addr k" and ?bm = "span (pmm_bitmap_start L) 0x20000"
  let ?lo = "0x40000000 + f0 * 4096" and ?hi = "0x40000000 + k * 4096"
  have kF: "k < FRAMES" "k \<notin> bitmap_frames L" using k I(2) free_frames_subset [of L "mem s"] by (auto simp: pmm_inv_def)
  have uf: "unat ?f = ?hi" using kF by (simp add: unat_frame_addr)
  note eff = take_frame_effect [OF L I(2) k]
  have reg: "span ?f 4096 = region k (Suc k)" using frame_region kF by simp
  have out: "mem ?t x = mem s x" if "x \<in> region f0 k" for x
    using that region_apart_bitmap [OF L I(5,6)] by (intro eff(4)) (auto simp: reg region_def)
  have same: "blk (mem ?t) a = blk (mem s) a" if "a \<in> set as" for a
    using out block_in_region(1) [OF I(1) that] by (intro blk_cong) auto
  have "heap_wf ?t as {} ?lo ?hi"
  proof -
    have "heap_wf (s\<lparr>mem := mem ?t\<rparr>) as {} ?lo ?hi" using heap_wf_mem [of as "mem ?t" s] same I(1) by simp
    then show ?thesis by (simp add: heap_wf_def take_frame_def)
  qed
  moreover have "span ?f 48 \<subseteq> span ?f 4096" by (auto simp: mem_span)
  then have "offlist (mem ?t) ?f"
    using eff(3) by (intro blk_zero) auto
  moreover have "?hi + 4096 \<le> 0x80000000" using kF by simp
  ultimately have link: "heap_wf s' (as @ [?f]) {} ?lo (?hi + 4096)"
    "chunks (mem s') (as @ [?f]) = chunks (mem ?t) as @ [(?f, 4048, True)]"
    "only_in (headers (set (as @ [?f]))) (mem ?t) (mem s')" "heap_only ?t s'" "uart s' = uart ?t"
    "\<forall>a \<in> set as. offlist (mem ?t) a \<longrightarrow> offlist (mem s') a" "offlist (mem s') ?f"
    "free_list_head s' = free_list_head ?t"
    unfolding s'_def using heap_wf_link [of ?t as ?lo ?hi ?f] uf by simp_all
  show "\<forall>a \<in> set as. offlist (mem s) a \<longrightarrow> offlist (mem s') a" "offlist (mem s') ?f"
    "free_list_head s' = free_list_head s"
    using link(6-8) same by (simp_all add: offlist_def take_frame_def)
  show "grows s s'" using grows_trans [OF grows_take_frame heap_only_grows [OF link(4)]] .
  have "Min (free_frames L (mem s)) = k" using k I(7) by (intro Min_eqI) auto
  then show "alloc_frame L s = Some (frame_addr k, take_frame L k s)" using alloc_frame_lowest [of L s] k by auto
  have wf': "heap_wf s' (as @ [?f]) {} ?lo (0x40000000 + Suc k * 4096)" using link(1) by (simp add: add.assoc)
  have bm': "{f0..<Suc k} \<inter> bitmap_frames L = {}" using I(4,6) kF by (auto simp: less_Suc_eq)
  have "region f0 (Suc k) \<inter> ?bm = {}" by (rule region_apart_bitmap [OF L _ bm']) (use kF in simp)
  then have "headers (set (as @ [?f])) \<inter> ?bm = {}" using headers_in_region [OF wf'] by blast
  moreover have "span (pmm_bitmap_start L) 0x8000 \<subseteq> ?bm" by (auto simp: mem_span)
  ultimately have fr: "free_frames L (mem s') = free_frames L (mem ?t)"
    using link(3) by (intro free_frames_cong) (auto simp: only_in_def)
  then show fr': "free_frames L (mem s') = free_frames L (mem s) - {k}" using eff(1) by simp
  have "chunks (mem ?t) as = chunks (mem s) as"
    by (rule chunks_cong) (metis same)
  then show "chunks (mem s') (as @ [?f]) = chunks (mem s) as @ [(?f, 4048, True)]" using link(2) by simp
  have "span ?f 48 \<subseteq> region k (Suc k)" unfolding reg [symmetric] by (auto simp: mem_span)
  then have h: "headers (set (as @ [?f])) \<subseteq> headers (set as) \<union> region k (Suc k) \<union> ?bm" by (auto simp: headers_def)
  have "only_in (headers (set as) \<union> region k (Suc k) \<union> ?bm) (mem s) (mem ?t)"
    using eff(4) by (auto simp: only_in_def reg)
  then show "only_in (headers (set as) \<union> region k (Suc k) \<union> ?bm) (mem s) (mem s')"
    by (rule only_in_trans [OF _ only_in_mono [OF link(3) h]])
  have "free_memory s' = free_memory ?t" using link(4) by (metis heap_only_free_memory)
  then have "pmm_inv L s'" using eff(2) fr by (simp add: pmm_inv_def pmm_acct_def)
  moreover have "\<forall>i \<in> free_frames L (mem s'). Suc k \<le> i" using I(7) fr' by (auto simp: Suc_le_eq order_le_less)
  moreover have "tx_drains (uart s')" using link(5) I(3) by (simp add: take_frame_def)
  ultimately show "heap_inv L s' (as @ [?f]) f0 (Suc k)"
    using wf' bm' I(4) kF unfolding heap_inv_def by simp
qed

subsection \<open>Expansion\<close>

text \<open>The frames that \<open>n\<close> allocations would take follow on from the heap: either \<open>n\<close> frames from
  \<open>k\<close> on are free, or the free frames run out before and are consecutive.\<close>

definition room :: "nat set \<Rightarrow> nat \<Rightarrow> nat \<Rightarrow> bool" where
  "room F k n \<longleftrightarrow> (\<forall>i < n. k + i \<in> F) \<or> (\<exists>j \<le> n. F = {k..<k + j})"

lemma room_step: "room F k (Suc n) \<Longrightarrow> k \<in> F \<Longrightarrow> room (F - {k}) (Suc k) n"
proof -
  assume r: "room F k (Suc n)" "k \<in> F"
  show ?thesis
  proof (cases "\<forall>i < Suc n. k + i \<in> F")
    case True
    have "Suc k + i \<in> F - {k}" if "i < n" for i using True [rule_format, of "Suc i"] that by simp
    then show ?thesis by (simp add: room_def)
  next
    case False
    then obtain j where j: "j \<le> Suc n" "F = {k..<k + j}" using r(1) by (auto simp: room_def)
    with r(2) obtain i where "j = Suc i" by (cases j) auto
    with j have "i \<le> n" "F - {k} = {Suc k..<Suc k + i}" by auto
    then show ?thesis by (auto simp: room_def)
  qed
qed

lemma room_first: "room F k (Suc n) \<Longrightarrow> k \<in> F \<or> F = {}"
proof -
  assume "room F k (Suc n)"
  then consider "\<forall>i < Suc n. k + i \<in> F" | j where "F = {k..<k + j}" by (auto simp: room_def)
  then show ?thesis by cases (force, auto)
qed

lemma frame_addr_nz: "i < FRAMES \<Longrightarrow> frame_addr i \<noteq> NULL"
  using unat_frame_addr [of i] by auto

lemma expand_loop_wf:
  assumes L: "link_ok L"
  shows "heap_inv L s as f0 k \<Longrightarrow> room (free_frames L (mem s)) k n \<Longrightarrow>
    \<exists>s' j. j \<le> n \<and> expand_loop L n nb s = Some (j = n, if nb = NULL \<and> 0 < j then frame_addr k else nb, s') \<and>
      heap_inv L s' (as @ map frame_addr [k..<k + j]) f0 (k + j) \<and>
      free_frames L (mem s') = free_frames L (mem s) - {k..<k + j} \<and> (j < n \<longrightarrow> free_frames L (mem s') = {}) \<and>
      chunks (mem s') (as @ map frame_addr [k..<k + j]) =
        chunks (mem s) as @ map (\<lambda>i. (frame_addr i, 4048, True)) [k..<k + j] \<and>
      only_in (headers (set as) \<union> region k (k + j) \<union> span (pmm_bitmap_start L) 0x20000) (mem s) (mem s') \<and>
      grows s s' \<and> (\<forall>a \<in> set as. offlist (mem s) a \<longrightarrow> offlist (mem s') a) \<and>
      (\<forall>i \<in> {k..<k + j}. offlist (mem s') (frame_addr i)) \<and> free_list_head s' = free_list_head s \<and>
      {k..<k + j} \<subseteq> free_frames L (mem s)"
proof (induction n arbitrary: nb s as k)
  case 0
  then show ?case by (auto simp: grows_def)
next
  case (Suc n)
  note inv = Suc.prems(1)
  note I = heap_invD [OF inv]
  show ?case
  proof (cases "k \<in> free_frames L (mem s)")
    case False
    then have F: "free_frames L (mem s) = {}" using room_first [OF Suc.prems(2)] by simp
    let ?u = "s\<lparr>uart := kprint_uart ''PMM: ERROR - Out of physical frames!\<newline>'' [] s\<rparr>"
    have "tx_drains (uart ?u)" using kprint_fits(2) [OF pmm_fits(8) I(3)] by simp
    then obtain u where u: "kprint ''KHeap Error: Failed to allocate frame during expansion!\<newline>'' [] ?u = Some (?u\<lparr>uart := u\<rparr>)"
      "tx_drains u" by (rule kprint_heap [OF heap_fits(2)])
    have e: "expand_loop L (Suc n) nb s = Some (False, nb, s\<lparr>uart := u\<rparr>)"
      using alloc_frame_full [OF F I(3)] u(1) by simp
    have "heap_inv L (s\<lparr>uart := u\<rparr>) as f0 k"
      using inv u(2) by (simp add: heap_inv_def heap_wf_uart pmm_inv_def)
    with e F show ?thesis by (intro exI [of _ "s\<lparr>uart := u\<rparr>"] exI [of _ 0]) (simp add: grows_def)
  next
    case True
    define t where "t = expand_link (frame_addr k) (take_frame L k s)"
    note g = heap_inv_grow [OF L inv True, folded t_def]
    have kF: "k < FRAMES" using True free_frames_subset by blast
    have nz: "frame_addr k \<noteq> NULL" by (rule frame_addr_nz [OF kF])
    let ?nb = "if nb = NULL then frame_addr k else nb"
    have "room (free_frames L (mem t)) (Suc k) n" unfolding g(2) by (rule room_step [OF Suc.prems(2) True])
    from Suc.IH [OF g(1) this, of ?nb] obtain s' j where s': "j \<le> n"
      "expand_loop L n ?nb t = Some (j = n, if ?nb = NULL \<and> 0 < j then frame_addr (Suc k) else ?nb, s')"
      "heap_inv L s' ((as @ [frame_addr k]) @ map frame_addr [Suc k..<Suc k + j]) f0 (Suc k + j)"
      "free_frames L (mem s') = free_frames L (mem t) - {Suc k..<Suc k + j}"
      "j < n \<longrightarrow> free_frames L (mem s') = {}"
      "chunks (mem s') ((as @ [frame_addr k]) @ map frame_addr [Suc k..<Suc k + j]) =
        chunks (mem t) (as @ [frame_addr k]) @ map (\<lambda>i. (frame_addr i, 4048, True)) [Suc k..<Suc k + j]"
      "only_in (headers (set (as @ [frame_addr k])) \<union> region (Suc k) (Suc k + j) \<union> span (pmm_bitmap_start L) 0x20000) (mem t) (mem s')"
      "grows t s'" "\<forall>a \<in> set (as @ [frame_addr k]). offlist (mem t) a \<longrightarrow> offlist (mem s') a"
      "\<forall>i \<in> {Suc k..<Suc k + j}. offlist (mem s') (frame_addr i)" "free_list_head s' = free_list_head t"
      "{Suc k..<Suc k + j} \<subseteq> free_frames L (mem t)"
      by blast
    have up: "[k..<k + Suc j] = k # [Suc k..<Suc k + j]" by (simp add: upt_conv_Cons)
    let ?X = "headers (set as) \<union> region k (k + Suc j) \<union> span (pmm_bitmap_start L) 0x20000"
    have rs: "region k (Suc k) \<subseteq> region k (Suc (k + j))" "region (Suc k) (Suc (k + j)) \<subseteq> region k (Suc (k + j))"
      by (auto simp: region_def)
    have "span (frame_addr k) 48 \<subseteq> span (frame_addr k) 4096" by (auto simp: mem_span)
    then have "span (frame_addr k) 48 \<subseteq> region k (Suc k)" using frame_region [OF kF] by simp
    then have "only_in ?X (mem t) (mem s')"
      by (intro only_in_mono [OF s'(7)]) (use rs in \<open>auto simp: headers_def\<close>)
    moreover have "only_in ?X (mem s) (mem t)" by (rule only_in_mono [OF g(4)]) (use rs in auto)
    ultimately have "only_in ?X (mem s) (mem s')" by (blast intro: only_in_trans)
    moreover have "expand_loop L (Suc n) nb s = Some (Suc j = Suc n, if nb = NULL \<and> 0 < Suc j then frame_addr k else nb, s')"
      using s'(2) g(6) nz by (auto simp: t_def)
    moreover have "heap_inv L s' (as @ map frame_addr [k..<k + Suc j]) f0 (k + Suc j)"
      unfolding up using s'(3) by (simp del: upt_Suc)
    moreover have "chunks (mem s') (as @ map frame_addr [k..<k + Suc j]) =
        chunks (mem s) as @ map (\<lambda>i. (frame_addr i, 4048, True)) [k..<k + Suc j]"
      unfolding up using s'(6) g(3) by (simp del: upt_Suc)
    moreover have up': "{k..<k + Suc j} = insert k {Suc k..<Suc k + j}" by auto
    have "(\<forall>a \<in> set as. offlist (mem s) a \<longrightarrow> offlist (mem s') a) \<and>
        (\<forall>i \<in> {k..<k + Suc j}. offlist (mem s') (frame_addr i)) \<and> free_list_head s' = free_list_head s"
      unfolding up' using s'(9-11) g(7-9) by simp
    moreover have "free_frames L (mem s') = free_frames L (mem s) - {k..<k + Suc j}"
      unfolding s'(4) g(2) up' by blast
    moreover have "{k..<k + Suc j} \<subseteq> free_frames L (mem s)" using s'(12) True unfolding g(2) up' by blast
    ultimately show ?thesis
      using s'(1,5) grows_trans [OF g(5) s'(8)]
      by (intro exI [of _ s'] exI [of _ "Suc j"] conjI) simp_all
  qed
qed

text \<open>Writes inside the heap's own frames leave the frame allocator alone.\<close>

lemma heap_inv_keep:
  assumes L: "link_ok L" and inv: "heap_inv L s as f0 k"
    and wf: "heap_wf s' as' {} (0x40000000 + f0 * 4096) (0x40000000 + k * 4096)"
    and only: "heap_only s s'" "only_in (region f0 k) (mem s) (mem s')" and tx: "tx_drains (uart s')"
  shows "heap_inv L s' as' f0 k" and "free_frames L (mem s') = free_frames L (mem s)"
proof -
  note I = heap_invD [OF inv]
  have "span (pmm_bitmap_start L) 0x8000 \<subseteq> span (pmm_bitmap_start L) 0x20000" by (auto simp: mem_span)
  then show fr: "free_frames L (mem s') = free_frames L (mem s)"
    using only(2) region_apart_bitmap [OF L I(5,6)] by (intro free_frames_cong) (auto simp: only_in_def)
  then have "pmm_inv L s'" using I(2) heap_only_free_memory [OF only(1)] by (simp add: pmm_inv_def pmm_acct_def)
  then show "heap_inv L s' as' f0 k" using I wf tx fr by (simp add: heap_inv_def)
qed

text \<open>A page that is on no list but its own can be treated as pending.\<close>

lemma heap_wf_drop:
  assumes wf: "heap_wf s as {} lo hi" and f: "f \<in> set as" "offlist (mem s) f" "free_list_head s \<noteq> f"
  shows "heap_wf s as {f} lo hi"
proof (cases "is_free (blk (mem s) f)")
  case False
  then have "{a \<in> set as. is_free (blk (mem s) a)} - {f} = {a \<in> set as. is_free (blk (mem s) a)} - {}" by auto
  with wf show ?thesis by (simp only: heap_wf_def)
next
  case True
  let ?H = "blk (mem s)"
  obtain cs where C: "chains ?H (free_list_head s) cs" "set (concat cs) = {a \<in> set as. is_free (?H a)} - {}"
    using wf by (auto simp: heap_wf_def)
  then have fc: "f \<in> set (concat cs)" using f True by auto
  obtain ds es xs ys where cs: "cs = ds @ (xs @ f # ys) # es"
    "prev_free (?H f) = (if xs = [] then NULL else last xs)" "next_free (?H f) = (if ys = [] then NULL else hd ys)"
    by (rule chains_at [OF C(1) fc])
  have nz: "NULL \<notin> set (concat cs)" using C(1) by (simp add: chains_def)
  then have "last xs \<noteq> NULL" if "xs \<noteq> []" using that by (metis cs(1) UnCI concat.simps(2) concat_append last_in_set set_append)
  moreover have "hd ys \<noteq> NULL" if "ys \<noteq> []" using that nz by (cases ys) (auto simp: cs(1))
  ultimately have nil: "xs = []" "ys = []" using f(2) cs(2,3) by (auto simp: offlist_def split: if_splits)
  then have cs': "cs = ds @ [f] # es" using cs(1) by simp
  have "chains ?H (free_list_head s) (ds @ es)"
    using C(1) f(3) by (auto simp: chains_def cs')
  moreover have "f \<notin> set (concat (ds @ es))" using C(1) by (auto simp: chains_def cs')
  then have "set (concat (ds @ es)) = {a \<in> set as. is_free (?H a)} - {f}" using C(2) by (auto simp: cs')
  ultimately show ?thesis using wf unfolding heap_wf_def by blast
qed

definition grow_chunks :: "chunk list \<Rightarrow> chunk list \<Rightarrow> chunk list" where
  "grow_chunks cs new =
     (case rev cs of (p, n, True) # ws \<Rightarrow> rev ws @ (p, n + (fst (snd (hd new)) + 48), True) # tl new
      | _ \<Rightarrow> cs @ new)"

lemma grow_chunks_eq:
  "grow_chunks (chunks m as) new =
     (if as \<noteq> [] \<and> is_free (blk m (last as))
      then chunks m (butlast as) @ (last as, hsize (blk m (last as)) + (fst (snd (hd new)) + 48), True) # tl new
      else chunks m as @ new)"
  by (cases as rule: rev_cases) (auto simp: grow_chunks_def)

lemma expand_finish_wf:
  assumes wf: "heap_wf s (as @ f # fs) {} lo hi" and off: "offlist (mem s) f" "free_list_head s \<noteq> f"
  obtains s' as' where "(case expand_merge f s of (b, s) \<Rightarrow> Some (True, add_to_free_list b s)) = Some (True, s')"
    and "heap_wf s' as' {} lo hi" and "heap_only s s'" and "uart s' = uart s"
    and "only_in (headers (set (as @ f # fs))) (mem s) (mem s')"
    and "is_free (blk (mem s) f) \<Longrightarrow>
      chunks (mem s') as' = grow_chunks (chunks (mem s) as) (chunks (mem s) (f # fs))"
    and "free_list_head s' = (if as \<noteq> [] \<and> is_free (blk (mem s) (last as)) then last as else f)"
proof -
  let ?H = "blk (mem s)" and ?as = "as @ f # fs"
  have wff: "heap_wf s ?as {f} lo hi" by (rule heap_wf_drop [OF wf _ off]) simp
  have dis: "distinct ?as" by (rule tiles_distinct [OF heap_wf_tiles [OF wf]])
  have pv: "hprev (?H f) = (if as = [] then NULL else last as)"
    using wf block_list_links(1) [of ?H _ _ as f fs] by (auto simp: heap_wf_def)
  show thesis
  proof (cases "as \<noteq> [] \<and> is_free (?H (last as))")
    case False
    then have m: "expand_merge f s = (f, s)" using pv by (auto simp: expand_merge_def)
    have fin: "f \<in> set ?as" "is_free (?H f) \<longrightarrow> f \<in> {f}" by simp_all
    note add = heap_wf_add [OF wff fin]
    have "chunks (mem (add_to_free_list f s)) ?as = chunks (mem s) as @ chunks (mem s) (f # fs)"
      if "is_free (?H f)"
      unfolding chunks_simps(3) [symmetric] by (rule chunks_cong) (use add(6) that in auto)
    with that [of "add_to_free_list f s" ?as] add False m show thesis
      by (simp add: grow_chunks_eq if_not_P) (simp add: add_to_free_list_def Let_def)
  next
    case True
    then obtain p ws where as: "as = ws @ [p]" by (cases as rule: rev_cases) auto
    define t where "t = remove_from_free_list p s"
    have wfp: "heap_wf s (ws @ p # f # fs) {f} lo hi" using wff as by simp
    have p: "p \<in> set (ws @ p # f # fs)" "is_free (?H p)" "p \<notin> {f}" using True dis by (auto simp: as)
    note rem = heap_wf_remove [OF wfp p, folded t_def]
    have ff: "is_free (blk (mem t) f) \<longrightarrow> f \<in> {f}" by simp
    define t2 where "t2 = absorb p f t"
    note ab = heap_wf_absorb [OF rem(1) ff, folded t2_def]
    have p2: "p \<in> set (ws @ p # fs)" "is_free (blk (mem t2) p) \<longrightarrow> p \<in> {f}"
      using ab(5) [of p] rem(6) [of p] by auto
    note add = heap_wf_add [OF ab(1) p2]
    have sp: "sep p f" "p \<noteq> f" "p \<noteq> NULL" using sepsetD [OF heap_wf_sepset [OF wfp]] dis as by auto
    have "expand_merge f s = (p, t2)"
      using True pv sp by (simp add: expand_merge_def as t2_def absorb_def t_def [symmetric] Let_def blk_put)
    moreover have "heap_wf (add_to_free_list p t2) (ws @ p # fs) {} lo hi"
      using add(1) heap_wf_pending [of f "ws @ p # fs" _ "{f} - {p}"] dis as by auto
    moreover have "heap_only s (add_to_free_list p t2)"
      using heap_only_trans [OF rem(3) heap_only_trans [OF ab(3) add(3)]] .
    moreover have "only_in (headers (set ?as)) (mem s) (mem (add_to_free_list p t2))"
    proof -
      have "only_in (headers (set ?as)) (mem t2) (mem (add_to_free_list p t2))"
        by (rule only_in_mono [OF add(2) headers_mono]) (auto simp: as)
      then show ?thesis using only_in_trans [OF rem(2) only_in_trans [OF ab(2)]] by (simp add: as)
    qed
    moreover have "chunks (mem (add_to_free_list p t2)) (ws @ p # fs) =
        grow_chunks (chunks (mem s) as) (chunks (mem s) (f # fs))"
    proof -
      have "is_free (blk (mem (add_to_free_list p t2)) c) = is_free (?H c) \<and>
          hsize (blk (mem (add_to_free_list p t2)) c) = hsize (?H c)" if "c \<in> set ws \<union> set fs" for c
        using that add(6) [of c] ab(5) [of c] rem(6) [of c] dis by (auto simp: as)
      then have "chunks (mem (add_to_free_list p t2)) ws = chunks (mem s) ws"
        "chunks (mem (add_to_free_list p t2)) fs = chunks (mem s) fs"
        by (auto intro!: chunks_cong)
      moreover have "is_free (blk (mem (add_to_free_list p t2)) p)"
        "hsize (blk (mem (add_to_free_list p t2)) p) = hsize (?H p) + (hsize (?H f) + 48)"
        using add(6) [of p] ab(5) [of p] rem(6) [of p] rem(6) [of f] by simp_all
      ultimately show ?thesis using p(2) by (simp add: grow_chunks_def as)
    qed
    ultimately show thesis
      using that [of "add_to_free_list p t2" "ws @ p # fs"] True add(4) ab(4) rem(4)
      by (simp add: as) (simp add: add_to_free_list_def Let_def)
  qed
qed

definition page_count :: "u64 \<Rightarrow> u64" where
  "page_count m = (let p = (m + 48 + 4096 - 1) div 4096 in if p = 0 then 1 else p)"

definition pages_for :: "u64 \<Rightarrow> nat" where
  "pages_for m = unat (page_count m)"

lemma pages_for_pos: "0 < pages_for m"
  by (simp add: pages_for_def page_count_def Let_def unat_gt_0)

lemma expand_heap_eq:
  "expand_heap L m s = do {
     s \<leftarrow> kprint ''KHeap: Expanding heap by %zu pages\<newline>'' [VA (page_count m)] s;
     (ok, new_block, s) \<leftarrow> expand_loop L (pages_for m) NULL s;
     if \<not> ok then Some (False, s)
     else if new_block = NULL then Some (False, s)
     else case expand_merge new_block s of (new_block, s) \<Rightarrow> Some (True, add_to_free_list new_block s) }"
  unfolding expand_heap_def page_count_def pages_for_def PAGE_SIZE_def HEAP_HEADER_SIZE_def Let_def ..

definition pages :: "nat \<Rightarrow> nat \<Rightarrow> chunk list" where
  "pages k n = map (\<lambda>i. (frame_addr i, 4048, True)) [k..<k + n]"

lemma heap_wf_head:
  assumes "heap_wf s as P lo hi"
  shows "free_list_head s \<in> insert NULL (set as)"
proof -
  obtain cs where "chains (blk (mem s)) (free_list_head s) cs"
    "set (concat cs) = {a \<in> set as. is_free (blk (mem s) a)} - P"
    using assms by (auto simp: heap_wf_def)
  then show ?thesis using chains_head by blast
qed

lemma expand_heap_wf:
  assumes L: "link_ok L" and inv: "heap_inv L s as f0 k" and rm: "room (free_frames L (mem s)) k (pages_for m)"
  obtains s' as' j where "expand_heap L m s = Some (j = pages_for m, s')" and "j \<le> pages_for m"
    and "heap_inv L s' as' f0 (k + j)"
    and "chunks (mem s') as' = (if j = pages_for m then grow_chunks (chunks (mem s) as) (pages k j)
       else chunks (mem s) as @ pages k j)"
    and "j = pages_for m \<longrightarrow> free_list_head s' =
       (if as \<noteq> [] \<and> is_free (blk (mem s) (last as)) then last as else frame_addr k)"
    and "j < pages_for m \<longrightarrow> free_frames L (mem s') = {}"
    and "free_frames L (mem s') = free_frames L (mem s) - {k..<k + j}"
    and "only_in (headers (set as) \<union> region k (k + j) \<union> span (pmm_bitmap_start L) 0x20000) (mem s) (mem s')"
    and "grows s s'" and "{k..<k + j} \<subseteq> free_frames L (mem s)"
proof -
  let ?n = "pages_for m"
  obtain u where u: "kprint ''KHeap: Expanding heap by %zu pages\<newline>'' [VA (page_count m)] s = Some (s\<lparr>uart := u\<rparr>)" "tx_drains u"
    by (rule kprint_heap [OF heap_fits(1) heap_invD(3) [OF inv]])
  have inv0: "heap_inv L (s\<lparr>uart := u\<rparr>) as f0 k"
    using inv u(2) by (simp add: heap_inv_def heap_wf_uart pmm_inv_def)
  obtain t j where t: "j \<le> ?n" "expand_loop L ?n NULL (s\<lparr>uart := u\<rparr>) = Some (j = ?n, if 0 < j then frame_addr k else NULL, t)"
    "heap_inv L t (as @ map frame_addr [k..<k + j]) f0 (k + j)"
    "free_frames L (mem t) = free_frames L (mem s) - {k..<k + j}" "j < ?n \<longrightarrow> free_frames L (mem t) = {}"
    "chunks (mem t) (as @ map frame_addr [k..<k + j]) = chunks (mem s) as @ pages k j"
    "only_in (headers (set as) \<union> region k (k + j) \<union> span (pmm_bitmap_start L) 0x20000) (mem s) (mem t)"
    "grows (s\<lparr>uart := u\<rparr>) t" "\<forall>i \<in> {k..<k + j}. offlist (mem t) (frame_addr i)" "free_list_head t = free_list_head s"
    "{k..<k + j} \<subseteq> free_frames L (mem s)"
    using expand_loop_wf [OF L inv0, of ?n NULL] rm by (simp only: pages_def) (auto)
  have gr: "grows s t" using t(8) by (cases s, cases t) (simp add: grows_def)
  have ex: "expand_heap L m s = (if j \<noteq> ?n then Some (False, t)
      else case expand_merge (frame_addr k) t of (b, s) \<Rightarrow> Some (True, add_to_free_list b s))"
  proof (cases "j = ?n")
    case True
    then have "frame_addr k \<noteq> NULL" "0 < j"
      using pages_for_pos [of m] heap_invD(5) [OF t(3)] by (auto intro!: frame_addr_nz)
    with True t(2) u(1) show ?thesis by (simp add: expand_heap_eq)
  next
    case False
    with t(2) u(1) show ?thesis by (simp add: expand_heap_eq)
  qed
  show thesis
  proof (cases "j = ?n")
    case False
    then show thesis using that [OF _ t(1,3)] ex t gr by simp
  next
    case True
    let ?f = "frame_addr k" and ?fs = "map frame_addr [Suc k..<k + j]"
    have j: "0 < j" using True pages_for_pos by simp
    then have up: "map frame_addr [k..<k + j] = ?f # ?fs" by (simp add: upt_conv_Cons)
    note I = heap_invD [OF t(3), unfolded up]
    have dis: "distinct (as @ ?f # ?fs)" by (rule tiles_distinct [OF heap_wf_tiles [OF I(1)]])
    have ch: "chunks (mem t) as = chunks (mem s) as" "chunks (mem t) (?f # ?fs) = pages k j"
      using t(6) unfolding up chunks_simps(3) by (auto simp del: chunks_simps(2) dest: append_eq_append_conv [THEN iffD1, rotated])
    have off: "offlist (mem t) ?f" using t(9) j by simp
    have hd: "free_list_head t \<noteq> ?f"
      using heap_wf_head [OF heap_invD(1) [OF inv]] dis frame_addr_nz [of k] I(5) j t(10) by auto
    obtain s' as' where s': "(case expand_merge ?f t of (b, s) \<Rightarrow> Some (True, add_to_free_list b s)) = Some (True, s')"
      "heap_wf s' as' {} (0x40000000 + f0 * 4096) (0x40000000 + (k + j) * 4096)" "heap_only t s'" "uart s' = uart t"
      "only_in (headers (set (as @ ?f # ?fs))) (mem t) (mem s')"
      "is_free (blk (mem t) ?f) \<Longrightarrow> chunks (mem s') as' = grow_chunks (chunks (mem t) as) (chunks (mem t) (?f # ?fs))"
      "free_list_head s' = (if as \<noteq> [] \<and> is_free (blk (mem t) (last as)) then last as else ?f)"
      using expand_finish_wf [OF I(1) off hd] by blast
    have free_f: "is_free (blk (mem t) ?f)" using ch(2) j by (simp add: pages_def upt_conv_Cons)
    have lst: "is_free (blk (mem t) (last as)) = is_free (blk (mem s) (last as))" if "as \<noteq> []"
      using ch(1) that by (simp add: chunks_last)
    have inv': "heap_inv L s' as' f0 (k + j)"
      by (rule heap_inv_keep(1) [OF L t(3) s'(2,3) only_in_mono [OF s'(5) headers_in_region [OF I(1)]]])
        (use s'(4) I(3) in simp)
    have fr: "free_frames L (mem s') = free_frames L (mem t)"
      by (rule heap_inv_keep(2) [OF L t(3) s'(2,3) only_in_mono [OF s'(5) headers_in_region [OF I(1)]]])
        (use s'(4) I(3) in simp)
    let ?X = "headers (set as) \<union> region k (k + j) \<union> span (pmm_bitmap_start L) 0x20000"
    have "span a 48 \<subseteq> region k (k + j)" if "a \<in> set (?f # ?fs)" for a
    proof -
      have "a \<in> set (map frame_addr [k..<k + j])" using that unfolding up .
      then obtain i where i: "a = frame_addr i" "k \<le> i" "i < k + j" by auto
      then have "span a 4096 = region i (Suc i)" using I(5) frame_region [of i] by simp
      moreover have "span a 48 \<subseteq> span a 4096" by (auto simp: mem_span)
      ultimately show ?thesis using i by (auto simp: region_def)
    qed
    then have "headers (set (as @ ?f # ?fs)) \<subseteq> ?X" unfolding headers_def set_append by blast
    then have only: "only_in ?X (mem s) (mem s')" using only_in_trans [OF t(7) only_in_mono [OF s'(5)]] by blast
    have "expand_heap L m s = Some (j = ?n, s')" using ex s'(1) True by simp
    moreover have "chunks (mem s') as' = (if j = ?n then grow_chunks (chunks (mem s) as) (pages k j)
       else chunks (mem s) as @ pages k j)" using s'(6) [OF free_f] ch True by simp
    moreover have "j = ?n \<longrightarrow> free_list_head s' =
       (if as \<noteq> [] \<and> is_free (blk (mem s) (last as)) then last as else frame_addr k)" using s'(7) lst by auto
    ultimately show thesis
      using that [OF _ t(1) inv'] t(4,11) fr only True grows_trans [OF gr heap_only_grows [OF s'(3)]] by simp
  qed
qed

end
