(* ===== verification/Kheap_Calls.thy ===== *)
theory Kheap_Calls
  imports Kheap_Expand
begin

text \<open>
  The public interface of the heap over the invariant.  \<open>heap_blocks\<close> recovers the block list by
  walking it from \<open>heap_start\<close>, \<open>allocs\<close> is the set of allocated blocks, and \<open>keeps\<close> says
  that their data is untouched.  \<open>kmalloc_wf\<close>, \<open>kfree_inv\<close> and \<open>kheap_init_wf\<close> are the
  effects of the three calls, on every branch.
\<close>

subsection \<open>The blocks of a heap, by walking it\<close>

fun walk :: "nat \<Rightarrow> mem \<Rightarrow> u64 \<Rightarrow> u64 list" where
  "walk 0 m a = []"
| "walk (Suc n) m a = (if a = NULL then [] else a # walk n m (hnext (blk m a)))"

definition heap_blocks :: "'a kheap_state_scheme \<Rightarrow> u64 list" where
  "heap_blocks s = walk 0x4000000 (mem s) (heap_start s)"

lemma walk_dseg:
  "dseg (hnext \<circ> blk m) pv p as NULL \<Longrightarrow> NULL \<notin> set as \<Longrightarrow> length as \<le> n \<Longrightarrow>
   walk n m (if as = [] then NULL else hd as) = as"
proof (induction as arbitrary: n p)
  case Nil
  then show ?case by (cases n) simp_all
next
  case (Cons a as)
  from Cons.prems(3) obtain k where n: "n = Suc k" "length as \<le> k" by (cases n) simp_all
  have d: "dseg (hnext \<circ> blk m) pv a as NULL" "NULL \<notin> set as" "a \<noteq> NULL"
    "hnext (blk m a) = (if as = [] then NULL else hd as)"
    using Cons.prems by (auto simp: comp_def)
  from Cons.IH [OF d(1,2) n(2)] d(3,4) show ?case by (simp add: n(1))
qed

lemma tiles_length: "tiles sz lo as hi \<Longrightarrow> lo + 48 * length as \<le> hi"
  by (induction as arbitrary: lo) fastforce+

lemma heap_blocks_wf:
  assumes "heap_wf s as P lo hi"
  shows "heap_blocks s = as"
proof -
  have "lo + 48 * length as \<le> hi" by (rule tiles_length [OF heap_wf_tiles [OF assms]])
  then have "length as \<le> 0x4000000" using assms by (simp add: heap_wf_def)
  moreover have "dseg (hnext \<circ> blk (mem s)) (hprev \<circ> blk (mem s)) NULL as NULL"
    "heap_start s = (if as = [] then NULL else hd as)" "NULL \<notin> set as"
    using assms heap_wf_nz [OF assms] by (auto simp: heap_wf_def block_list_def)
  ultimately show ?thesis unfolding heap_blocks_def by (simp only:) (rule walk_dseg)
qed

subsection \<open>Allocated chunks\<close>

definition live_chunks :: "chunk list \<Rightarrow> (u64 \<times> u64) set" where
  "live_chunks cs = {(a, n). (a, n, False) \<in> set cs}"

lemma live_chunks_simps [simp]:
  "live_chunks [] = {}" "live_chunks (xs @ ys) = live_chunks xs \<union> live_chunks ys"
  "live_chunks ((a, n, f) # xs) = (if f then live_chunks xs else insert (a, n) (live_chunks xs))"
  by (auto simp: live_chunks_def)

lemma live_pages [simp]: "live_chunks (pages k n) = {}"
  by (auto simp: live_chunks_def pages_def)

lemma live_chunks_rev [simp]: "live_chunks (rev xs) = live_chunks xs"
  by (simp add: live_chunks_def)

lemma live_grow: "0 < n \<Longrightarrow> live_chunks (grow_chunks cs (pages k n)) = live_chunks cs"
proof -
  assume "0 < n"
  then have tl: "live_chunks (tl (pages k n)) = {}" by (auto simp: live_chunks_def pages_def upt_conv_Cons simp del: upt_Suc)
  show ?thesis
  proof (cases "rev cs")
    case (Cons c ws)
    then have "cs = rev ws @ [c]" by (metis rev.simps(2) rev_rev_ident)
    with Cons tl show ?thesis by (auto simp: grow_chunks_def split: prod.split bool.splits)
  qed (simp add: grow_chunks_def)
qed

lemma live_free:
  assumes "(a, n) \<notin> live_chunks xs" and "(a, n) \<notin> live_chunks ys"
  shows "live_chunks (free_chunk xs a k ys) = live_chunks (xs @ (a, n, False) # ys) - {(a, n)}"
proof -
  obtain k' ys' where k': "(case ys of (b, j, True) # zs \<Rightarrow> (k + (j + 48), zs) | _ \<Rightarrow> (k, ys)) = (k', ys')"
    by fastforce
  then have y: "live_chunks ys' = live_chunks ys"
    by (auto split: list.splits prod.splits bool.splits)
  have "live_chunks (case rev xs of (p, j, True) # ws \<Rightarrow> rev ws @ (p, j + (k' + 48), True) # ys'
         | _ \<Rightarrow> xs @ (a, k', True) # ys') = live_chunks xs \<union> live_chunks ys"
  proof (cases "rev xs")
    case (Cons c ws)
    then have "xs = rev ws @ [c]" by (metis rev.simps(2) rev_rev_ident)
    with Cons y show ?thesis by (auto split: prod.split bool.splits)
  qed (simp add: y)
  with assms show ?thesis by (auto simp: free_chunk_def k')
qed

lemma live_take [simp]: "live_chunks (take_chunk a n z) = {(a, if z + 96 \<le> n then z else n)}"
  by (simp add: take_chunk_def)

lemma find_SomeD: "List.find P xs = Some x \<Longrightarrow> x \<in> set xs \<and> P x"
  by (auto simp: find_Some_iff)

subsection \<open>Allocation\<close>

definition align8 :: "u64 \<Rightarrow> u64" where
  "align8 z = (z + 8 - 1) AND NOT (8 - 1)"

lemma align8_nat: "unat (align8 z) = (unat z + 7) mod 2 ^ 64 div 8 * 8"
proof -
  have "align8 z = (z + 7) AND NOT (mask 3)" by (simp add: align8_def mask_eq_exp_minus_1 add.commute)
  also have "\<dots> = push_bit 3 (drop_bit 3 (z + 7))" by (rule bit_eqI) (auto simp: bit_simps)
  also have "\<dots> = (z + 7) div 8 * 8" by (simp add: push_bit_eq_mult drop_bit_eq_div)
  finally have "unat (align8 z) = unat ((z + 7) div 8) * 8 mod 2 ^ 64" by (simp add: unat_word_ariths)
  moreover have "unat ((z + 7) div 8) * 8 \<le> unat (z + 7)" by (simp add: unat_div)
  ultimately have "unat (align8 z) = unat ((z + 7) div 8) * 8" using unat_u64_lt [of "z + 7"] by simp
  then show ?thesis by (simp add: unat_div unat_word_ariths)
qed

lemma align8_dvd: "8 dvd unat (align8 z)"
  by (simp add: align8_nat)

lemma align8_ge:
  assumes "unat z + 7 < 2 ^ 64"
  shows "unat z \<le> unat (align8 z)" and "unat (align8 z) < unat z + 8"
proof -
  have e: "unat (align8 z) = (unat z + 7) div 8 * 8" using assms by (simp add: align8_nat)
  show "unat z \<le> unat (align8 z)" "unat (align8 z) < unat z + 8" unfolding e by arith+
qed

lemma kmalloc_eq:
  "kmalloc L z s = (if z = 0 then Some (NULL, s) else do {
     best_fit \<leftarrow> first_fit (mem s) (free_list_head s) (align8 z);
     if best_fit \<noteq> NULL then kmalloc_take best_fit (align8 z) s
     else do {
       (ok, s) \<leftarrow> expand_heap L (align8 z + 48) s;
       if \<not> ok then do {
         s \<leftarrow> kprint ''KHeap Error: Failed to expand heap for allocation of size %zu\<newline>'' [VA (align8 z)] s;
         Some (NULL, s) }
       else do {
         best_fit \<leftarrow> first_fit (mem s) (free_list_head s) (align8 z);
         if best_fit = NULL then do {
           s \<leftarrow> kprint ''KHeap Error: Still no suitable block after expansion!\<newline>'' [] s;
           Some (NULL, s) }
         else kmalloc_take best_fit (align8 z) s }}})"
  unfolding kmalloc_def align8_def HEAP_HEADER_SIZE_def Let_def ..

definition allocs :: "mem \<Rightarrow> u64 list \<Rightarrow> (u64 \<times> u64) set" where
  "allocs m as = live_chunks (chunks m as)"

definition keeps :: "(u64 \<times> u64) set \<Rightarrow> mem \<Rightarrow> mem \<Rightarrow> bool" where
  "keeps A m m' \<longleftrightarrow> (\<forall>(c, n) \<in> A. \<forall>x \<in> span (c + 48) (unat n). m' x = m x)"

lemma allocs_iff: "(c, n) \<in> allocs m as \<longleftrightarrow> c \<in> set as \<and> n = hsize (blk m c) \<and> \<not> is_free (blk m c)"
  by (auto simp: allocs_def live_chunks_def chunks_def)

lemma keeps_trans: "keeps A m m' \<Longrightarrow> keeps A m' m'' \<Longrightarrow> keeps A m m''"
  by (fastforce simp: keeps_def)

lemma keeps_only_in:
  assumes "only_in X m m'" and "\<And>c n. (c, n) \<in> A \<Longrightarrow> span (c + 48) (unat n) \<inter> X = {}"
  shows "keeps A m m'"
  using assms by (fastforce simp: keeps_def only_in_def)

text \<open>
  What a call may touch beside the heap's own data: it takes the \<open>j\<close> lowest free frames, which follow
  the heap, and writes only the heap's frames and the frame bitmap.
\<close>

definition extends :: "layout \<Rightarrow> nat \<Rightarrow> nat \<Rightarrow> nat \<Rightarrow> 'a kheap_state_scheme \<Rightarrow> 'a kheap_state_scheme \<Rightarrow> bool" where
  "extends L f0 k j s s' \<longleftrightarrow> grows s s' \<and> {k..<k + j} \<subseteq> free_frames L (mem s) \<and>
     free_frames L (mem s') = free_frames L (mem s) - {k..<k + j} \<and>
     only_in (region f0 (k + j) \<union> span (pmm_bitmap_start L) 0x20000) (mem s) (mem s')"

lemma extends_trans:
  assumes "extends L f0 k i s t" and "extends L f0 (k + i) j t u"
  shows "extends L f0 k (i + j) s u"
proof -
  let ?B = "span (pmm_bitmap_start L) 0x20000"
  have u: "{k..<k + (i + j)} = {k..<k + i} \<union> {k + i..<k + i + j}" by auto
  have D: "only_in (region f0 (k + i) \<union> ?B) (mem s) (mem t)" "only_in (region f0 (k + (i + j)) \<union> ?B) (mem t) (mem u)"
    "grows s t" "grows t u" using assms by (simp_all add: extends_def add.assoc)
  have "region f0 (k + i) \<union> ?B \<subseteq> region f0 (k + (i + j)) \<union> ?B" by (auto simp: region_def)
  note only = only_in_trans [OF only_in_mono [OF D(1) this] D(2)] and gr = grows_trans [OF D(3,4)]
  have "{k..<k + (i + j)} \<subseteq> free_frames L (mem s) \<and> free_frames L (mem u) = free_frames L (mem s) - {k..<k + (i + j)}"
    using assms unfolding extends_def u by blast
  with only gr show ?thesis by (simp add: extends_def)
qed

lemma extends_uart: "extends L f0 k j s t \<Longrightarrow> extends L f0 k j s (t\<lparr>uart := u\<rparr>)"
  by (cases s, cases t) (simp add: extends_def grows_def)

lemma extends_keep:
  assumes "link_ok L" and "heap_inv L s as f0 k"
    and "heap_wf s' as' {} (0x40000000 + f0 * 4096) (0x40000000 + k * 4096)"
    and "heap_only s s'" and "only_in (region f0 k) (mem s) (mem s')" and "tx_drains (uart s')"
  shows "extends L f0 k 0 s s'"
  using heap_inv_keep(2) [OF assms] heap_only_grows [OF assms(4)] only_in_mono [OF assms(5)]
  by (simp add: extends_def)

lemma serve:
  assumes L: "link_ok L" and inv: "heap_inv L s as f0 k" and b: "b \<in> set as" "is_free (blk (mem s) b)"
    and z: "8 dvd unat z" "z \<le> hsize (blk (mem s) b)"
  obtains s' as' n where "kmalloc_take b z s = Some (b + 48, s')" and "heap_inv L s' as' f0 k" and "extends L f0 k 0 s s'"
    and "allocs (mem s') as' = insert (b, n) (allocs (mem s) as)" and "z \<le> n"
    and "\<forall>x \<in> span (b + 48) (unat n). mem s' x = 0" and "keeps (allocs (mem s) as) (mem s) (mem s')"
proof -
  note I = heap_invD [OF inv]
  obtain xs ys where as: "as = xs @ b # ys" using split_list [OF b(1)] by blast
  obtain s' as' where s': "kmalloc_take b z s = Some (b + 48, s')"
    "heap_wf s' as' {} (0x40000000 + f0 * 4096) (0x40000000 + k * 4096)" "b \<in> set as'"
    "chunks (mem s') as' = chunks (mem s) xs @ take_chunk b (hsize (blk (mem s) b)) z @ chunks (mem s) ys"
    "\<forall>x \<in> data_span (mem s') b. mem s' x = 0"
    "only_in (headers (set as) \<union> data_span (mem s) b) (mem s) (mem s')" "heap_only s s'" "tx_drains (uart s')"
    using kmalloc_take_wf [OF I(1) [unfolded as] b(2) z I(3)] by (auto simp: as)
  define n where "n = (if z + 96 \<le> hsize (blk (mem s) b) then z else hsize (blk (mem s) b))"
  have al: "allocs (mem s') as' = insert (b, n) (allocs (mem s) as)"
    using b(2) by (simp add: allocs_def s'(4) n_def as)
  then have "n = hsize (blk (mem s') b)" using allocs_iff [of b n "mem s'" as'] by auto
  then have zero: "\<forall>x \<in> span (b + 48) (unat n). mem s' x = 0" using s'(5) by (simp add: data_span_def)
  have reg: "only_in (region f0 k) (mem s) (mem s')"
    by (rule only_in_mono [OF s'(6)]) (use headers_in_region [OF I(1)] block_in_region(2) [OF I(1) b(1)] in blast)
  note inv' = heap_inv_keep(1) [OF L inv s'(2,7) reg s'(8)] and ext = extends_keep [OF L inv s'(2,7) reg s'(8)]
  have "keeps (allocs (mem s) as) (mem s) (mem s')"
  proof (rule keeps_only_in [OF s'(6)])
    fix c n assume "(c, n) \<in> allocs (mem s) as"
    then have c: "c \<in> set as" "span (c + 48) (unat n) = data_span (mem s) c" "c \<noteq> b"
      using b(2) by (auto simp: allocs_iff data_span_def)
    show "span (c + 48) (unat n) \<inter> (headers (set as) \<union> data_span (mem s) b) = {}"
      using data_outside_headers [OF I(1) c(1)] data_disjoint [OF I(1) c(1) b(1) c(3)] unfolding c(2) by blast
  qed
  with that [OF s'(1) inv' ext al _ zero] z(2) show thesis by (simp add: n_def)
qed

text \<open>One search of the free list: nothing large enough, or the first block that is.\<close>

lemma search:
  assumes L: "link_ok L" and inv: "heap_inv L s as f0 k" and z: "8 dvd unat z"
  obtains (none) "first_fit (mem s) (free_list_head s) z = Some NULL"
  | (fit) b s' as' n where "first_fit (mem s) (free_list_head s) z = Some b" and "b \<noteq> NULL" and "b + 48 \<noteq> NULL"
    and "b \<notin> fst ` allocs (mem s) as"
    and "kmalloc_take b z s = Some (b + 48, s')" and "heap_inv L s' as' f0 k" and "extends L f0 k 0 s s'"
    and "allocs (mem s') as' = insert (b, n) (allocs (mem s) as)" and "z \<le> n"
    and "\<forall>x \<in> span (b + 48) (unat n). mem s' x = 0" and "keeps (allocs (mem s) as) (mem s) (mem s')"
proof -
  note I = heap_invD [OF inv]
  obtain c where c: "free_chain s c" "set c \<subseteq> {a \<in> set as. is_free (blk (mem s) a)} - {}" "NULL \<notin> set c"
    by (rule heap_wf_free_chain [OF I(1)])
  note ff = first_fit_wf [OF I(1) c(1,3), of z]
  show thesis
  proof (cases "List.find (\<lambda>a. z \<le> hsize (blk (mem s) a)) c")
    case None
    with ff none show thesis by simp
  next
    case (Some b)
    then have b: "b \<in> set as" "is_free (blk (mem s) b)" "z \<le> hsize (blk (mem s) b)" "b \<noteq> NULL"
      using c(2,3) find_SomeD [OF Some] by auto
    have "b \<notin> fst ` allocs (mem s) as" using b(2) by (auto simp: allocs_iff)
    moreover obtain s' as' n where "kmalloc_take b z s = Some (b + 48, s')" "heap_inv L s' as' f0 k" "extends L f0 k 0 s s'"
      "allocs (mem s') as' = insert (b, n) (allocs (mem s) as)" "z \<le> n"
      "\<forall>x \<in> span (b + 48) (unat n). mem s' x = 0" "keeps (allocs (mem s) as) (mem s) (mem s')"
      by (rule serve [OF L inv b(1,2) z b(3)])
    ultimately show thesis
      using fit [of b s' as' n] ff Some b(4) heap_wf_data_ptr(2) [OF I(1) b(1)] by simp
  qed
qed

lemma expand_heap_keeps:
  assumes L: "link_ok L" and inv: "heap_inv L s as f0 k" and rm: "room (free_frames L (mem s)) k (pages_for m)"
  obtains s' as' j where "expand_heap L m s = Some (j = pages_for m, s')" and "heap_inv L s' as' f0 (k + j)"
    and "extends L f0 k j s s'" and "allocs (mem s') as' = allocs (mem s) as" and "keeps (allocs (mem s) as) (mem s) (mem s')"
proof -
  note I = heap_invD [OF inv]
  obtain t as' j where t: "expand_heap L m s = Some (j = pages_for m, t)" "j \<le> pages_for m" "heap_inv L t as' f0 (k + j)"
    "chunks (mem t) as' = (if j = pages_for m then grow_chunks (chunks (mem s) as) (pages k j)
       else chunks (mem s) as @ pages k j)"
    "only_in (headers (set as) \<union> region k (k + j) \<union> span (pmm_bitmap_start L) 0x20000) (mem s) (mem t)" "grows s t"
    "free_frames L (mem t) = free_frames L (mem s) - {k..<k + j}" "{k..<k + j} \<subseteq> free_frames L (mem s)"
    using expand_heap_wf [OF L inv rm] by metis
  have "allocs (mem t) as' = allocs (mem s) as"
    using t(4) live_grow [of j "chunks (mem s) as" k] pages_for_pos [of m] by (auto simp: allocs_def split: if_splits)
  moreover have "keeps (allocs (mem s) as) (mem s) (mem t)"
  proof (rule keeps_only_in [OF t(5)])
    fix c n assume "(c, n) \<in> allocs (mem s) as"
    then have c: "c \<in> set as" "span (c + 48) (unat n) = data_span (mem s) c"
      by (auto simp: allocs_iff data_span_def)
    have "region f0 k \<inter> region k (k + j) = {}" by (auto simp: region_def)
    then show "span (c + 48) (unat n) \<inter> (headers (set as) \<union> region k (k + j) \<union> span (pmm_bitmap_start L) 0x20000) = {}"
      using data_outside_headers [OF I(1) c(1)] block_in_region(2) [OF I(1) c(1)] region_apart_bitmap [OF L I(5,6)]
      unfolding c(2) by blast
  qed
  moreover have "extends L f0 k j s t"
  proof -
    have "region f0 k \<union> region k (k + j) \<subseteq> region f0 (k + j)" using I(4) by (auto simp: region_def)
    then have "only_in (region f0 (k + j) \<union> span (pmm_bitmap_start L) 0x20000) (mem s) (mem t)"
      using headers_in_region [OF I(1)] by (intro only_in_mono [OF t(5)]) blast
    with t(6-8) show ?thesis by (simp add: extends_def)
  qed
  ultimately show thesis using that t(1,3) by blast
qed

lemma heap_inv_uart: "heap_inv L s as f0 k \<Longrightarrow> tx_drains u \<Longrightarrow> heap_inv L (s\<lparr>uart := u\<rparr>) as f0 k"
  by (simp add: heap_inv_def heap_wf_uart pmm_inv_def)

definition granted :: "mem \<Rightarrow> u64 list \<Rightarrow> u64 \<Rightarrow> mem \<Rightarrow> u64 list \<Rightarrow> u64 \<Rightarrow> bool" where
  "granted m as z m' as' p \<longleftrightarrow> (if p = NULL then allocs m' as' = allocs m as
     else \<exists>b n. p = b + 48 \<and> b \<notin> fst ` allocs m as \<and> allocs m' as' = insert (b, n) (allocs m as) \<and> z \<le> n \<and>
       (\<forall>x \<in> span (b + 48) (unat n). m' x = 0))"

text \<open>No block on the list is large enough: expansion, then a second search.\<close>

lemma kmalloc_miss:
  assumes L: "link_ok L" and inv: "heap_inv L s as f0 k" and z: "z \<noteq> 0"
    and rm: "room (free_frames L (mem s)) k (pages_for (align8 z + 48))"
    and none: "first_fit (mem s) (free_list_head s) (align8 z) = Some NULL"
  obtains p s' as' j where "kmalloc L z s = Some (p, s')" and "heap_inv L s' as' f0 (k + j)" and "extends L f0 k j s s'"
    and "keeps (allocs (mem s) as) (mem s) (mem s')" and "granted (mem s) as (align8 z) (mem s') as' p"
proof -
  note result = that
  obtain t as' j where t: "expand_heap L (align8 z + 48) s = Some (j = pages_for (align8 z + 48), t)"
    "heap_inv L t as' f0 (k + j)" "extends L f0 k j s t" "allocs (mem t) as' = allocs (mem s) as"
    "keeps (allocs (mem s) as) (mem s) (mem t)"
    by (rule expand_heap_keeps [OF L inv rm])
  note tx = heap_invD(3) [OF t(2)]
  have fail: thesis if "kmalloc L z s = Some (NULL, t\<lparr>uart := u\<rparr>)" "tx_drains u" for u
    using result [OF that(1) heap_inv_uart [OF t(2) that(2)] extends_uart [OF t(3)]] t(4,5) by (simp add: granted_def)
  show thesis
  proof (cases "j = pages_for (align8 z + 48)")
    case False
    obtain u where "kprint ''KHeap Error: Failed to expand heap for allocation of size %zu\<newline>'' [VA (align8 z)] t
        = Some (t\<lparr>uart := u\<rparr>)" "tx_drains u"
      by (rule kprint_heap [OF heap_fits(8) tx])
    with False show thesis using z none t(1) by (intro fail [of u]) (simp_all add: kmalloc_eq)
  next
    case True
    show thesis
    proof (rule search [OF L t(2) align8_dvd [of z]])
      assume none': "first_fit (mem t) (free_list_head t) (align8 z) = Some NULL"
      obtain u where "kprint ''KHeap Error: Still no suitable block after expansion!\<newline>'' [] t = Some (t\<lparr>uart := u\<rparr>)" "tx_drains u"
        by (rule kprint_heap [OF heap_fits(9) tx])
      with True show thesis using z none none' t(1) by (intro fail [of u]) (simp_all add: kmalloc_eq)
    next
      fix b s' as'' n
      assume "first_fit (mem t) (free_list_head t) (align8 z) = Some b" "b \<noteq> NULL" "b + 48 \<noteq> NULL"
        "b \<notin> fst ` allocs (mem t) as'" "kmalloc_take b (align8 z) t = Some (b + 48, s')" "heap_inv L s' as'' f0 (k + j)"
        "extends L f0 (k + j) 0 t s'" "allocs (mem s') as'' = insert (b, n) (allocs (mem t) as')" "align8 z \<le> n"
        "\<forall>x \<in> span (b + 48) (unat n). mem s' x = 0" "keeps (allocs (mem t) as') (mem t) (mem s')"
      with result [of "b + 48" s' as'' j] True z none t(1,4) extends_trans [OF t(3), of 0 s']
        keeps_trans [OF t(5), of "mem s'"]
      show thesis by (auto simp: kmalloc_eq granted_def)
    qed
  qed
qed

lemma kmalloc_wf:
  assumes L: "link_ok L" and inv: "heap_inv L s as f0 k"
    and rm: "z \<noteq> 0 \<Longrightarrow> first_fit (mem s) (free_list_head s) (align8 z) = Some NULL \<Longrightarrow>
      room (free_frames L (mem s)) k (pages_for (align8 z + 48))"
  obtains p s' as' j where "kmalloc L z s = Some (p, s')" and "heap_inv L s' as' f0 (k + j)" and "extends L f0 k j s s'"
    and "keeps (allocs (mem s) as) (mem s) (mem s')" and "granted (mem s) as (align8 z) (mem s') as' p"
proof -
  note result = that
  show thesis
  proof (cases "z = 0")
    case True
    then have "kmalloc L z s = Some (NULL, s)" by (simp add: kmalloc_eq)
    moreover have "extends L f0 k 0 s s" by (simp add: extends_def grows_def only_in_def)
    ultimately show thesis using result [of NULL s as 0] inv by (simp add: keeps_def granted_def)
  next
    case z: False
    show thesis
    proof (rule search [OF L inv align8_dvd [of z]])
      assume none: "first_fit (mem s) (free_list_head s) (align8 z) = Some NULL"
      from kmalloc_miss [OF L inv z rm [OF z none] none] result show thesis by blast
    next
      fix b s' as' n
      assume "first_fit (mem s) (free_list_head s) (align8 z) = Some b" "b \<noteq> NULL" "b + 48 \<noteq> NULL"
        "b \<notin> fst ` allocs (mem s) as" "kmalloc_take b (align8 z) s = Some (b + 48, s')" "heap_inv L s' as' f0 k"
        "extends L f0 k 0 s s'" "allocs (mem s') as' = insert (b, n) (allocs (mem s) as)" "align8 z \<le> n"
        "\<forall>x \<in> span (b + 48) (unat n). mem s' x = 0" "keeps (allocs (mem s) as) (mem s) (mem s')"
      with result [of "b + 48" s' as' 0] z show thesis
        by (auto simp: kmalloc_eq granted_def)
    qed
  qed
qed

subsection \<open>Release and initialisation\<close>

lemma allocs_split:
  assumes "heap_wf s as P lo hi" and "(a, n) \<in> allocs (mem s) as"
  obtains xs ys where "as = xs @ a # ys" and "(a, n) \<notin> live_chunks (chunks (mem s) xs)"
    and "(a, n) \<notin> live_chunks (chunks (mem s) ys)"
proof -
  obtain xs ys where as: "as = xs @ a # ys" using assms(2) split_list by (metis allocs_iff)
  have "distinct as" by (rule tiles_distinct [OF heap_wf_tiles [OF assms(1)]])
  then have "a \<notin> set xs" "a \<notin> set ys" using as by auto
  with that [OF as] show thesis by (auto simp: live_chunks_def chunks_def)
qed

lemma kfree_inv:
  assumes L: "link_ok L" and inv: "heap_inv L s as f0 k" and a: "(a, n) \<in> allocs (mem s) as"
  obtains s' as' where "kfree (a + 48) s = Some s'" and "heap_inv L s' as' f0 k" and "heap_only s s'" and "extends L f0 k 0 s s'"
    and "allocs (mem s') as' = allocs (mem s) as - {(a, n)}" and "keeps (allocs (mem s) as) (mem s) (mem s')"
proof -
  note I = heap_invD [OF inv]
  obtain xs ys where as: "as = xs @ a # ys" and no: "(a, n) \<notin> live_chunks (chunks (mem s) xs)"
    "(a, n) \<notin> live_chunks (chunks (mem s) ys)"
    by (rule allocs_split [OF I(1) a])
  have al: "\<not> is_free (blk (mem s) a)" "n = hsize (blk (mem s) a)" using a by (auto simp: allocs_iff)
  obtain s' as' where s': "kfree (a + 48) s = Some s'"
    "heap_wf s' as' {} (0x40000000 + f0 * 4096) (0x40000000 + k * 4096)"
    "chunks (mem s') as' = free_chunk (chunks (mem s) xs) a (hsize (blk (mem s) a)) (chunks (mem s) ys)"
    "only_in (headers (set as)) (mem s) (mem s')" "heap_only s s'" "tx_drains (uart s')"
    using kfree_wf [OF I(1) [unfolded as] al(1) I(3)] unfolding as by blast
  note reg = only_in_mono [OF s'(4) headers_in_region [OF I(1)]]
  have ext: "extends L f0 k 0 s s'" by (rule extends_keep [OF L inv s'(2,5) reg s'(6)])
  have "heap_inv L s' as' f0 k" by (rule heap_inv_keep(1) [OF L inv s'(2,5) reg s'(6)])
  moreover have "allocs (mem s') as' = allocs (mem s) as - {(a, n)}"
    using live_free [OF no, of "hsize (blk (mem s) a)"] al by (simp add: allocs_def s'(3) as)
  moreover have "keeps (allocs (mem s) as) (mem s) (mem s')"
  proof (rule keeps_only_in [OF s'(4)])
    fix c n assume "(c, n) \<in> allocs (mem s) as"
    then show "span (c + 48) (unat n) \<inter> headers (set as) = {}"
      using data_outside_headers [OF I(1), of c] by (simp add: allocs_iff data_span_def)
  qed
  ultimately show thesis using that [OF s'(1) _ s'(5) ext] by blast
qed

lemma kfree_free_block:
  assumes "is_free (blk (mem s) (p - 48))" and "p \<noteq> NULL" and "tx_drains (uart s)"
  shows "\<exists>u. kfree p s = Some (s\<lparr>uart := u\<rparr>) \<and> tx_drains u"
proof -
  obtain u where "kprint ''KHeap Warning: Double free detected for pointer %p\<newline>'' [VA p] s = Some (s\<lparr>uart := u\<rparr>)"
    "tx_drains u" by (rule kprint_heap [OF heap_fits(10) assms(3)])
  with assms show ?thesis by (intro exI [of _ u]) (simp add: kfree_def HEAP_HEADER_SIZE_def)
qed

lemma heap_inv_empty:
  assumes "pmm_inv L s" and "tx_drains (uart s)" and "k < FRAMES" and "\<forall>i \<in> free_frames L (mem s). k \<le> i"
    and "free_list_head s = NULL" and "heap_start s = NULL" and "heap_end s = NULL"
  shows "heap_inv L s [] k k"
proof -
  have "chains (blk (mem s)) NULL []" by (simp add: chains_def)
  moreover have "8 dvd (0x40000000 + k * 4096 :: nat)" by (simp add: dvd_add)
  ultimately show ?thesis
    using assms by (auto simp: heap_inv_def heap_wf_def block_list_def intro!: exI [of _ "[]"])
qed

lemma kheap_init_wf:
  assumes L: "link_ok L" and pmm: "pmm_inv L s" and tx: "tx_drains (uart s)"
    and k: "\<forall>i < 5. k + i \<in> free_frames L (mem s)" "\<forall>i \<in> free_frames L (mem s). k \<le> i"
  obtains s' as where "kheap_init L s = Some s'" and "heap_inv L s' as k (k + 5)"
    and "chunks (mem s') as = pages k 5" and "free_list_head s' = frame_addr k" and "grows s s'"
    and "free_frames L (mem s') = free_frames L (mem s) - {k..<k + 5}"
    and "only_in (region k (k + 5) \<union> span (pmm_bitmap_start L) 0x20000) (mem s) (mem s')"
proof -
  let ?s = "s\<lparr>free_list_head := NULL, heap_start := NULL, heap_end := NULL\<rparr>"
  have "k \<in> free_frames L (mem s)" using k(1) [rule_format, of 0] by simp
  then have "k < FRAMES" using free_frames_subset by blast
  then have inv: "heap_inv L ?s [] k k" using pmm tx k by (intro heap_inv_empty) (simp_all add: pmm_inv_def pmm_acct_def)
  have five: "pages_for (PAGE_SIZE * 4) = 5" by (simp add: pages_for_def page_count_def PAGE_SIZE_def)
  have rm: "room (free_frames L (mem ?s)) k (pages_for (PAGE_SIZE * 4))" using k(1) by (simp add: five room_def)
  obtain t as j where t: "expand_heap L (PAGE_SIZE * 4) ?s = Some (j = 5, t)" "j \<le> 5" "heap_inv L t as k (k + j)"
    "chunks (mem t) as = (if j = 5 then grow_chunks (chunks (mem ?s) []) (pages k j) else chunks (mem ?s) [] @ pages k j)"
    "j = 5 \<longrightarrow> free_list_head t = (if ([] :: u64 list) \<noteq> [] \<and> is_free (blk (mem ?s) (last [])) then last [] else frame_addr k)"
    "j < 5 \<longrightarrow> free_frames L (mem t) = {}" "free_frames L (mem t) = free_frames L (mem ?s) - {k..<k + j}"
    "only_in (headers (set ([] :: u64 list)) \<union> region k (k + j) \<union> span (pmm_bitmap_start L) 0x20000) (mem ?s) (mem t)" "grows ?s t"
    "{k..<k + j} \<subseteq> free_frames L (mem ?s)"
    by (rule expand_heap_wf [OF L inv rm, unfolded five])
  have j: "j = 5"
  proof (rule ccontr)
    assume "j \<noteq> 5"
    then have "j < 5" using t(2) by simp
    then have "k + j \<in> free_frames L (mem t)" using k(1) t(7) by auto
    with t(6) \<open>j < 5\<close> show False by simp
  qed
  obtain u where u: "kprint ''KHeap: Initialized.\<newline>'' [] t = Some (t\<lparr>uart := u\<rparr>)" "tx_drains u"
    by (rule kprint_heap [OF heap_fits(5) heap_invD(3) [OF t(3)]])
  have "kheap_init L s = Some (t\<lparr>uart := u\<rparr>)" using t(1) u(1) by (simp add: kheap_init_def)
  moreover have "grows s (t\<lparr>uart := u\<rparr>)" using t(9) by (cases s, cases t) (simp add: grows_def)
  ultimately show thesis
    using that [of "t\<lparr>uart := u\<rparr>" as] heap_inv_uart [OF t(3) u(2)] t(4,5,7,8) j
    by (simp add: grow_chunks_def headers_def)
qed

end
