(* ===== verification/Kheap_Spec.thy ===== *)
theory Kheap_Spec
  imports Kheap_Calls
begin

text \<open>
  What the heap promises its clients.  The heap is an interpretation of the locale
  \<open>allocator\<close>, like the frame allocator below it; the properties rest on its lemmas.  The
  last two record what the code does at the edges: a size that wraps, and a request that
  expansion cannot serve.
\<close>

subsection \<open>The heap as an allocator\<close>

definition top_frame :: "'a kheap_state_scheme \<Rightarrow> nat" where
  "top_frame s = (unat (heap_end s) + 48 + unat (hsize (blk (mem s) (heap_end s))) - 0x40000000) div 4096"

definition heap_ok :: "layout \<Rightarrow> 'a kheap_state_scheme \<Rightarrow> bool" where
  "heap_ok L s \<longleftrightarrow> link_ok L \<and> (\<exists>f0 < top_frame s. heap_inv L s (heap_blocks s) f0 (top_frame s))"

definition heap_live :: "'a kheap_state_scheme \<Rightarrow> (u64 \<times> nat) set" where
  "heap_live s = (\<lambda>(a, n). (a + 48, unat n)) ` allocs (mem s) (heap_blocks s)"

text \<open>
  \<open>heap_room\<close>: a call of \<open>kmalloc\<close> that has to grow the heap, since no block on the free list is large
  enough, gets frames that directly follow the heap, or none.  \<open>expand_heap\<close> joins each new page
  with the block before it and does not look where the frame lies.
\<close>

definition heap_room :: "layout \<Rightarrow> u64 \<Rightarrow> 'a kheap_state_scheme \<Rightarrow> bool" where
  "heap_room L z s \<longleftrightarrow> (z \<noteq> 0 \<and> first_fit (mem s) (free_list_head s) (align8 z) = Some NULL \<longrightarrow>
     room (free_frames L (mem s)) (top_frame s) (pages_for (align8 z + 48)))"

lemma top_frame_inv:
  assumes "heap_inv L s as f0 k" and "f0 < k"
  shows "top_frame s = k"
proof -
  note wf = heap_invD(1) [OF assms(1)]
  let ?lo = "0x40000000 + f0 * 4096" and ?hi = "0x40000000 + k * 4096"
  have T: "tiles (hsize \<circ> blk (mem s)) ?lo as ?hi" by (rule heap_wf_tiles [OF wf])
  have e: "heap_end s = (if as = [] then NULL else last as)" using wf by (simp add: heap_wf_def block_list_def)
  show ?thesis
  proof (cases as rule: rev_cases)
    case Nil
    with T assms(2) show ?thesis by simp
  next
    case (snoc bs b)
    then have "unat b + 48 + unat (hsize (blk (mem s) b)) = ?hi" using T by (auto simp: tiles_append)
    with e snoc show ?thesis by (simp add: top_frame_def)
  qed
qed

lemma heap_okI:
  assumes "link_ok L" and "heap_inv L s as f0 k" and "f0 < k"
  shows "heap_ok L s" and "heap_blocks s = as" and "top_frame s = k"
  using assms top_frame_inv [OF assms(2,3)] heap_blocks_wf [OF heap_invD(1) [OF assms(2)]]
  by (auto simp: heap_ok_def)

lemma heap_okD:
  assumes "heap_ok L s"
  obtains f0 where "link_ok L" and "f0 < top_frame s" and "heap_inv L s (heap_blocks s) f0 (top_frame s)"
  using assms by (auto simp: heap_ok_def)

lemma heap_live_iff:
  "(p, n) \<in> heap_live s \<longleftrightarrow> (\<exists>k. n = unat k \<and> (p - 48, k) \<in> allocs (mem s) (heap_blocks s))"
  by (force simp: heap_live_def image_iff)

lemma heap_live_allocs: "allocs (mem s') (heap_blocks s') = A \<Longrightarrow> heap_live s' = (\<lambda>(a, n). (a + 48, unat n)) ` A"
  by (simp add: heap_live_def)

lemma heap_keeps:
  "keeps (allocs (mem s) (heap_blocks s)) (mem s) m' \<Longrightarrow> (q, k) \<in> heap_live s \<Longrightarrow> x \<in> span q k \<Longrightarrow> m' x = mem s x"
  by (force simp: keeps_def heap_live_def)

text \<open>How a call changes the rest of the machine: the heap grows into free frames that follow it.\<close>

definition heap_grown :: "layout \<Rightarrow> 'a kheap_state_scheme \<Rightarrow> 'a kheap_state_scheme \<Rightarrow> bool" where
  "heap_grown L s s' \<longleftrightarrow> grows s s' \<and> top_frame s \<le> top_frame s' \<and> {top_frame s..<top_frame s'} \<subseteq> free_frames L (mem s) \<and>
     free_frames L (mem s') \<subseteq> free_frames L (mem s) \<and>
     only_in (region 0 (top_frame s') \<union> span (pmm_bitmap_start L) 0x20000) (mem s) (mem s')"

lemma extends_grown:
  assumes "extends L f0 k j s s'" and "top_frame s = k" and "top_frame s' = k + j"
  shows "heap_grown L s s'"
proof -
  have "region f0 (k + j) \<subseteq> region 0 (k + j)" by (auto simp: region_def)
  then have "only_in (region 0 (k + j) \<union> span (pmm_bitmap_start L) 0x20000) (mem s) (mem s')"
    using assms(1) by (auto simp: extends_def intro: only_in_mono)
  then show ?thesis using assms by (auto simp: heap_grown_def extends_def)
qed

lemma heap_grown_trans:
  assumes "heap_grown L s t" and "heap_grown L t u"
  shows "heap_grown L s u"
proof -
  let ?B = "span (pmm_bitmap_start L) 0x20000"
  have D: "only_in (region 0 (top_frame t) \<union> ?B) (mem s) (mem t)" "only_in (region 0 (top_frame u) \<union> ?B) (mem t) (mem u)"
    "grows s t" "grows t u" "top_frame s \<le> top_frame t" "top_frame t \<le> top_frame u"
    using assms by (simp_all add: heap_grown_def)
  have "region 0 (top_frame t) \<union> ?B \<subseteq> region 0 (top_frame u) \<union> ?B" using D(6) by (auto simp: region_def)
  note only = only_in_trans [OF only_in_mono [OF D(1) this] D(2)] and gr = grows_trans [OF D(3,4)]
  have "{top_frame s..<top_frame u} = {top_frame s..<top_frame t} \<union> {top_frame t..<top_frame u}" using D(5,6) by auto
  then have "{top_frame s..<top_frame u} \<subseteq> free_frames L (mem s)" "free_frames L (mem u) \<subseteq> free_frames L (mem s)"
    using assms unfolding heap_grown_def by blast+
  with only gr D(5,6) show ?thesis by (simp add: heap_grown_def)
qed

lemma heap_grown_refl [simp]: "heap_grown L s s"
  by (simp add: heap_grown_def grows_def)

lemma heap_grown_uart: "heap_grown L s (s\<lparr>uart := u\<rparr>)"
  by (simp add: heap_grown_def grows_def top_frame_def)

lemma heap_alloc_effect:
  assumes ok: "heap_ok L s" and rm: "heap_room L z s"
  obtains p s' where "kmalloc L z s = Some (p, s')" and "heap_ok L s'" and "heap_grown L s s'"
    and "p = NULL \<Longrightarrow> heap_live s' = heap_live s"
    and "p \<noteq> NULL \<Longrightarrow> \<exists>n \<ge> unat (align8 z). p \<notin> fst ` heap_live s \<and> heap_live s' = insert (p, n) (heap_live s) \<and>
       8 dvd unat p \<and> (\<forall>x \<in> span p n. mem s' x = 0)"
    and "\<And>q k x. (q, k) \<in> heap_live s \<Longrightarrow> x \<in> span q k \<Longrightarrow> mem s' x = mem s x"
proof -
  obtain f0 where L: "link_ok L" and f0: "f0 < top_frame s" and inv: "heap_inv L s (heap_blocks s) f0 (top_frame s)"
    by (rule heap_okD [OF ok])
  obtain p s' as' j where k: "kmalloc L z s = Some (p, s')" "heap_inv L s' as' f0 (top_frame s + j)" "extends L f0 (top_frame s) j s s'"
    "keeps (allocs (mem s) (heap_blocks s)) (mem s) (mem s')"
    "granted (mem s) (heap_blocks s) (align8 z) (mem s') as' p"
    by (rule kmalloc_wf [OF L inv]) (use rm in \<open>auto simp: heap_room_def\<close>)
  have "f0 < top_frame s + j" using f0 by simp
  note ok' = heap_okI [OF L k(2) this] and grown = extends_grown [OF k(3) refl heap_okI(3) [OF L k(2) this]]
  have "\<exists>n \<ge> unat (align8 z). p \<notin> fst ` heap_live s \<and> heap_live s' = insert (p, n) (heap_live s) \<and> 8 dvd unat p \<and>
      (\<forall>x \<in> span p n. mem s' x = 0)" if nz: "p \<noteq> NULL"
  proof -
    obtain b n where b: "p = b + 48" "b \<notin> fst ` allocs (mem s) (heap_blocks s)"
      "allocs (mem s') as' = insert (b, n) (allocs (mem s) (heap_blocks s))" "align8 z \<le> n"
      "\<forall>x \<in> span (b + 48) (unat n). mem s' x = 0"
      using k(5) nz by (auto simp: granted_def)
    have bin: "b \<in> set as'" using b(3) allocs_iff [of b n "mem s'" as'] by simp
    note wf = heap_invD(1) [OF k(2)]
    have "8 dvd unat b" by (rule tiles_aligned [OF heap_wf_tiles [OF wf] _ bin]) (simp add: dvd_add)
    then have "8 dvd unat p" unfolding b(1) heap_wf_data_ptr(1) [OF wf bin] by (intro dvd_add) simp_all
    moreover have "unat (align8 z) \<le> unat n" using b(4) by (simp add: word_le_nat_alt)
    moreover have "p \<notin> fst ` heap_live s" using b(1,2) by (force simp: heap_live_def)
    moreover have "heap_live s' = insert (p, unat n) (heap_live s)"
      using b(1,3) ok'(2) by (simp add: heap_live_def)
    ultimately show ?thesis using b(1,5) by (intro exI [of _ "unat n"]) simp
  qed
  moreover have "heap_live s' = heap_live s" if "p = NULL"
    using k(5) that ok'(2) by (simp add: granted_def heap_live_def)
  ultimately show thesis using that [OF k(1) ok'(1) grown] heap_keeps [OF k(4)] by blast
qed

lemma heap_release_effect:
  assumes ok: "heap_ok L s" and p: "(p, n) \<in> heap_live s"
  obtains s' where "kfree p s = Some s'" and "heap_ok L s'" and "heap_only s s'" and "heap_grown L s s'"
    and "heap_live s' = heap_live s - {(p, n)}"
    and "\<And>q k x. (q, k) \<in> heap_live s \<Longrightarrow> x \<in> span q k \<Longrightarrow> mem s' x = mem s x"
proof -
  obtain f0 where L: "link_ok L" and f0: "f0 < top_frame s" and inv: "heap_inv L s (heap_blocks s) f0 (top_frame s)"
    by (rule heap_okD [OF ok])
  obtain k where k: "(p - 48, k) \<in> allocs (mem s) (heap_blocks s)" "n = unat k" using p by (auto simp: heap_live_iff)
  obtain s' as' where s': "kfree (p - 48 + 48) s = Some s'" "heap_inv L s' as' f0 (top_frame s)" "heap_only s s'" "extends L f0 (top_frame s) 0 s s'"
    "allocs (mem s') as' = allocs (mem s) (heap_blocks s) - {(p - 48, k)}"
    "keeps (allocs (mem s) (heap_blocks s)) (mem s) (mem s')"
    by (rule kfree_inv [OF L inv k(1)])
  note ok' = heap_okI [OF L s'(2) f0]
  have grown: "heap_grown L s s'" using extends_grown [OF s'(4) refl] ok'(3) by simp
  have "inj (\<lambda>(a :: u64, n :: u64). (a + 48, unat n))" by (auto simp: inj_def intro: unsigned_word_eqI)
  then have "heap_live s' = heap_live s - {(p, n)}"
    using s'(5) ok'(2) k(2) by (simp add: heap_live_def image_set_diff)
  then show thesis using that [OF _ ok'(1) s'(3) grown] s'(1) heap_keeps [OF s'(6)] by simp
qed

lemma heap_poke:
  assumes ok: "heap_ok L s" and p: "(p, n) \<in> heap_live s" "x \<in> span p n"
  shows "heap_ok L (poke_mem x v s) \<and> heap_live (poke_mem x v s) = heap_live s \<and> heap_grown L s (poke_mem x v s)"
proof -
  obtain f0 where L: "link_ok L" and f0: "f0 < top_frame s" and inv: "heap_inv L s (heap_blocks s) f0 (top_frame s)"
    by (rule heap_okD [OF ok])
  note I = heap_invD [OF inv]
  let ?as = "heap_blocks s" and ?m = "(mem s)(x := v)"
  obtain b where b: "b \<in> set ?as" "x \<in> data_span (mem s) b"
    using p by (auto simp: heap_live_def allocs_iff data_span_def)
  then have "x \<notin> headers (set ?as)" using data_outside_headers [OF I(1) b(1)] by blast
  then have eq: "blk ?m a = blk (mem s) a" if "a \<in> set ?as" for a
    using that by (intro blk_cong) (auto simp: headers_def)
  have wf: "heap_wf (poke_mem x v s) ?as {} (0x40000000 + f0 * 4096) (0x40000000 + top_frame s * 4096)"
    using heap_wf_mem [of ?as ?m s] eq I(1) by (simp add: poke_mem_def)
  have "x \<in> region f0 (top_frame s)" using b block_in_region(2) [OF I(1)] by blast
  then have only: "only_in (region f0 (top_frame s)) (mem s) (mem (poke_mem x v s))" "heap_only s (poke_mem x v s)"
    "tx_drains (uart (poke_mem x v s))"
    using I(3) by (auto simp: only_in_def poke_mem_def heap_only_def)
  note ok' = heap_okI [OF L heap_inv_keep(1) [OF L inv wf only(2,1,3)] f0]
  have "chunks ?m ?as = chunks (mem s) ?as" by (rule chunks_cong) (simp add: eq)
  moreover have "heap_grown L s (poke_mem x v s)"
    using extends_grown [OF extends_keep [OF L inv wf only(2,1,3)] refl] ok'(3) by simp
  ultimately show ?thesis using ok' by (simp add: heap_live_def allocs_def) (simp add: poke_mem_def)
qed

interpretation heap: allocator "heap_ok L" heap_live mem poke_mem "heap_room L" "\<lambda>z. unat (align8 z)" "kmalloc L" kfree for L
proof
  fix s :: "'a kheap_state_scheme" and p n q k
  assume ok: "heap_ok L s"
  then obtain f0 where wf: "heap_wf s (heap_blocks s) {} (0x40000000 + f0 * 4096) (0x40000000 + top_frame s * 4096)"
    using heap_okD heap_invD(1) by metis
  assume p: "(p, n) \<in> heap_live s"
  then have pd: "p - 48 \<in> set (heap_blocks s)" "n = unat (hsize (blk (mem s) (p - 48)))"
    by (auto simp: heap_live_iff allocs_iff)
  show "(p, k) \<in> heap_live s \<Longrightarrow> n = k" using pd by (auto simp: heap_live_iff allocs_iff)
  show "(q, k) \<in> heap_live s \<Longrightarrow> p \<noteq> q \<Longrightarrow> span p n \<inter> span q k = {}"
    using data_disjoint [OF wf pd(1), of "q - 48"] pd(2) by (auto simp: heap_live_iff allocs_iff data_span_def)
  show "\<exists>s'. kfree p s = Some s' \<and> heap_ok L s' \<and> heap_live s' = heap_live s - {(p, n)} \<and>
      (\<forall>(q, k) \<in> heap_live s'. \<forall>x \<in> span q k. mem s' x = mem s x)"
    by (rule heap_release_effect [OF ok p]) auto
  show "x \<in> span p n \<Longrightarrow> heap_ok L (poke_mem x v s) \<and> heap_live (poke_mem x v s) = heap_live s \<and>
      mem (poke_mem x v s) = (mem s)(x := v)" for x v
    using heap_poke [OF ok p] by (simp add: poke_mem_def)
next
  fix s :: "'a kheap_state_scheme" and z
  assume "heap_ok L s" "heap_room L z s"
  then show "\<exists>p s'. kmalloc L z s = Some (p, s')" by (rule heap_alloc_effect) auto
next
  fix s s' :: "'a kheap_state_scheme" and z p
  assume a: "heap_ok L s" "heap_room L z s" "kmalloc L z s = Some (p, s')"
  show "heap_ok L s'" by (rule heap_alloc_effect [OF a(1,2)]) (use a(3) in simp)
  show "p \<noteq> NULL \<Longrightarrow> \<exists>n \<ge> unat (align8 z). p \<notin> fst ` heap_live s \<and> heap_live s' = insert (p, n) (heap_live s) \<and>
      (\<forall>x \<in> span p n. mem s' x = 0)"
    by (rule heap_alloc_effect [OF a(1,2)]) (use a(3) in auto)
  show "(q, k) \<in> heap_live s \<Longrightarrow> x \<in> span q k \<Longrightarrow> mem s' x = mem s x" for q k x
    by (rule heap_alloc_effect [OF a(1,2)]) (use a(3) in auto)
next
  fix s s' :: "'a kheap_state_scheme" and z
  assume a: "heap_ok L s" "heap_room L z s" "kmalloc L z s = Some (NULL, s')"
  show "heap_live s' = heap_live s" by (rule heap_alloc_effect [OF a(1,2)]) (use a(3) in simp)
qed

subsection \<open>Lists after initialisation and after an expansion\<close>

lemma remove_head: "free_list_head (remove_from_free_list b s) =
   (if prev_free (blk (mem s) b) = NULL then next_free (blk (mem s) b) else free_list_head s)"
  by (simp add: remove_from_free_list_def Let_def)

lemma add_alone:
  "free_list_head s = NULL \<Longrightarrow> next_free (blk (mem (add_to_free_list b s)) b) = NULL"
  "free_list_head (add_to_free_list b s) = b"
  by (simp_all add: add_to_free_list_def Let_def blk_put_same)

lemma add_alone_other:
  "free_list_head s = NULL \<Longrightarrow> sep b a \<Longrightarrow> a \<noteq> b \<Longrightarrow> blk (mem (add_to_free_list b s)) a = blk (mem s) a"
  by (simp add: add_to_free_list_def Let_def blk_put)

lemma expand_merge_alone:
  assumes "hprev (blk (mem s) f) = p" and "p \<noteq> NULL" and "is_free (blk (mem s) p)" and "offlist (mem s) p"
    and "expand_merge f s = (b, t)"
  shows "b = p" and "free_list_head t = NULL"
  using assms remove_head [of p s] by (auto simp: expand_merge_def Let_def offlist_def)

lemma expand_heap_alone:
  assumes L: "link_ok L" and inv: "heap_inv L s as f0 k" and rm: "\<forall>i < pages_for m. k + i \<in> free_frames L (mem s)"
    and last: "as \<noteq> []" "is_free (blk (mem s) (last as))" "offlist (mem s) (last as)"
  obtains s' as' where "expand_heap L m s = Some (True, s')" and "heap_inv L s' as' f0 (k + pages_for m)"
    and "free_list_head s' = last as" and "next_free (blk (mem s') (last as)) = NULL"
    and "hsize (blk (mem s') (last as)) = hsize (blk (mem s) (last as)) + 4096"
    and "free_frames L (mem s') = free_frames L (mem s) - {k..<k + pages_for m}"
proof -
  let ?n = "pages_for m" and ?p = "last as"
  have rm': "room (free_frames L (mem s)) k ?n" using rm by (simp add: room_def)
  obtain s' as' j where s': "expand_heap L m s = Some (j = ?n, s')" "j \<le> ?n" "heap_inv L s' as' f0 (k + j)"
    "chunks (mem s') as' = (if j = ?n then grow_chunks (chunks (mem s) as) (pages k j) else chunks (mem s) as @ pages k j)"
    "j = ?n \<longrightarrow> free_list_head s' = (if as \<noteq> [] \<and> is_free (blk (mem s) ?p) then ?p else frame_addr k)"
    "j < ?n \<longrightarrow> free_frames L (mem s') = {}" "free_frames L (mem s') = free_frames L (mem s) - {k..<k + j}"
    by (rule expand_heap_wf [OF L inv rm']) blast
  have j: "j = ?n"
  proof (rule ccontr)
    assume "j \<noteq> ?n"
    then have "k + j \<in> free_frames L (mem s')" using s'(2,7) rm by auto
    with s'(2,6) \<open>j \<noteq> ?n\<close> show False by simp
  qed
  have "(?p, hsize (blk (mem s) ?p) + (4048 + 48), True) \<in> set (chunks (mem s') as')"
    using s'(4) j last(1,2) pages_for_pos [of m] by (simp add: grow_chunks_eq pages_def upt_conv_Cons)
  then have sz: "hsize (blk (mem s') ?p) = hsize (blk (mem s) ?p) + 4096" by (auto simp: chunks_def)
  obtain u where u: "kprint ''KHeap: Expanding heap by %zu pages\<newline>'' [VA (page_count m)] s = Some (s\<lparr>uart := u\<rparr>)" "tx_drains u"
    by (rule kprint_heap [OF heap_fits(1) heap_invD(3) [OF inv]])
  obtain t j' where t: "expand_loop L ?n NULL (s\<lparr>uart := u\<rparr>) = Some (j' = ?n, if 0 < j' then frame_addr k else NULL, t)"
    "heap_inv L t (as @ map frame_addr [k..<k + j']) f0 (k + j')" "j' \<le> ?n"
    "chunks (mem t) (as @ map frame_addr [k..<k + j']) = chunks (mem s) as @ pages k j'"
    "\<forall>a \<in> set as. offlist (mem s) a \<longrightarrow> offlist (mem t) a"
    using expand_loop_wf [OF L heap_inv_uart [OF inv u(2)], of ?n NULL] rm' by (simp only: pages_def) auto
  have j': "j' = ?n"
    using s'(1) j u(1) t(1) by (simp add: expand_heap_eq split: if_splits)
  have up: "map frame_addr [k..<k + j'] = frame_addr k # map frame_addr [Suc k..<k + j']"
    using j' pages_for_pos [of m] by (simp add: upt_conv_Cons)
  have fz: "frame_addr k \<noteq> NULL" using heap_invD(5) [OF t(2)] j' pages_for_pos [of m] by (intro frame_addr_nz) simp
  have "hprev (blk (mem t) (frame_addr k)) = ?p"
    using heap_invD(1) [OF t(2)] last(1) block_list_links(1) [of "blk (mem t)" _ _ as "frame_addr k" "map frame_addr [Suc k..<k + j']"]
    unfolding up by (auto simp: heap_wf_def)
  moreover have "is_free (blk (mem t) ?p)"
    using t(4) last(1,2) by (simp add: chunks_last)
  moreover have "offlist (mem t) ?p" "?p \<noteq> NULL" using t(5) last heap_wf_nz [OF heap_invD(1) [OF inv]] by auto
  moreover obtain b v where bv: "expand_merge (frame_addr k) t = (b, v)" by fastforce
  ultimately have "b = ?p" "free_list_head v = NULL" using expand_merge_alone [of t "frame_addr k" ?p b v] by auto
  moreover have "s' = add_to_free_list b v"
    using s'(1) j u(1) t(1) j' pages_for_pos [of m] fz bv by (simp add: expand_heap_eq)
  ultimately have "next_free (blk (mem s') ?p) = NULL" using add_alone(1) by simp
  then show thesis using that s'(1,3,5,7) j last sz by simp
qed

lemma kheap_init_lists:
  assumes L: "link_ok L" and pmm: "pmm_inv L s" and tx: "tx_drains (uart s)"
    and k: "\<forall>i < 5. k + i \<in> free_frames L (mem s)" "\<forall>i \<in> free_frames L (mem s). k \<le> i"
    and init: "kheap_init L s = Some s'"
  shows "next_free (blk (mem s') (frame_addr k)) = NULL" and "offlist (mem s') (frame_addr (k + 4))"
proof -
  let ?s = "s\<lparr>free_list_head := NULL, heap_start := NULL, heap_end := NULL\<rparr>" and ?m = "PAGE_SIZE * 4"
  have kF: "k + 4 < FRAMES" using k(1) [rule_format, of 4] free_frames_subset [of L "mem s"] by auto
  then have inv: "heap_inv L ?s [] k k" using pmm tx k by (intro heap_inv_empty) (simp_all add: pmm_inv_def pmm_acct_def)
  have five: "pages_for ?m = 5" by (simp add: pages_for_def page_count_def PAGE_SIZE_def)
  obtain u where u: "kprint ''KHeap: Expanding heap by %zu pages\<newline>'' [VA (page_count ?m)] ?s = Some (?s\<lparr>uart := u\<rparr>)" "tx_drains u"
    by (rule kprint_heap [OF heap_fits(1) heap_invD(3) [OF inv]])
  have rm: "room (free_frames L (mem (?s\<lparr>uart := u\<rparr>))) k 5" using k(1) by (simp add: room_def)
  obtain t j where t: "expand_loop L 5 NULL (?s\<lparr>uart := u\<rparr>) = Some (j = 5, if 0 < j then frame_addr k else NULL, t)"
    "heap_inv L t (map frame_addr [k..<k + j]) k (k + j)" "j \<le> 5" "j < 5 \<longrightarrow> free_frames L (mem t) = {}"
    "free_frames L (mem t) = free_frames L (mem s) - {k..<k + j}"
    "\<forall>i \<in> {k..<k + j}. offlist (mem t) (frame_addr i)" "free_list_head t = NULL"
    using expand_loop_wf [OF L heap_inv_uart [OF inv u(2)] rm, of NULL] by (simp del: expand_loop.simps) blast
  have j: "j = 5"
  proof (rule ccontr)
    assume "j \<noteq> 5"
    then have "k + j \<in> free_frames L (mem t)" using t(3,5) k(1) by auto
    with t(3,4) \<open>j \<noteq> 5\<close> show False by simp
  qed
  have as: "map frame_addr [k..<k + 5] = [] @ frame_addr k # map frame_addr [Suc k..<k + 5]" by (simp add: upt_conv_Cons)
  note wf = heap_invD(1) [OF t(2), unfolded j]
  have fz: "frame_addr k \<noteq> NULL" using kF by (intro frame_addr_nz) simp
  have "hprev (blk (mem t) (frame_addr k)) = NULL"
    using wf block_list_links(1) [of "blk (mem t)" _ _ "[]" "frame_addr k"] unfolding as by (auto simp: heap_wf_def)
  then have "expand_merge (frame_addr k) t = (frame_addr k, t)" by (simp add: expand_merge_def)
  then have ex: "expand_heap L ?m ?s = Some (True, add_to_free_list (frame_addr k) t)"
    using u(1) t(1) j fz by (simp add: expand_heap_eq five)
  have ms: "mem s' = mem (add_to_free_list (frame_addr k) t)"
  proof -
    obtain v where "kprint ''KHeap: Initialized.\<newline>'' [] (add_to_free_list (frame_addr k) t)
        = Some ((add_to_free_list (frame_addr k) t)\<lparr>uart := v\<rparr>)"
      using kprint_heap [OF heap_fits(5), of "add_to_free_list (frame_addr k) t"] heap_invD(3) [OF t(2)]
      by (auto simp: add_to_free_list_def Let_def)
    with init ex show ?thesis by (auto simp: kheap_init_def)
  qed
  show "next_free (blk (mem s') (frame_addr k)) = NULL" unfolding ms by (rule add_alone(1) [OF t(7)])
  have "sep (frame_addr k) (frame_addr (k + 4))"
    by (rule sepsetD(1) [OF heap_wf_sepset [OF wf]]) auto
  moreover have "frame_addr (k + 4) \<noteq> frame_addr k" using frame_addr_inj [of "k + 4" k] kF by simp
  ultimately have "blk (mem s') (frame_addr (k + 4)) = blk (mem t) (frame_addr (k + 4))"
    unfolding ms by (rule add_alone_other [OF t(7)])
  then show "offlist (mem s') (frame_addr (k + 4))" using t(6) j by (simp add: offlist_def)
qed

lemma free_chain_single:
  assumes "heap_wf s as P lo hi" and "free_list_head s = a" and "a \<noteq> NULL" and "next_free (blk (mem s) a) = NULL"
  shows "free_chain s [a]"
proof -
  obtain c where c: "free_chain s c" "NULL \<notin> set c" by (rule heap_wf_free_chain [OF assms(1)])
  then obtain bs where "c = a # bs" using assms(2,3) by (cases c) (auto simp: free_chain_def)
  moreover have "bs = []" using c assms(4) \<open>c = a # bs\<close> by (cases bs) (auto simp: free_chain_def)
  ultimately show ?thesis using c(1) by simp
qed

lemma free_chain_unique: "free_chain s c \<Longrightarrow> free_chain s d \<Longrightarrow> c = d"
  unfolding free_chain_def by (rule dseg_unique) auto

subsection \<open>A concrete boot\<close>

definition kheap_boot :: kheap_state where
  "kheap_boot = \<lparr>mem = (\<lambda>_. 0), uart = idle_uart, strtok_last = 0, total_memory = 0,
     free_memory = 0, highest_usable_address = 0, free_list_head = 0, heap_start = 0, heap_end = 0\<rparr>"

lemma chunks_pages:
  assumes "chunks m as = pages k n"
  shows "as = map frame_addr [k..<k + n]" and "a \<in> set as \<Longrightarrow> hsize (blk m a) = 4048 \<and> is_free (blk m a)"
proof -
  have "map fst (chunks m as) = map frame_addr [k..<k + n]" unfolding assms by (simp add: pages_def comp_def)
  then show "as = map frame_addr [k..<k + n]" by simp
  assume "a \<in> set as"
  then have "(a, hsize (blk m a), is_free (blk m a)) \<in> set (pages k n)" unfolding assms [symmetric] by (simp add: chunks_def)
  then show "hsize (blk m a) = 4048 \<and> is_free (blk m a)" by (auto simp: pages_def)
qed

lemma boot_heap:
  obtains t s where "frame_alloc_init elf_layout None kheap_boot = Some t" and "pmm_inv elf_layout t"
    and "tx_drains (uart t)" and "\<forall>i < 5. 0 + i \<in> free_frames elf_layout (mem t)"
    and "kheap_init elf_layout t = Some s" and "heap_ok elf_layout s" and "top_frame s = 5"
    and "free_frames elf_layout (mem s) = {5..<256} \<union> {312..<FRAMES}"
    and "chunks (mem s) (heap_blocks s) = pages 0 5" and "free_list_head s = frame_addr 0"
proof -
  have "tx_drains (uart kheap_boot)" by (simp add: kheap_boot_def)
  then obtain t where t: "frame_alloc_init elf_layout None kheap_boot = Some t" "pmm_inv elf_layout t" "tx_drains (uart t)"
    "free_frames elf_layout (mem t) = {..<256} \<union> {312..<FRAMES}"
    by (rule boot_any)
  have five: "\<forall>i < 5. 0 + i \<in> free_frames elf_layout (mem t)" using t(4) by simp
  obtain s as where s: "kheap_init elf_layout t = Some s" "heap_inv elf_layout s as 0 (0 + 5)"
    "chunks (mem s) as = pages 0 5" "free_list_head s = frame_addr 0" "grows t s"
    "free_frames elf_layout (mem s) = free_frames elf_layout (mem t) - {0..<0 + 5}"
    by (rule kheap_init_wf [OF link_ok_elf t(2,3) five]) auto
  note ok = heap_okI [OF link_ok_elf s(2)]
  have "free_frames elf_layout (mem s) = {5..<256} \<union> {312..<FRAMES}"
    unfolding s(6) t(4) by (rule set_eqI, simp, arith)
  then show thesis using that [OF t(1-3) five s(1)] ok s(3,4) by simp
qed

lemma heap_room_boot:
  assumes "top_frame s = 5" and "free_frames elf_layout (mem s) = {5..<256} \<union> {312..<FRAMES}"
  shows "heap_room elf_layout 100 s"
  using assms by (simp add: heap_room_def room_def pages_for_def page_count_def align8_def)

lemma pages_for_enough:
  assumes "unat (align8 z) + 4191 < 2 ^ 64"
  shows "unat (align8 z) + 48 \<le> 4096 * pages_for (align8 z + 48)"
proof -
  have e: "align8 z + 48 + 48 + 4096 - 1 = align8 z + 4191" by simp
  have u: "unat (align8 z + 4191) = unat (align8 z) + 4191" using assms by (simp add: unat_word_ariths)
  have "unat ((align8 z + 4191) div 4096) = (unat (align8 z) + 4191) div 4096" unfolding unat_div u by simp
  moreover have "unat (align8 z) + 48 \<le> 4096 * ((unat (align8 z) + 4191) div 4096)" by simp
  ultimately show ?thesis
    unfolding pages_for_def page_count_def Let_def e by (simp split: if_split) (metis unat_0 mult_zero_right le_zero_eq add_is_0 zero_neq_numeral)
qed

lemma kmalloc_fit:
  assumes "heap_ok L s" and "free_chain s c" and "z \<noteq> 0"
    and "List.find (\<lambda>a. align8 z \<le> hsize (blk (mem s) a)) c = Some b" and "heap_blocks s = xs @ b # ys"
  shows "\<exists>s'. kmalloc L z s = Some (b + 48, s') \<and> heap_ok L s' \<and>
     chunks (mem s') (heap_blocks s') =
       chunks (mem s) xs @ take_chunk b (hsize (blk (mem s) b)) (align8 z) @ chunks (mem s) ys \<and>
     (\<forall>x \<in> data_span (mem s') b. mem s' x = 0) \<and> free_frames L (mem s') = free_frames L (mem s) \<and>
     top_frame s' = top_frame s"
proof -
  obtain f0 where L: "link_ok L" and f0: "f0 < top_frame s" and inv: "heap_inv L s (heap_blocks s) f0 (top_frame s)"
    by (rule heap_okD [OF assms(1)])
  note I = heap_invD [OF inv]
  obtain d where d: "free_chain s d" "set d \<subseteq> {a \<in> set (heap_blocks s). is_free (blk (mem s) a)} - {}" "NULL \<notin> set d"
    by (rule heap_wf_free_chain [OF I(1)])
  have dc: "d = c" by (rule free_chain_unique [OF d(1) assms(2)])
  note b = find_SomeD [OF assms(4)]
  have bf: "is_free (blk (mem s) b)" "b \<noteq> NULL" using b d(2,3) dc by auto
  obtain s' as' where s': "kmalloc_take b (align8 z) s = Some (b + 48, s')"
    "heap_wf s' as' {} (0x40000000 + f0 * 4096) (0x40000000 + top_frame s * 4096)" "b \<in> set as'"
    "chunks (mem s') as' = chunks (mem s) xs @ take_chunk b (hsize (blk (mem s) b)) (align8 z) @ chunks (mem s) ys"
    "\<forall>x \<in> data_span (mem s') b. mem s' x = 0"
    "only_in (headers (set (xs @ b # ys)) \<union> data_span (mem s) b) (mem s) (mem s')" "heap_only s s'" "tx_drains (uart s')"
    using kmalloc_take_wf [OF I(1) [unfolded assms(5)] bf(1) align8_dvd _ I(3)] b by blast
  have "only_in (region f0 (top_frame s)) (mem s) (mem s')"
    by (rule only_in_mono [OF s'(6)])
      (use headers_in_region [OF I(1)] block_in_region(2) [OF I(1), of b] assms(5) in auto)
  note keep = heap_inv_keep [OF L inv s'(2,7) this s'(8)]
  note ok = heap_okI [OF L keep(1) f0]
  have "kmalloc L z s = Some (b + 48, s')"
    using assms(3,4) first_fit_wf [OF I(1) d(1,3), of "align8 z"] dc bf(2) s'(1) by (simp add: kmalloc_eq)
  with s'(4,5) ok keep(2) show ?thesis by blast
qed

lemma first_page_chain:
  assumes "heap_ok L s" and "chunks (mem s) (heap_blocks s) = pages 0 5" and "free_list_head s = frame_addr 0"
    and "next_free (blk (mem s) (frame_addr 0)) = NULL"
  shows "free_chain s [frame_addr 0]" and "heap_blocks s = [] @ frame_addr 0 # map frame_addr [1..<5]"
    and "hsize (blk (mem s) (frame_addr 0)) = 4048"
proof -
  obtain f0 where inv: "heap_inv L s (heap_blocks s) f0 (top_frame s)" by (rule heap_okD [OF assms(1)])
  have "frame_addr 0 \<noteq> NULL" by (simp add: frame_addr_nz)
  then show "free_chain s [frame_addr 0]" using free_chain_single [OF heap_invD(1) [OF inv] assms(3) _ assms(4)] by simp
  show "heap_blocks s = [] @ frame_addr 0 # map frame_addr [1..<5]"
    using chunks_pages(1) [OF assms(2)] by (simp add: upt_conv_Cons)
  then show "hsize (blk (mem s) (frame_addr 0)) = 4048" using chunks_pages(2) [OF assms(2)] by simp
qed

lemma boot_heap_list:
  obtains s :: kheap_state where "heap_ok elf_layout s" and "top_frame s = 5"
    and "free_frames elf_layout (mem s) = {5..<256} \<union> {312..<FRAMES}"
    and "chunks (mem s) (heap_blocks s) = pages 0 5" and "free_list_head s = frame_addr 0"
    and "next_free (blk (mem s) (frame_addr 0)) = NULL" and "offlist (mem s) (frame_addr (0 + 4))"
proof -
  obtain t s where t: "frame_alloc_init elf_layout None kheap_boot = Some t" "pmm_inv elf_layout t"
    "tx_drains (uart t)" "\<forall>i < 5. 0 + i \<in> free_frames elf_layout (mem t)"
    "kheap_init elf_layout t = Some s" "heap_ok elf_layout s" "top_frame s = 5"
    "free_frames elf_layout (mem s) = {5..<256} \<union> {312..<FRAMES}"
    "chunks (mem s) (heap_blocks s) = pages 0 5" "free_list_head s = frame_addr 0"
    by (rule boot_heap)
  note l = kheap_init_lists [OF link_ok_elf t(2-4) _ t(5)]
  show thesis using that [OF t(6-10)] l by simp
qed

lemma boot_alloc:
  obtains s s' :: kheap_state where "heap_ok elf_layout s" and "heap_live s = {}"
    and "kmalloc elf_layout 100 s = Some (0x40000030, s')" and "heap_ok elf_layout s'" and "(0x40000030, 104) \<in> heap_live s'"
    and "heap_blocks s' = [] @ (0x40000030 - 48) # 0x40000098 # map frame_addr [1..<5]"
    and "heap_live s' = {(0x40000030, 104)}" and "heap_room elf_layout 100 s" and "heap_room elf_layout 100 s'"
proof -
  obtain s :: kheap_state where s: "heap_ok elf_layout s" "chunks (mem s) (heap_blocks s) = pages 0 5"
    "free_list_head s = frame_addr 0" "next_free (blk (mem s) (frame_addr 0)) = NULL"
    and fr: "top_frame s = 5" "free_frames elf_layout (mem s) = {5..<256} \<union> {312..<FRAMES}"
    using boot_heap_list by metis
  note c = first_page_chain [OF s]
  have a: "align8 100 = 104" by (simp add: align8_def)
  have f: "List.find (\<lambda>a. align8 100 \<le> hsize (blk (mem s) a)) [frame_addr 0] = Some (frame_addr 0)" by (simp add: a c(3))
  have f0: "frame_addr 0 = 0x40000000" by (simp add: frame_addr_def pmm_consts)
  obtain s' where s': "kmalloc elf_layout 100 s = Some (frame_addr 0 + 48, s')" "heap_ok elf_layout s'"
    "chunks (mem s') (heap_blocks s') = chunks (mem s) [] @ take_chunk (frame_addr 0) 4048 104 @ chunks (mem s) (map frame_addr [1..<5])"
    "free_frames elf_layout (mem s') = free_frames elf_layout (mem s)" "top_frame s' = top_frame s"
    using kmalloc_fit [OF s(1) c(1) _ f c(2)] by (auto simp: a c(3))
  have "heap_blocks s' = map fst (chunks (mem s') (heap_blocks s'))" by simp
  also have "\<dots> = 0x40000000 # 0x40000098 # map frame_addr [1..<5]" unfolding s'(3) by (simp add: take_chunk_def f0)
  finally have bl: "heap_blocks s' = 0x40000000 # 0x40000098 # map frame_addr [1..<5]" .
  have "live_chunks (chunks (mem s) (heap_blocks s)) = {}" using s(2) by simp
  then have "live_chunks (chunks (mem s) (map frame_addr [1..<5])) = {}" unfolding c(2) by (auto split: if_splits)
  then have "allocs (mem s') (heap_blocks s') = {(0x40000000, 104)}" unfolding allocs_def s'(3) by (simp add: f0)
  then have "heap_live s' = {(0x40000030, 104)}" by (simp add: heap_live_def)
  moreover have "heap_live s = {}" using s(2) by (simp add: heap_live_def allocs_def)
  moreover have "heap_room elf_layout 100 s" "heap_room elf_layout 100 s'"
    using heap_room_boot [OF fr] heap_room_boot [of s'] fr s'(4,5) by simp_all
  ultimately show thesis using that [OF s(1) _ _ s'(2)] s'(1) bl by (simp add: f0)
qed

subsection \<open>Properties\<close>

text \<open>
  (C26) Initialisation: from any state of the frame allocator in which the five lowest free
  frames are consecutive, the heap starts as five free page-sized blocks in address order,
  nothing is allocated, and only the first of the five is on the free list.
\<close>

theorem kheap_init_spec:
  assumes "link_ok L" and "pmm_inv L s" and "tx_drains (uart s)"
    and "\<forall>i < 5. k + i \<in> free_frames L (mem s)" and "\<forall>i \<in> free_frames L (mem s). k \<le> i"
  shows "\<exists>s'. kheap_init L s = Some s' \<and> heap_ok L s' \<and> heap_live s' = {} \<and>
     heap_blocks s' = map frame_addr [k..<k + 5] \<and>
     (\<forall>a \<in> set (heap_blocks s'). hsize (blk (mem s') a) = 4048 \<and> is_free (blk (mem s') a)) \<and>
     free_chain s' [frame_addr k] \<and> free_frames L (mem s') = free_frames L (mem s) - {k..<k + 5}"
proof -
  obtain s' as where s': "kheap_init L s = Some s'" "heap_inv L s' as k (k + 5)" "chunks (mem s') as = pages k 5"
    "free_list_head s' = frame_addr k" "grows s s'" "free_frames L (mem s') = free_frames L (mem s) - {k..<k + 5}"
    by (rule kheap_init_wf [OF assms])
  note ok = heap_okI [OF assms(1) s'(2)]
  note pg = chunks_pages [OF s'(3)]
  have "frame_addr k \<in> set as" using pg(1) by simp
  then have "frame_addr k \<noteq> NULL" by (rule heap_wf_nz [OF heap_invD(1) [OF s'(2)]])
  then have "free_chain s' [frame_addr k]"
    using free_chain_single [OF heap_invD(1) [OF s'(2)] s'(4)] kheap_init_lists(1) [OF assms s'(1)] by simp
  moreover have "heap_live s' = {}" using s'(3) ok(2) by (simp add: heap_live_def allocs_def)
  ultimately show ?thesis using s'(1,6) ok(1,2) pg by simp
qed

theorem kheap_init_spec_witness:
  "\<exists>t s. frame_alloc_init elf_layout None kheap_boot = Some t \<and> kheap_init elf_layout t = Some s \<and>
     heap_ok elf_layout s \<and> heap_blocks s = [0x40000000, 0x40001000, 0x40002000, 0x40003000, 0x40004000] \<and>
     free_chain s [0x40000000]"
proof -
  obtain t s where t: "frame_alloc_init elf_layout None kheap_boot = Some t" "pmm_inv elf_layout t"
    "tx_drains (uart t)" "\<forall>i < 5. 0 + i \<in> free_frames elf_layout (mem t)"
    by (rule boot_heap)
  have "[0..<0 + 5] = [0, 1, 2, 3, 4]" by (simp add: upt_rec)
  with kheap_init_spec [OF link_ok_elf t(2-4)] t(1) show ?thesis by (auto simp: frame_addr_def pmm_consts)
qed

text \<open>
  (C3) Allocation, in every well-formed heap, for a call that does not have to grow the heap
  across a gap: when no block on the free list is large enough, the frames it needs directly
  follow the heap, or the frame allocator runs out first (\<open>heap_room\<close>; the code does not check this,
  and growing over the kernel image breaks the heap).  Then \<open>kmalloc\<close> returns, for every size,
  zero included.  Either it returns \<open>NULL\<close> and no allocation appears or disappears, or it returns
  the 8-byte aligned address of a new area, zeroed and disjoint from every area already
  allocated, of at least the size rounded up by \<open>align8\<close>, hence of at least the size asked for unless
  the rounding wraps.  In both cases the heap stays well formed and the content of every
  allocated area is untouched.
\<close>

theorem kmalloc_spec:
  assumes "heap_ok L s" and "heap_room L z s"
  shows "\<exists>p s'. kmalloc L z s = Some (p, s') \<and> heap_ok L s' \<and>
     (\<forall>(q, k) \<in> heap_live s. \<forall>x \<in> span q k. mem s' x = mem s x) \<and>
     (if p = NULL then heap_live s' = heap_live s
      else 8 dvd unat p \<and> (\<exists>n \<ge> unat (align8 z). (unat z + 7 < 2 ^ 64 \<longrightarrow> unat z \<le> n) \<and>
        heap_live s' = insert (p, n) (heap_live s) \<and>
        (\<forall>x \<in> span p n. mem s' x = 0) \<and> (\<forall>(q, k) \<in> heap_live s. span p n \<inter> span q k = {})))"
proof -
  obtain p s' where k: "kmalloc L z s = Some (p, s')" "heap_ok L s'"
    "p = NULL \<Longrightarrow> heap_live s' = heap_live s"
    "p \<noteq> NULL \<Longrightarrow> \<exists>n \<ge> unat (align8 z). p \<notin> fst ` heap_live s \<and> heap_live s' = insert (p, n) (heap_live s) \<and>
       8 dvd unat p \<and> (\<forall>x \<in> span p n. mem s' x = 0)"
    "\<And>q k x. (q, k) \<in> heap_live s \<Longrightarrow> x \<in> span q k \<Longrightarrow> mem s' x = mem s x"
    by (rule heap_alloc_effect [OF assms]) blast
  have "\<forall>(q, k) \<in> heap_live s. span p n \<inter> span q k = {}"
    if "p \<notin> fst ` heap_live s" "heap_live s' = insert (p, n) (heap_live s)" for n
    using heap.live_disjoint [OF k(2), of p n] that by force
  moreover have "unat z + 7 < 2 ^ 64 \<longrightarrow> unat z \<le> n" if "unat (align8 z) \<le> n" for n
    using align8_ge(1) [of z] that by (auto intro: le_trans)
  ultimately show ?thesis using k by (intro exI [of _ p] exI [of _ s']) (auto; blast)
qed

theorem kmalloc_spec_witness:
  "\<exists>(s :: kheap_state) p s'. kmalloc elf_layout 100 s = Some (p, s') \<and> heap_ok elf_layout s \<and> heap_ok elf_layout s'"
proof -
  obtain s :: kheap_state where s: "heap_ok elf_layout s" "heap_room elf_layout 100 s"
    using boot_heap heap_room_boot by metis
  from kmalloc_spec [OF s] s(1) show ?thesis by blast
qed

text \<open>
  (C10) First fit.  When a block of the free list is large enough for the size rounded up to
  a multiple of eight, \<open>kmalloc\<close> takes the first such block without growing the heap: the block is
  split off at exactly that size when 96 more bytes are there and taken whole otherwise, and
  every other block keeps its place, its size and its status.
\<close>

theorem kmalloc_first_fit:
  assumes "heap_ok L s" and "free_chain s c" and "z \<noteq> 0"
    and "List.find (\<lambda>a. align8 z \<le> hsize (blk (mem s) a)) c = Some b" and "heap_blocks s = xs @ b # ys"
  shows "\<exists>s'. kmalloc L z s = Some (b + 48, s') \<and> heap_ok L s' \<and>
     chunks (mem s') (heap_blocks s') =
       chunks (mem s) xs @ take_chunk b (hsize (blk (mem s) b)) (align8 z) @ chunks (mem s) ys \<and>
     (\<forall>x \<in> data_span (mem s') b. mem s' x = 0) \<and> free_frames L (mem s') = free_frames L (mem s) \<and>
     top_frame s' = top_frame s"
  by (rule kmalloc_fit [OF assms])

theorem kmalloc_first_fit_witness:
  "\<exists>(s :: kheap_state) s'. heap_ok elf_layout s \<and> kmalloc elf_layout 100 s = Some (0x40000030, s') \<and>
     take 2 (chunks (mem s') (heap_blocks s')) = [(0x40000000, 104, False), (0x40000098, 3896, True)]"
proof -
  obtain s :: kheap_state where s: "heap_ok elf_layout s" "chunks (mem s) (heap_blocks s) = pages 0 5"
    "free_list_head s = frame_addr 0" "next_free (blk (mem s) (frame_addr 0)) = NULL"
    using boot_heap_list by metis
  note c = first_page_chain [OF s]
  have a: "align8 100 = 104" by (simp add: align8_def)
  have f: "List.find (\<lambda>a. align8 100 \<le> hsize (blk (mem s) a)) [frame_addr 0] = Some (frame_addr 0)" by (simp add: a c(3))
  have f0: "frame_addr 0 = 0x40000000" by (simp add: frame_addr_def pmm_consts)
  obtain s' where "kmalloc elf_layout 100 s = Some (frame_addr 0 + 48, s')"
    "chunks (mem s') (heap_blocks s') = chunks (mem s) [] @ take_chunk (frame_addr 0) 4048 104 @ chunks (mem s) (map frame_addr [1..<5])"
    using kmalloc_first_fit [OF s(1) c(1) _ f c(2)] by (auto simp: a c(3))
  with s(1) show ?thesis by (intro exI [of _ s] exI [of _ s']) (simp add: f0 take_chunk_def)
qed

text \<open>
  (C4) Release.  \<open>kfree\<close> of an allocated pointer returns; the allocation disappears and no other
  does; in the block list the released block joins a free successor and a free predecessor,
  absorbing their headers, exactly as \<open>free_chunk\<close> says; and no allocated byte changes.
\<close>

theorem kfree_spec:
  assumes "heap_ok L s" and "(p, n) \<in> heap_live s" and "heap_blocks s = xs @ (p - 48) # ys"
  shows "\<exists>s'. kfree p s = Some s' \<and> heap_ok L s' \<and> heap_live s' = heap_live s - {(p, n)} \<and>
     chunks (mem s') (heap_blocks s') = free_chunk (chunks (mem s) xs) (p - 48) (of_nat n) (chunks (mem s) ys) \<and>
     (\<forall>(q, k) \<in> heap_live s. \<forall>x \<in> span q k. mem s' x = mem s x)"
proof -
  obtain f0 where inv: "heap_inv L s (heap_blocks s) f0 (top_frame s)" by (rule heap_okD [OF assms(1)])
  note I = heap_invD [OF inv]
  have a: "\<not> is_free (blk (mem s) (p - 48))" "n = unat (hsize (blk (mem s) (p - 48)))"
    using assms(2) by (auto simp: heap_live_iff allocs_iff)
  obtain s' as' where s': "kfree (p - 48 + 48) s = Some s'"
    "heap_wf s' as' {} (0x40000000 + f0 * 4096) (0x40000000 + top_frame s * 4096)"
    "chunks (mem s') as' = free_chunk (chunks (mem s) xs) (p - 48) (hsize (blk (mem s) (p - 48))) (chunks (mem s) ys)"
    by (rule kfree_wf [OF I(1) [unfolded assms(3)] a(1) I(3)])
  obtain t where t: "kfree p s = Some t" "heap_ok L t" "heap_only s t" "heap_live t = heap_live s - {(p, n)}"
    "\<And>q k x. (q, k) \<in> heap_live s \<Longrightarrow> x \<in> span q k \<Longrightarrow> mem t x = mem s x"
    by (rule heap_release_effect [OF assms(1,2)]) blast
  have "t = s'" using t(1) s'(1) by simp
  with t s'(3) heap_blocks_wf [OF s'(2)] a(2) show ?thesis by auto
qed

theorem kfree_spec_witness:
  "\<exists>(s :: kheap_state) s' s''. kmalloc elf_layout 100 s = Some (0x40000030, s') \<and> kfree 0x40000030 s' = Some s'' \<and>
     heap_live s'' = {}"
proof -
  obtain s s' :: kheap_state where s: "kmalloc elf_layout 100 s = Some (0x40000030, s')" "heap_ok elf_layout s'"
    "(0x40000030, 104) \<in> heap_live s'" "heap_blocks s' = [] @ (0x40000030 - 48) # 0x40000098 # map frame_addr [1..<5]"
    "heap_live s' = {(0x40000030, 104)}"
    by (rule boot_alloc) 
  from kfree_spec [OF s(2-4)] s(1,5) show ?thesis by auto
qed

text \<open>
  (C27) Allocating and releasing at once restores the set of allocations, and the heap stays
  well formed, for an allocation that does not have to grow the heap across a gap
  (\<open>heap_room\<close>): when no block on the free list is large enough, the frames it needs directly follow the
  heap or the frame allocator runs out first.
\<close>

theorem kmalloc_kfree_roundtrip:
  assumes "heap_ok L s" and "heap_room L z s" and "kmalloc L z s = Some (p, s')" and "p \<noteq> NULL"
  shows "\<exists>s''. kfree p s' = Some s'' \<and> heap_ok L s'' \<and> heap_live s'' = heap_live s"
  by (rule heap.alloc_release [OF assms])

theorem kmalloc_kfree_roundtrip_witness:
  "\<exists>(s :: kheap_state) s' s''. kmalloc elf_layout 100 s = Some (0x40000030, s') \<and> kfree 0x40000030 s' = Some s'' \<and>
     heap_live s'' = heap_live s"
proof -
  obtain s s' :: kheap_state where s: "heap_ok elf_layout s" "kmalloc elf_layout 100 s = Some (0x40000030, s')"
    "heap_room elf_layout 100 s"
    by (rule boot_alloc)
  from kmalloc_kfree_roundtrip [OF s(1,3,2)] s(2) show ?thesis by auto
qed

text \<open>
  (C5) Isolation: an allocated area keeps its bytes and stays allocated through any sequence
  of further allocations, of releases of other areas and of stores into other allocated
  areas, as long as no allocation grows the heap across a gap: each one that finds no block
  large enough on the free list gets frames that directly follow the heap, or runs out of frames
  (\<open>heap_room\<close>).  The code does not check this; a heap that grows over the kernel image is outside
  the claim.
\<close>

theorem heap_isolation:
  assumes "(uses (kmalloc L) kfree poke_mem (heap_room L) heap_live p)\<^sup>*\<^sup>* s s'"
    and "heap_ok L s" and "(p, n) \<in> heap_live s"
  shows "heap_ok L s' \<and> (p, n) \<in> heap_live s' \<and> (\<forall>x \<in> span p n. mem s' x = mem s x)"
  by (rule heap.isolation [OF assms])

theorem heap_isolation_witness:
  "\<exists>(s :: kheap_state) s'. (0x40000030, 104) \<in> heap_live s \<and>
     uses (kmalloc elf_layout) kfree poke_mem (heap_room elf_layout) heap_live 0x40000030 s s' \<and>
     (\<forall>x \<in> span 0x40000030 104. mem s' x = mem s x)"
proof -
  obtain s s' :: kheap_state where s: "heap_ok elf_layout s'" "(0x40000030, 104) \<in> heap_live s'" "heap_room elf_layout 100 s'"
    by (rule boot_alloc)
  obtain p s'' where "kmalloc elf_layout 100 s' = Some (p, s'')" using heap.alloc_returns [OF s(1,3)] by blast
  with s(3) have "uses (kmalloc elf_layout) kfree poke_mem (heap_room elf_layout) heap_live 0x40000030 s' s''"
    by (intro uses.alloc [where z = 100 and p = p])
  with heap_isolation [OF r_into_rtranclp s(1,2)] s(2) show ?thesis by blast
qed

text \<open>
  (C2) Take a frame allocator in order whose five lowest free frames are consecutive.  Every
  state reached from initialisation of the heap there is well formed when it is reached by
  allocations that do not grow the heap across a gap (\<open>heap_room\<close>: when no block on the free list is
  large enough, the frames needed directly follow the heap, or the frame allocator runs out
  first; the code does not check it), by releases of allocated pointers and by stores into
  allocated areas: the blocks tile the heap's frames exactly, headers included, allocated areas
  lie in them pairwise disjoint and 8-byte aligned, the free memory counter is exact, and no
  frame of the heap is free.
\<close>

theorem kheap_reachable_safe:
  assumes "link_ok L" and "pmm_inv L t" and "tx_drains (uart t)"
    and "\<forall>i < 5. k + i \<in> free_frames L (mem t)" and "\<forall>i \<in> free_frames L (mem t). k \<le> i"
    and "kheap_init L t = Some s0" and "(uses (kmalloc L) kfree poke_mem (heap_room L) heap_live NULL)\<^sup>*\<^sup>* s0 s"
  shows "(\<exists>f0 < top_frame s. tiles (hsize \<circ> blk (mem s)) (0x40000000 + f0 * 4096) (heap_blocks s)
       (0x40000000 + top_frame s * 4096)) \<and>
     (\<forall>(p, n) \<in> heap_live s. 8 dvd unat p \<and> (\<forall>(q, j) \<in> heap_live s. p \<noteq> q \<longrightarrow> span p n \<inter> span q j = {})) \<and>
     unat (free_memory s) = 4096 * card (free_frames L (mem s)) \<and> (\<forall>i \<in> free_frames L (mem s). top_frame s \<le> i)"
proof -
  obtain as where "heap_inv L s0 as k (k + 5)" using kheap_init_wf [OF assms(1-5)] assms(6) by (metis option.inject)
  then have "heap_ok L s0" by (rule heap_okI(1) [OF assms(1)]) simp
  then have ok: "heap_ok L s" by (rule heap.reachable_ok [OF assms(7)])
  obtain f0 where f0: "f0 < top_frame s" and inv: "heap_inv L s (heap_blocks s) f0 (top_frame s)"
    by (rule heap_okD [OF ok])
  note I = heap_invD [OF inv] and T = heap_wf_tiles [OF heap_invD(1) [OF inv]]
  have "8 dvd unat p" if "(p, n) \<in> heap_live s" for p n
  proof -
    have b: "p - 48 \<in> set (heap_blocks s)" using that by (auto simp: heap_live_iff allocs_iff)
    have "8 dvd unat (p - 48)" by (rule tiles_aligned [OF T _ b]) (simp add: dvd_add)
    moreover have "unat p = unat (p - 48) + 48" using heap_wf_data_ptr(1) [OF I(1) b] by simp
    ultimately show ?thesis by (simp add: dvd_add)
  qed
  moreover have "unat (free_memory s) = 4096 * card (free_frames L (mem s))"
    using I(2) unat_free_memory by (auto simp: pmm_inv_def)
  ultimately show ?thesis using f0 T I(7) heap.live_disjoint [OF ok] by blast
qed

theorem kheap_reachable_safe_witness:
  "\<exists>t s0 p s. frame_alloc_init elf_layout None kheap_boot = Some t \<and> kheap_init elf_layout t = Some s0 \<and>
     kmalloc elf_layout 100 s0 = Some (p, s) \<and> (\<forall>i \<in> free_frames elf_layout (mem s). top_frame s \<le> i)"
proof -
  let ?L = elf_layout
  obtain t s0 where t: "frame_alloc_init ?L None kheap_boot = Some t" "pmm_inv ?L t"
    "tx_drains (uart t)" "\<forall>i < 5. 0 + i \<in> free_frames ?L (mem t)"
    "kheap_init ?L t = Some s0" "heap_ok ?L s0" "top_frame s0 = 5"
    "free_frames ?L (mem s0) = {5..<256} \<union> {312..<FRAMES}"
    by (rule boot_heap)
  have rm: "heap_room ?L 100 s0" by (rule heap_room_boot [OF t(7,8)])
  obtain p s where k: "kmalloc ?L 100 s0 = Some (p, s)" using heap.alloc_returns [OF t(6) rm] by blast
  then have "uses (kmalloc ?L) kfree poke_mem (heap_room ?L) heap_live NULL s0 s"
    using rm by (intro uses.alloc [where z = 100 and p = p])
  then have "(uses (kmalloc ?L) kfree poke_mem (heap_room ?L) heap_live NULL)\<^sup>*\<^sup>* s0 s" by (rule r_into_rtranclp)
  from kheap_reachable_safe [OF link_ok_elf t(2-4) _ t(5) this] t(1,5) k show ?thesis by auto
qed

text \<open>
  (C30) A pointer whose header says free is refused: \<open>kfree\<close> warns on the console and changes
  nothing else; \<open>kfree NULL\<close> changes nothing at all.
\<close>

theorem kfree_double_free:
  assumes "is_free (blk (mem s) (p - 48))" and "tx_drains (uart s)"
  shows "kfree NULL s = Some s \<and> (p \<noteq> NULL \<longrightarrow> (\<exists>u. kfree p s = Some (s\<lparr>uart := u\<rparr>)))"
  using kfree_free_block [OF assms(1) _ assms(2)] by (auto simp: kfree_def)

theorem kfree_double_free_witness:
  "\<exists>(s :: kheap_state) u. heap_ok elf_layout s \<and> kfree 0x40000030 s = Some (s\<lparr>uart := u\<rparr>)"
proof -
  obtain s :: kheap_state where s: "heap_ok elf_layout s" "chunks (mem s) (heap_blocks s) = pages 0 5"
    using boot_heap_list by metis
  obtain f0 where inv: "heap_inv elf_layout s (heap_blocks s) f0 (top_frame s)" by (rule heap_okD [OF s(1)])
  have "frame_addr 0 \<in> set (heap_blocks s)" using chunks_pages(1) [OF s(2)] by simp
  then have "is_free (blk (mem s) (0x40000030 - 48))"
    using chunks_pages(2) [OF s(2)] by (simp add: frame_addr_def pmm_consts)
  from kfree_double_free [OF this heap_invD(3) [OF inv]] s(1) show ?thesis by auto
qed

text \<open>
  (C31) A size within eight of \<open>2^64\<close> wraps to zero when rounded up: right after initialisation
  \<open>kmalloc\<close> of such a size succeeds and returns an area of no bytes at all.
\<close>

theorem kmalloc_size_wraps:
  assumes "link_ok L" and "pmm_inv L t" and "tx_drains (uart t)"
    and "\<forall>i < 5. k + i \<in> free_frames L (mem t)" and "\<forall>i \<in> free_frames L (mem t). k \<le> i"
    and "kheap_init L t = Some s" and "2 ^ 64 - 8 < unat z"
  shows "\<exists>s'. kmalloc L z s = Some (frame_addr k + 48, s') \<and> heap_live s' = {(frame_addr k + 48, 0)}"
proof -
  obtain as where s: "heap_inv L s as k (k + 5)" "chunks (mem s) as = pages k 5" "free_list_head s = frame_addr k"
    using kheap_init_wf [OF assms(1-5)] assms(6) by (metis option.inject)
  have "k < k + 5" by simp
  note ok = heap_okI [OF assms(1) s(1) this]
  have bl: "heap_blocks s = [] @ frame_addr k # map frame_addr [Suc k..<k + 5]"
    using chunks_pages(1) [OF s(2)] ok(2) by (simp add: upt_conv_Cons)
  then have sz: "hsize (blk (mem s) (frame_addr k)) = 4048" using chunks_pages(2) [OF s(2)] ok(2) by simp
  have "frame_addr k \<noteq> NULL" by (rule heap_wf_nz [OF heap_invD(1) [OF s(1)]]) (use bl ok(2) in simp)
  then have fc: "free_chain s [frame_addr k]"
    using free_chain_single [OF heap_invD(1) [OF s(1)] s(3) _ kheap_init_lists(1) [OF assms(1-6)]] by simp
  have "(unat z + 7) mod 2 ^ 64 = unat z + 7 - 2 ^ 64" using assms(7) unat_u64_lt [of z] by (simp add: mod_if)
  then have "unat (align8 z) = 0" using assms(7) unat_u64_lt [of z] by (simp add: align8_nat)
  then have a: "align8 z = 0" by (simp add: unat_eq_0)
  then have fd: "List.find (\<lambda>a. align8 z \<le> hsize (blk (mem s) a)) [frame_addr k] = Some (frame_addr k)" by simp
  have z: "z \<noteq> 0" using assms(7) by auto
  obtain s' where s': "kmalloc L z s = Some (frame_addr k + 48, s')"
    "chunks (mem s') (heap_blocks s') = chunks (mem s) [] @ take_chunk (frame_addr k) (hsize (blk (mem s) (frame_addr k))) (align8 z)
       @ chunks (mem s) (map frame_addr [Suc k..<k + 5])"
    using kmalloc_fit [OF ok(1) fc z fd bl] by blast
  have "live_chunks (chunks (mem s) as) = {}" using s(2) by simp
  then have "live_chunks (chunks (mem s) (map frame_addr [Suc k..<k + 5])) = {}"
    using bl ok(2) by (auto split: if_splits)
  then have "allocs (mem s') (heap_blocks s') = {(frame_addr k, 0)}" unfolding allocs_def s'(2) by (simp add: a sz)
  then show ?thesis using s'(1) by (simp add: heap_live_def)
qed

theorem kmalloc_size_wraps_witness:
  "\<exists>t s s'. frame_alloc_init elf_layout None kheap_boot = Some t \<and> kheap_init elf_layout t = Some s \<and>
     kmalloc elf_layout (- 1) s = Some (0x40000030, s') \<and> heap_live s' = {(0x40000030, 0)}"
proof -
  obtain t s where t: "frame_alloc_init elf_layout None kheap_boot = Some t" "pmm_inv elf_layout t"
    "tx_drains (uart t)" "\<forall>i < 5. 0 + i \<in> free_frames elf_layout (mem t)" "kheap_init elf_layout t = Some s"
    by (rule boot_heap)
  have f0: "frame_addr 0 = 0x40000000" by (simp add: frame_addr_def pmm_consts)
  from kmalloc_size_wraps [OF link_ok_elf t(2-4) _ t(5), of "- 1"] t(1,5) show ?thesis by (auto simp: f0)
qed



end
