(* ===== verification/Kheap_Gap.thy ===== *)
theory Kheap_Gap
  imports Kheap_Spec
begin

text \<open>
  Why the heap needs frames that follow on (\<open>heap_room\<close>): what \<open>expand_heap\<close> does with a page from
  behind a gap, computed field by field on the headers.
\<close>

lemma heap_end_last:
  assumes "heap_inv L s as f0 k" and "f0 < k"
  shows "heap_end s = last as" and "as \<noteq> []"
    and "unat (heap_end s) + 48 + unat (hsize (blk (mem s) (heap_end s))) = 0x40000000 + k * 4096"
proof -
  note wf = heap_invD(1) [OF assms(1)]
  have T: "tiles (hsize \<circ> blk (mem s)) (0x40000000 + f0 * 4096) as (0x40000000 + k * 4096)" by (rule heap_wf_tiles [OF wf])
  then show ne: "as \<noteq> []" using assms(2) by auto
  then show e: "heap_end s = last as" using wf by (simp add: heap_wf_def block_list_def)
  obtain bs b where "as = bs @ [b]" using ne by (cases as rule: rev_cases) auto
  then show "unat (heap_end s) + 48 + unat (hsize (blk (mem s) (heap_end s))) = 0x40000000 + k * 4096"
    using T e by (auto simp: tiles_append)
qed

lemma gap_sepset:
  assumes inv: "heap_inv L s as f0 k" and "k \<le> g" and "g < FRAMES"
  shows "sepset (insert (frame_addr g) (set as))" and "frame_addr g \<notin> set as"
proof -
  note wf = heap_invD(1) [OF inv] and uf = unat_frame_addr [of g]
  have far: "unat a + 48 \<le> unat (frame_addr g)" if "a \<in> set as" for a
    using tiles_in [OF heap_wf_tiles [OF wf] that] uf assms(2,3) by simp
  then show "frame_addr g \<notin> set as" by force
  have "sep a (frame_addr g) \<and> sep (frame_addr g) a" if "a \<in> set as" for a
    using far [OF that] uf assms(3) by (auto simp: sep_def apart_def unat_sub_if')
  then show "sepset (insert (frame_addr g) (set as))"
    using heap_wf_sepset [OF wf] frame_addr_nz [OF assms(3)] by (auto simp: sepset_def)
qed


lemma free_links:
  assumes "heap_wf s as {} lo hi" and "b \<in> set as" and "is_free (blk (mem s) b)"
  shows "prev_free (blk (mem s) b) \<in> insert NULL (set as - {b})"
    and "next_free (blk (mem s) b) \<in> insert NULL (set as - {b})"
    and "prev_free (blk (mem s) b) \<noteq> NULL \<Longrightarrow> free_list_head s \<noteq> b"
proof -
  obtain cs where cs: "chains (blk (mem s)) (free_list_head s) cs"
    "set (concat cs) = {a \<in> set as. is_free (blk (mem s) a)}" using assms(1) by (auto simp: heap_wf_def)
  then have "b \<in> set (concat cs)" using assms(2,3) by simp
  note l = chains_links [OF cs(1) this]
  show "prev_free (blk (mem s) b) \<in> insert NULL (set as - {b})" "next_free (blk (mem s) b) \<in> insert NULL (set as - {b})"
    using l cs(2) by auto
  obtain c where c: "free_chain s c" "NULL \<notin> set c" by (rule heap_wf_free_chain [OF assms(1)])
  assume p: "prev_free (blk (mem s) b) \<noteq> NULL"
  show "free_list_head s \<noteq> b"
  proof
    assume h: "free_list_head s = b"
    then have "c \<noteq> []" using c(1) heap_wf_nz [OF assms(1,2)] by (auto simp: free_chain_def)
    then show False using c(1) h p by (cases c) (auto simp: free_chain_def)
  qed
qed

text \<open>Taking the frame leaves the headers of the heap alone.\<close>

lemma gap_headers:
  assumes L: "link_ok L" and inv: "heap_inv L s as f0 k" and g: "g \<in> free_frames L (mem s)" and a: "a \<in> set as"
  shows "blk (mem (take_frame L g s)) a = blk (mem s) a"
proof (rule blk_cong)
  note I = heap_invD [OF inv]
  fix x assume "x \<in> span a 48"
  then have x: "x \<in> region f0 k" using block_in_region(1) [OF I(1) a] by blast
  have gF: "g < FRAMES" "k \<le> g" using g I(7) free_frames_subset by blast+
  have "x \<notin> span (frame_addr g) 4096" using x gF unfolding frame_region [OF gF(1)] by (auto simp: region_def)
  moreover have "x \<notin> span (pmm_bitmap_start L) 0x20000" using x region_apart_bitmap [OF L I(5,6)] by blast
  ultimately show "mem (take_frame L g s) x = mem s x" using take_frame_effect(4) [OF L I(2) g] by blast
qed

text \<open>A new last block \<open>f\<close> is merged into a free predecessor \<open>e\<close>, wherever the two lie.\<close>

lemma merge_last:
  assumes A: "sepset A" "e \<in> A" "f \<in> A" "e \<noteq> f" and free: "is_free (blk (mem v) e)"
    and f: "hprev (blk (mem v) f) = e" "hnext (blk (mem v) f) = NULL"
    and pn: "prev_free (blk (mem v) e) \<in> insert NULL (A - {e})" "next_free (blk (mem v) e) \<in> insert NULL (A - {e})"
    and head: "prev_free (blk (mem v) e) \<noteq> NULL \<longrightarrow> free_list_head v \<in> insert NULL (A - {e})"
  obtains x where "expand_merge f v = (e, x)" and "is_free (blk (mem (add_to_free_list e x)) e)"
    and "hsize (blk (mem (add_to_free_list e x)) e) = hsize (blk (mem v) e) + (hsize (blk (mem v) f) + 48)"
proof -
  define w where "w = remove_from_free_list e v"
  define x where "x = absorb e f w"
  note rv = remove_view [OF A(1,2) _ refl pn(1) refl pn(2), folded w_def]
  have w: "hsize (blk (mem w) e) = hsize (blk (mem v) e)" "hsize (blk (mem w) f) = hsize (blk (mem v) f)"
    "hnext (blk (mem w) f) = NULL"
    using rv [of e] rv [of f] A f(2) by simp_all
  have "free_list_head w \<in> insert NULL (A - {e})"
    using pn(2) head remove_head [of e v] by (simp add: w_def)
  then have hx: "free_list_head x \<in> insert NULL (A - {e})" by (simp add: x_def absorb_def Let_def)
  have "hsize (blk (mem x) e) = hsize (blk (mem v) e) + (hsize (blk (mem v) f) + 48)"
    using absorb_view [OF A(1,2,2), of NULL w f] w by (simp add: x_def)
  moreover have "sep e f" "e \<noteq> NULL" using sepsetD [OF A(1)] A by auto
  then have "expand_merge f v = (e, x)"
    using f(1) free A(4) by (simp add: expand_merge_def x_def absorb_def w_def [symmetric] Let_def blk_put)
  ultimately show thesis using that [of x] add_view [OF A(1,2,2) hx] by simp
qed

text \<open>One page from behind a gap is linked in as the last block, and merged.\<close>

lemma expand_gap:
  assumes L: "link_ok L" and inv: "heap_inv L s as f0 k" and f0: "f0 < k"
    and fr: "is_free (blk (mem s) (heap_end s))" and g: "g \<in> free_frames L (mem s)" and one: "pages_for m = 1"
    and low: "\<forall>i \<in> free_frames L (mem s). g \<le> i"
  obtains s' where "expand_heap L m s = Some (True, s')" and "free_list_head s' = heap_end s"
    and "is_free (blk (mem s') (heap_end s))" and "hsize (blk (mem s') (heap_end s)) = hsize (blk (mem s) (heap_end s)) + 4096"
proof -
  note I = heap_invD [OF inv]
  let ?f = "frame_addr g" and ?e = "heap_end s"
  obtain u where u: "kprint ''KHeap: Expanding heap by %zu pages\<newline>'' [VA (page_count m)] s = Some (s\<lparr>uart := u\<rparr>)" "tx_drains u"
    by (rule kprint_heap [OF heap_fits(1) I(3)])
  have gF: "g < FRAMES" "k \<le> g" using g I(7) free_frames_subset by blast+
  note A = gap_sepset [OF inv gF(2,1)] and e = heap_end_last [OF inv f0] and nz = frame_addr_nz [OF gF(1)]
  let ?A = "insert ?f (set as)"
  have e0: "?e \<in> set as" using e(1,2) by simp
  then have ein: "?e \<in> ?A" "?e \<in> insert NULL (?A - {?f})" "?f \<in> ?A" "?e \<noteq> ?f" using A(2) by auto
  define t where "t = take_frame L g (s\<lparr>uart := u\<rparr>)"
  define v where "v = expand_link ?f t"
  have "Min (free_frames L (mem s)) = g" using g low by (intro Min_eqI) auto
  then have al: "alloc_frame L (s\<lparr>uart := u\<rparr>) = Some (?f, t)"
    using alloc_frame_lowest [of L "s\<lparr>uart := u\<rparr>"] g by (auto simp: t_def)
  have bt: "blk (mem t) ?e = blk (mem s) ?e"
    using gap_headers [OF L heap_inv_uart [OF inv u(2)] _ e0] g by (simp add: t_def)
  have et: "?e = heap_end t" "free_list_head v = free_list_head s"
    by (simp_all add: t_def v_def take_frame_def expand_link_def Let_def)
  note vw = link_view [OF A(1) ein(3) _ et(1) ein(2), folded v_def]
  note fl = free_links [OF I(1) e0 fr]
  have v: "is_free (blk (mem v) ?e)" "hprev (blk (mem v) ?f) = ?e" "hnext (blk (mem v) ?f) = NULL"
    "prev_free (blk (mem v) ?e) \<in> insert NULL (?A - {?e})" "next_free (blk (mem v) ?e) \<in> insert NULL (?A - {?e})"
    "prev_free (blk (mem v) ?e) \<noteq> NULL \<longrightarrow> free_list_head v \<in> insert NULL (?A - {?e})"
    "hsize (blk (mem v) ?e) = hsize (blk (mem s) ?e)" "hsize (blk (mem v) ?f) = 4048"
    using vw [of ?f] vw [of ?e] ein bt fr fl heap_wf_head [OF I(1)] et(2) by auto
  obtain x where x: "expand_merge ?f v = (?e, x)" "is_free (blk (mem (add_to_free_list ?e x)) ?e)"
    "hsize (blk (mem (add_to_free_list ?e x)) ?e) = hsize (blk (mem v) ?e) + (hsize (blk (mem v) ?f) + 48)"
    by (rule merge_last [OF A(1) ein(1,3,4) v(1-6)])
  have "expand_loop L 1 NULL (s\<lparr>uart := u\<rparr>) = Some (True, ?f, v)" using al nz by (simp add: v_def)
  then have "expand_heap L m s = Some (True, add_to_free_list ?e x)"
    using u(1) x(1) nz by (simp add: expand_heap_eq one del: expand_loop.simps)
  then show thesis using that [of "add_to_free_list ?e x"] x(2,3) v(7,8) by (simp add: add_to_free_list_def Let_def)
qed

subsection \<open>Property\<close>

text \<open>
  (C33) Growing across a gap.  When the last block of the heap is free and the lowest free frame
  does not follow the heap, expansion by one page takes that frame, joins it with the last
  block all the same and puts the result on the free list: the free block then covers the
  frame behind the heap, which is in use.  After boot that frame is the first one of the
  kernel image.
\<close>

theorem expand_heap_gap:
  assumes "heap_ok L s" and "is_free (blk (mem s) (heap_end s))" and "g \<in> free_frames L (mem s)"
    and "\<forall>i \<in> free_frames L (mem s). g \<le> i" and "top_frame s < g" and "pages_for m = 1"
  shows "\<exists>s'. expand_heap L m s = Some (True, s') \<and> free_list_head s' = heap_end s \<and>
     is_free (blk (mem s') (heap_end s)) \<and> top_frame s \<notin> free_frames L (mem s) \<and>
     span (frame_addr (top_frame s)) 4096 \<subseteq> span (heap_end s + 48) (unat (hsize (blk (mem s') (heap_end s))))"
proof -
  obtain f0 where L: "link_ok L" and f0: "f0 < top_frame s" and inv: "heap_inv L s (heap_blocks s) f0 (top_frame s)"
    by (rule heap_okD [OF assms(1)])
  let ?e = "heap_end s" and ?k = "top_frame s"
  obtain s' where s': "expand_heap L m s = Some (True, s')" "free_list_head s' = ?e" "is_free (blk (mem s') ?e)"
    "hsize (blk (mem s') ?e) = hsize (blk (mem s) ?e) + 4096"
    by (rule expand_gap [OF L inv f0 assms(2,3,6,4)])
  note e = heap_end_last [OF inv f0]
  have k: "?k < FRAMES" using assms(3,5) free_frames_subset [of L "mem s"] by auto
  have sz: "unat (hsize (blk (mem s') ?e)) = unat (hsize (blk (mem s) ?e)) + 4096"
    using e(3) k by (simp add: s'(4) unat_word_ariths)
  have "unat (?e + 48) = unat ?e + 48" using e(3) k by (simp add: unat_word_ariths)
  then have "span (frame_addr ?k) 4096 \<subseteq> span (?e + 48) (unat (hsize (blk (mem s') ?e)))"
    using e(3) k unat_frame_addr [of ?k] by (auto simp: span_nat sz)
  with s'(1-3) assms(4,5) show ?thesis by auto
qed

theorem expand_heap_gap_witness:
  "\<exists>(t :: kheap_state) s s'. pmm_reach elf_layout None t \<and> kheap_init elf_layout t = Some s \<and>
     expand_heap elf_layout 100 s = Some (True, s') \<and>
     span 0x40100000 4096 \<subseteq> span (heap_end s + 48) (unat (hsize (blk (mem s') (heap_end s)))) \<and>
     free_list_head s' = heap_end s"
proof -
  let ?L = elf_layout
  have "tx_drains (uart kheap_boot)" by (simp add: kheap_boot_def)
  then obtain t :: kheap_state where t: "pmm_reach ?L None t" "pmm_inv ?L t" "tx_drains (uart t)"
    "free_frames ?L (mem t) = {251..<256} \<union> {312..<FRAMES}" using pmm_reach_below [of kheap_boot 251] by auto
  have k: "\<forall>i < 5. 251 + i \<in> free_frames ?L (mem t)" "\<forall>i \<in> free_frames ?L (mem t). 251 \<le> i"
    unfolding t(4) by auto
  obtain s as where s: "kheap_init ?L t = Some s" "heap_inv ?L s as 251 (251 + 5)" "chunks (mem s) as = pages 251 5"
    "free_frames ?L (mem s) = free_frames ?L (mem t) - {251..<251 + 5}"
    by (rule kheap_init_wf [OF link_ok_elf t(2,3) k])
  note ok = heap_okI [OF link_ok_elf s(2)] and e = heap_end_last [OF s(2)]
  have "is_free (blk (mem s) (heap_end s))" using chunks_pages(2) [OF s(3)] e by simp
  moreover have fr: "free_frames ?L (mem s) = {312..<FRAMES}" unfolding s(4) t(4) by auto
  moreover have "pages_for 100 = 1" by (simp add: pages_for_def page_count_def)
  ultimately show ?thesis
    using expand_heap_gap [of ?L s 312 100] ok s(1) t(1) by (auto simp: frame_addr_def pmm_consts)
qed

end
