(* ===== verification/Shell.thy ===== *)
theory Shell
  imports Kheap Stdlib
begin

text \<open>
  The interactive shell, \<open>src/src/shell/shell.c\<close>.  The addresses the compiler and linker choose
  for the objects of this file are a parameter, \<open>shell_objs\<close>: the line buffer on the stack, the
  command table, the static arrays with the command names, the handlers' code and the string
  literal with the delimiter.  The line buffer, the names and the delimiter are read and
  written in memory; the array \<open>argv\<close> is the list of the token addresses, and \<open>argc\<close> its length.
  The command table is a field of the state, like the other statics.
  \<open>shell_round\<close> is one turn of the endless loop, from the prompt to the next prompt;
  \<open>shell_loop E n\<close> is the shell after \<open>n\<close> turns.
\<close>

datatype cmd = Cmd_help | Cmd_memdump | Cmd_peek | Cmd_poke | Cmd_alloc | Cmd_free | Cmd_pmm_info

record shell_objs =
  cmd_buffer :: u64
  commands_at :: u64
  name_at :: "cmd \<Rightarrow> u64"
  func_at :: "cmd \<Rightarrow> u64"
  space_at :: u64

text \<open>An entry of the command table: the name and the handler; the sentinel has neither.\<close>

record shell_state = kheap_state +
  commands :: "(u64 \<times> cmd option) list"

definition MAX_CMD_LEN :: nat where "MAX_CMD_LEN = 128"
definition MAX_ARGS :: nat where "MAX_ARGS = 10"

subsection \<open>Address validation\<close>

definition is_address_valid :: "u64 \<Rightarrow> u64 \<Rightarrow> 'a pmm_state_scheme \<Rightarrow> bool" where
  "is_address_valid addr len s =
     (let highest_ram = pmm_get_highest_usable_address s
      in if addr < PMM_RAM_BASE \<or> addr \<ge> highest_ram then False
         else if len > 0 \<and> addr + len - 1 \<ge> highest_ram then
           (if addr + len < addr then False else False)
         else True)"

subsection \<open>memdump\<close>

fun dump_hex :: "u64 \<Rightarrow> u64 \<Rightarrow> u64 \<Rightarrow> nat list \<Rightarrow> 'a machine_scheme \<Rightarrow> 'a machine_scheme option" where
  "dump_hex addr len i [] s = Some s"
| "dump_hex addr len i (j # js) s = do {
     s \<leftarrow> (if i + of_nat j < len
           then kprint ''%02x '' [VA (ucast (mem s (addr + (i + of_nat j))))] s
           else kprint ''   '' [] s);
     s \<leftarrow> (if j = 7 then kprint '' '' [] s else Some s);
     dump_hex addr len i js s }"

fun dump_ascii :: "u64 \<Rightarrow> u64 \<Rightarrow> u64 \<Rightarrow> nat list \<Rightarrow> 'a machine_scheme \<Rightarrow> 'a machine_scheme option" where
  "dump_ascii addr len i [] s = Some s"
| "dump_ascii addr len i (j # js) s = do {
     s \<leftarrow> (if i + of_nat j < len
           then (let c = mem s (addr + (i + of_nat j))
                 in kprint ''%c'' [VA (ucast (if c \<ge> 32 \<and> c \<le> 126 then c else 46))] s)
           else kprint '' '' [] s);
     dump_ascii addr len i js s }"

definition dump_row :: "u64 \<Rightarrow> u64 \<Rightarrow> u64 \<Rightarrow> 'a machine_scheme \<Rightarrow> 'a machine_scheme option" where
  "dump_row addr len i s = do {
     s \<leftarrow> kprint ''%016llx: '' [VA (addr + i)] s;
     s \<leftarrow> dump_hex addr len i [0..<16] s;
     s \<leftarrow> kprint '' |'' [] s;
     s \<leftarrow> dump_ascii addr len i [0..<16] s;
     kprint ''|\<newline>'' [] s }"

partial_function (option) dump_rows :: "u64 \<Rightarrow> u64 \<Rightarrow> u64 \<Rightarrow> 'a machine_scheme \<Rightarrow> 'a machine_scheme option" where
  "dump_rows addr len i s =
     (if i < len then do { s \<leftarrow> dump_row addr len i s; dump_rows addr len (i + 16) s } else Some s)"

definition dump_range :: "u64 \<Rightarrow> u64 \<Rightarrow> 'a pmm_state_scheme \<Rightarrow> 'a pmm_state_scheme option" where
  "dump_range addr len s =
     (if len = 0 then Some s
      else if \<not> is_address_valid addr len s then
        kprint ''Error: Address range 0x%llx - 0x%llx is not within valid RAM.\<newline>''
          [VA addr, VA (addr + len - 1)] s
      else do {
        s \<leftarrow> kprint ''Memory dump from 0x%llx (length %zu):\<newline>'' [VA addr, VA len] s;
        dump_rows addr len 0 s })"

definition cmd_memdump :: "u64 list \<Rightarrow> 'a pmm_state_scheme \<Rightarrow> 'a pmm_state_scheme option" where
  "cmd_memdump argv s =
     (if length argv < 2 then kprint ''Usage: memdump <address> [length]\<newline>'' [] s
      else do {
        (addr, endptr) \<leftarrow> strtoull (mem s) (argv ! 1) 0;
        if mem s endptr \<noteq> 0 then kprint ''Error: Invalid address format '%s'\<newline>'' [VA (argv ! 1)] s
        else if length argv > 2 then do {
          (len, endptr) \<leftarrow> strtoull (mem s) (argv ! 2) 0;
          if mem s endptr \<noteq> 0 then kprint ''Error: Invalid length format '%s'\<newline>'' [VA (argv ! 2)] s
          else dump_range addr len s }
        else dump_range addr 256 s })"

subsection \<open>peek and poke\<close>

definition size_bytes :: "u8 \<Rightarrow> u64 option" where
  "size_bytes sz_char =
     (if sz_char = of_char CHR ''b'' then Some 1
      else if sz_char = of_char CHR ''h'' then Some 2
      else if sz_char = of_char CHR ''w'' then Some 4
      else if sz_char = of_char CHR ''d'' then Some 8
      else None)"

definition check_access :: "u64 \<Rightarrow> u64 \<Rightarrow> 'a pmm_state_scheme \<Rightarrow> (bool \<times> 'a pmm_state_scheme) option" where
  "check_access addr n s =
     (if \<not> is_address_valid addr n s then do {
        s \<leftarrow> kprint ''Error: Address 0x%llx is not within valid RAM for size %zu.\<newline>'' [VA addr, VA n] s;
        Some (False, s) }
      else if n > 1 \<and> addr mod n \<noteq> 0 then do {
        s \<leftarrow> kprint ''Warning: Address 0x%llx is not aligned for size %zu.\<newline>'' [VA addr, VA n] s;
        Some (True, s) }
      else Some (True, s))"

definition peek_format :: "u64 \<Rightarrow> string" where
  "peek_format n = (if n = 1 then ''0x%02llx\<newline>'' else if n = 2 then ''0x%04llx\<newline>''
     else if n = 4 then ''0x%08llx\<newline>'' else ''0x%016llx\<newline>'')"

definition peek_at :: "u64 \<Rightarrow> u8 \<Rightarrow> 'a pmm_state_scheme \<Rightarrow> 'a pmm_state_scheme option" where
  "peek_at addr sz_char s = (case size_bytes sz_char of
     None \<Rightarrow> kprint ''Error: Invalid size '%c'. Use b, h, w, or d.\<newline>'' [VA (ucast sz_char)] s
   | Some n \<Rightarrow> do {
       (ok, s) \<leftarrow> check_access addr n s;
       if \<not> ok then Some s
       else do {
         s \<leftarrow> kprint ''Peek at 0x%llx (size %zu): '' [VA addr, VA n] s;
         kprint (peek_format n) [VA (load_le (unat n) (mem s) addr)] s }})"

definition cmd_peek :: "u64 list \<Rightarrow> 'a pmm_state_scheme \<Rightarrow> 'a pmm_state_scheme option" where
  "cmd_peek argv s =
     (if length argv < 2 then kprint ''Usage: peek <address> [size: b/h/w/d (default: d)]\<newline>'' [] s
      else do {
        (addr, endptr) \<leftarrow> strtoull (mem s) (argv ! 1) 0;
        if mem s endptr \<noteq> 0 then kprint ''Error: Invalid address format '%s'\<newline>'' [VA (argv ! 1)] s
        else if length argv > 2 then do {
          n \<leftarrow> strlen (mem s) (argv ! 2);
          if n \<noteq> 1 then kprint ''Error: Invalid size format '%s'\<newline>'' [VA (argv ! 2)] s
          else peek_at addr (mem s (argv ! 2)) s }
        else peek_at addr (of_char CHR ''d'') s })"

definition poke_at :: "u64 \<Rightarrow> u64 \<Rightarrow> u8 \<Rightarrow> 'a pmm_state_scheme \<Rightarrow> 'a pmm_state_scheme option" where
  "poke_at addr val sz_char s = (case size_bytes sz_char of
     None \<Rightarrow> kprint ''Error: Invalid size '%c'. Use b, h, w, or d.\<newline>'' [VA (ucast sz_char)] s
   | Some n \<Rightarrow> do {
       (ok, s) \<leftarrow> check_access addr n s;
       if \<not> ok then Some s
       else do {
         s \<leftarrow> kprint ''Poke at 0x%llx (size %zu) with value 0x%llx\<newline>'' [VA addr, VA n, VA val] s;
         Some (s\<lparr>mem := store_le (unat n) (mem s) addr val\<rparr>) }})"

definition cmd_poke :: "u64 list \<Rightarrow> 'a pmm_state_scheme \<Rightarrow> 'a pmm_state_scheme option" where
  "cmd_poke argv s =
     (if length argv < 3 then kprint ''Usage: poke <address> <value> [size: b/h/w/d (default: d)]\<newline>'' [] s
      else do {
        (addr, endptr) \<leftarrow> strtoull (mem s) (argv ! 1) 0;
        if mem s endptr \<noteq> 0 then kprint ''Error: Invalid address format '%s'\<newline>'' [VA (argv ! 1)] s
        else do {
          (val, endptr) \<leftarrow> strtoull (mem s) (argv ! 2) 0;
          if mem s endptr \<noteq> 0 then kprint ''Error: Invalid value format '%s'\<newline>'' [VA (argv ! 2)] s
          else if length argv > 3 then do {
            n \<leftarrow> strlen (mem s) (argv ! 3);
            if n \<noteq> 1 then kprint ''Error: Invalid size format '%s'\<newline>'' [VA (argv ! 3)] s
            else poke_at addr val (mem s (argv ! 3)) s }
          else poke_at addr val (of_char CHR ''d'') s }})"

subsection \<open>The heap commands\<close>

definition cmd_alloc :: "layout \<Rightarrow> u64 list \<Rightarrow> 'a kheap_state_scheme \<Rightarrow> 'a kheap_state_scheme option" where
  "cmd_alloc L argv s =
     (if length argv < 2 then kprint ''Usage: alloc <size>\<newline>'' [] s
      else do {
        (sz, endptr) \<leftarrow> strtoull (mem s) (argv ! 1) 0;
        if mem s endptr \<noteq> 0 \<or> sz = 0 then kprint ''Error: Invalid size '%s'\<newline>'' [VA (argv ! 1)] s
        else do {
          (ptr, s) \<leftarrow> kmalloc L sz s;
          if ptr \<noteq> NULL then kprint ''Allocated %zu bytes at 0x%p\<newline>'' [VA sz, VA ptr] s
          else kprint ''Allocation failed!\<newline>'' [] s }})"

definition cmd_free :: "u64 list \<Rightarrow> 'a kheap_state_scheme \<Rightarrow> 'a kheap_state_scheme option" where
  "cmd_free argv s =
     (if length argv < 2 then kprint ''Usage: free <address>\<newline>'' [] s
      else do {
        (addr, endptr) \<leftarrow> strtoull (mem s) (argv ! 1) 0;
        if mem s endptr \<noteq> 0 then kprint ''Error: Invalid address format '%s'\<newline>'' [VA (argv ! 1)] s
        else do {
          s \<leftarrow> kprint ''Freeing memory at 0x%p\<newline>'' [VA addr] s;
          kfree addr s }})"

subsection \<open>help and pmm_info\<close>

definition cmd_help :: "'a machine_scheme \<Rightarrow> 'a machine_scheme option" where
  "cmd_help s = do {
     s \<leftarrow> kprint ''Available commands:\<newline>'' [] s;
     s \<leftarrow> kprint ''  help          - Display this help message\<newline>'' [] s;
     s \<leftarrow> kprint ''  memdump <addr> [len] - Dump memory contents (default len=256)\<newline>'' [] s;
     s \<leftarrow> kprint ''  peek <addr> [sz] - Read value from memory (sz=b/h/w/d, default=d)\<newline>'' [] s;
     s \<leftarrow> kprint ''  poke <addr> <val> [sz] - Write value to memory (sz=b/h/w/d, default=d)\<newline>'' [] s;
     s \<leftarrow> kprint ''  alloc <size>  - Allocate memory of given size\<newline>'' [] s;
     s \<leftarrow> kprint ''  free <addr>   - Free previously allocated memory\<newline>'' [] s;
     kprint ''  pmm_info      - Display Physical Memory Manager info\<newline>'' [] s }"

definition cmd_pmm_info :: "'a pmm_state_scheme \<Rightarrow> 'a pmm_state_scheme option" where
  "cmd_pmm_info s = do {
     s \<leftarrow> kprint ''Physical Memory Manager Info:\<newline>'' [] s;
     s \<leftarrow> kprint ''  Total Usable Memory: %llu KB\<newline>'' [VA (pmm_get_total_memory s div 1024)] s;
     s \<leftarrow> kprint ''  Free Memory:         %llu KB\<newline>'' [VA (pmm_get_free_memory s div 1024)] s;
     kprint ''  Highest Usable Addr: 0x%llx\<newline>'' [VA (pmm_get_highest_usable_address s)] s }"

fun run_cmd :: "layout \<Rightarrow> cmd \<Rightarrow> u64 list \<Rightarrow> 'a kheap_state_scheme \<Rightarrow> 'a kheap_state_scheme option" where
  "run_cmd L Cmd_help argv s = cmd_help s"
| "run_cmd L Cmd_memdump argv s = cmd_memdump argv s"
| "run_cmd L Cmd_peek argv s = cmd_peek argv s"
| "run_cmd L Cmd_poke argv s = cmd_poke argv s"
| "run_cmd L Cmd_alloc argv s = cmd_alloc L argv s"
| "run_cmd L Cmd_free argv s = cmd_free argv s"
| "run_cmd L Cmd_pmm_info argv s = cmd_pmm_info s"

subsection \<open>The command table\<close>

definition command_table :: "shell_objs \<Rightarrow> (u64 \<times> cmd option) list" where
  "command_table E = map (\<lambda>c. (name_at E c, Some c))
     [Cmd_help, Cmd_memdump, Cmd_peek, Cmd_poke, Cmd_alloc, Cmd_free, Cmd_pmm_info] @ [(NULL, None)]"

fun print_names :: "(u64 \<times> cmd option) list \<Rightarrow> nat list \<Rightarrow> 'a machine_scheme \<Rightarrow> 'a machine_scheme option" where
  "print_names tab [] s = Some s"
| "print_names tab (i # is) s = do {
     n \<leftarrow> strlen (mem s) (fst (tab ! i));
     s \<leftarrow> kprint ''  [%d] name at %p: '%s', len=%d\<newline>''
       [VA (of_nat i), VA (fst (tab ! i)), VA (fst (tab ! i)), VA n] s;
     print_names tab is s }"

definition init_command_table :: "shell_objs \<Rightarrow> 'a shell_state_scheme \<Rightarrow> 'a shell_state_scheme option" where
  "init_command_table E s = do {
     let s = s\<lparr>commands := command_table E\<rparr>;
     s \<leftarrow> kprint ''Command table initialized:\<newline>'' [] s;
     print_names (commands s) [0..<7] s }"

subsection \<open>The main loop\<close>

fun print_table ::
  "shell_objs \<Rightarrow> nat \<Rightarrow> (u64 \<times> cmd option) list \<Rightarrow> 'a machine_scheme \<Rightarrow> 'a machine_scheme option" where
  "print_table E i [] s = None"
| "print_table E i ((nm, f) # tab) s =
     (if nm = NULL then Some s
      else do {
        s \<leftarrow> kprint ''  [%d] name at %p: '%s', func at %p\<newline>''
          [VA (of_nat i), VA nm, VA nm, VA (case f of None \<Rightarrow> NULL | Some c \<Rightarrow> func_at E c)] s;
        print_table E (i + 1) tab s })"

definition shell_start :: "layout \<Rightarrow> shell_objs \<Rightarrow> 'a shell_state_scheme \<Rightarrow> 'a shell_state_scheme option" where
  "shell_start L E s = do {
     s \<leftarrow> kprint ''\<newline>MeringueOS Shell\<newline>'' [] s;
     s \<leftarrow> kprint ''Type 'help' for available commands.\<newline>'' [] s;
     s \<leftarrow> init_command_table E s;
     s \<leftarrow> kprint ''Command table at %p:\<newline>'' [VA (commands_at E)] s;
     s \<leftarrow> kprint ''Debug: .rodata section address range: %p to %p\<newline>''
       [VA (rodata_start L), VA (rodata_end L)] s;
     print_table E 0 (commands s) s }"

partial_function (option) read_line ::
  "shell_objs \<Rightarrow> nat \<Rightarrow> 'a machine_scheme \<Rightarrow> (nat \<times> 'a machine_scheme) option" where
  "read_line E i s =
     (if i < MAX_CMD_LEN - 1 then do {
        (c, s) \<leftarrow> kgetc_blocking s;
        if c = 13 \<or> c = 10 then do { s \<leftarrow> kprint ''\<newline>'' [] s; Some (i, s) }
        else if c = 8 \<or> c = 127 then
          if i > 0 then do {
            s \<leftarrow> kprint (CHR 0x08 # CHR '' '' # [CHR 0x08]) [] s;
            read_line E (i - 1) s }
          else read_line E i s
        else if c \<ge> 32 \<and> c \<le> 126 then do {
          let s = s\<lparr>mem := (mem s)(cmd_buffer E + of_nat i := c)\<rparr>;
          s \<leftarrow> kprint ''%c'' [VA (ucast c)] s;
          read_line E (i + 1) s }
        else read_line E i s }
      else Some (i, s))"

fun tokens :: "shell_objs \<Rightarrow> nat \<Rightarrow> u64 \<Rightarrow> 'a lib_state_scheme \<Rightarrow> (u64 list \<times> 'a lib_state_scheme) option" where
  "tokens E 0 token s = Some ([], s)"
| "tokens E (Suc n) token s =
     (if token = NULL then Some ([], s)
      else do {
        (token', s) \<leftarrow> strtok NULL (space_at E) s;
        (argv, s) \<leftarrow> tokens E n token' s;
        Some (token # argv, s) })"

definition parse_line :: "shell_objs \<Rightarrow> 'a lib_state_scheme \<Rightarrow> (u64 list \<times> 'a lib_state_scheme) option" where
  "parse_line E s = do {
     (token, s) \<leftarrow> strtok (cmd_buffer E) (space_at E) s;
     tokens E MAX_ARGS token s }"

fun dispatch ::
  "layout \<Rightarrow> u64 list \<Rightarrow> (u64 \<times> cmd option) list \<Rightarrow> 'a kheap_state_scheme \<Rightarrow> (bool \<times> 'a kheap_state_scheme) option" where
  "dispatch L argv [] s = None"
| "dispatch L argv ((nm, f) # tab) s =
     (if nm = NULL then Some (False, s)
      else do {
        s \<leftarrow> kprint ''Comparing with command: '%s'\<newline>'' [VA nm] s;
        r \<leftarrow> strcmp (mem s) (argv ! 0) nm;
        if r = 0 then do {
          s \<leftarrow> kprint ''Match found! Executing...\<newline>'' [] s;
          s \<leftarrow> (case f of None \<Rightarrow> None | Some c \<Rightarrow> run_cmd L c argv s);
          Some (True, s) }
        else dispatch L argv tab s })"

definition execute :: "layout \<Rightarrow> u64 list \<Rightarrow> 'a shell_state_scheme \<Rightarrow> 'a shell_state_scheme option" where
  "execute L argv s = do {
     s \<leftarrow> kprint ''Command entered: '%s'\<newline>'' [VA (argv ! 0)] s;
     (found, s) \<leftarrow> dispatch L argv (commands s) s;
     if \<not> found then kprint ''Unknown command: %s\<newline>'' [VA (argv ! 0)] s else Some s }"

definition shell_round :: "layout \<Rightarrow> shell_objs \<Rightarrow> 'a shell_state_scheme \<Rightarrow> 'a shell_state_scheme option" where
  "shell_round L E s = do {
     s \<leftarrow> kprint ''> '' [] s;
     let s = s\<lparr>mem := memset (mem s) (cmd_buffer E) 0 (of_nat MAX_CMD_LEN)\<rparr>;
     (i, s) \<leftarrow> read_line E 0 s;
     let s = s\<lparr>mem := (mem s)(cmd_buffer E + of_nat i := 0)\<rparr>;
     if i = 0 then Some s
     else do {
       (argv, s) \<leftarrow> parse_line E s;
       if argv = [] then Some s else execute L argv s }}"

fun shell_rounds :: "layout \<Rightarrow> shell_objs \<Rightarrow> nat \<Rightarrow> 'a shell_state_scheme \<Rightarrow> 'a shell_state_scheme option" where
  "shell_rounds L E 0 s = Some s"
| "shell_rounds L E (Suc n) s = do { s \<leftarrow> shell_round L E s; shell_rounds L E n s }"

definition shell_loop :: "layout \<Rightarrow> shell_objs \<Rightarrow> nat \<Rightarrow> 'a shell_state_scheme \<Rightarrow> 'a shell_state_scheme option" where
  "shell_loop L E n s = do { s \<leftarrow> shell_start L E s; shell_rounds L E n s }"

end
