(* ===== verification/Strtok.thy ===== *)
theory Strtok
  imports CString
begin

text \<open>
  Tokenising with \<open>strtok\<close> and a blank as the delimiter.  \<open>words\<close> is the reference: the maximal
  runs of non-blanks.  One call finds the next word of what is left, terminates it in place
  and remembers the rest; \<open>pending\<close> is the state between two calls.
\<close>

subsection \<open>Words\<close>

abbreviation blank :: "u8 \<Rightarrow> bool" where "blank c \<equiv> c = 32"

function words :: "u8 list \<Rightarrow> u8 list list" where
  "words r = (let t = dropWhile blank r in if t = [] then []
     else takeWhile (\<lambda>c. \<not> blank c) t # words (dropWhile (\<lambda>c. \<not> blank c) t))"
  by pat_completeness auto
termination
proof (relation "measure length")
  fix r t :: "u8 list" assume t: "t = dropWhile blank r" "t \<noteq> []"
  then have "\<not> blank (hd t)" using hd_dropWhile [of blank r] by simp
  with t(2) have "length (dropWhile (\<lambda>c. \<not> blank c) t) < length t"
    by (cases t) (simp_all add: length_dropWhile_le le_imp_less_Suc)
  then show "(dropWhile (\<lambda>c. \<not> blank c) t, r) \<in> measure length"
    using t(1) length_dropWhile_le [of blank r] by simp
qed simp

declare words.simps [simp del]

lemma words_blank: "\<forall>c \<in> set r. blank c \<Longrightarrow> words r = []"
  by (subst words.simps) (simp add: dropWhile_eq_Nil_conv)

lemma dropWhile_blanks: "\<forall>c \<in> set sp. blank c \<Longrightarrow> dropWhile blank (sp @ t) = dropWhile blank t"
  by (induction sp) auto

lemma words_last:
  assumes "\<forall>c \<in> set sp. blank c" and "w \<noteq> []" and "32 \<notin> set w"
  shows "words (sp @ w) = [w]"
proof -
  have d: "dropWhile blank (sp @ w) = w" using assms by (cases w) (auto simp: dropWhile_blanks)
  have w: "takeWhile (\<lambda>c. \<not> blank c) w = w" "dropWhile (\<lambda>c. \<not> blank c) w = []"
    using assms(3) by (auto simp: takeWhile_eq_all_conv dropWhile_eq_Nil_conv)
  show ?thesis using assms(2) by (subst words.simps) (simp add: d w words_blank)
qed

lemma words_next:
  assumes "\<forall>c \<in> set sp. blank c" and "w \<noteq> []" and "32 \<notin> set w"
  shows "words (sp @ w @ 32 # r) = w # words r"
proof -
  have "dropWhile blank (sp @ w @ 32 # r) = w @ 32 # r" using assms by (cases w) (auto simp: dropWhile_blanks)
  moreover have "takeWhile (\<lambda>c. \<not> blank c) (w @ 32 # r) = w" "dropWhile (\<lambda>c. \<not> blank c) (w @ 32 # r) = 32 # r"
    using assms(3) by (induction w) auto
  ultimately have "words (sp @ w @ 32 # r) = w # words (32 # r)" by (subst words.simps) simp
  moreover have "words (32 # r) = words r" by (subst words.simps, subst (2) words.simps) simp
  ultimately show ?thesis by simp
qed

lemma words_cases:
  obtains (blank) "\<forall>c \<in> set r. blank c"
  | (last) sp w where "r = sp @ w" and "\<forall>c \<in> set sp. blank c" and "w \<noteq> []" and "32 \<notin> set w"
  | (more) sp w r' where "r = sp @ w @ 32 # r'" and "\<forall>c \<in> set sp. blank c" and "w \<noteq> []" and "32 \<notin> set w"
proof (cases "\<forall>c \<in> set r. blank c")
  case False
  define sp t where "sp = takeWhile blank r" and "t = dropWhile blank r"
  define w u where "w = takeWhile (\<lambda>c. \<not> blank c) t" and "u = dropWhile (\<lambda>c. \<not> blank c) t"
  have t: "t \<noteq> []" using False unfolding t_def by (simp add: dropWhile_eq_Nil_conv)
  then have "\<not> blank (hd t)" unfolding t_def by (rule hd_dropWhile)
  with t have w: "w \<noteq> []" by (cases t) (simp_all add: w_def)
  have r: "r = sp @ w @ u" by (simp add: sp_def t_def w_def u_def)
  have sp: "\<forall>c \<in> set sp. blank c" "32 \<notin> set w" by (auto simp: sp_def w_def dest: set_takeWhileD)
  show thesis
  proof (cases u)
    case Nil
    then show thesis using last [of sp w] r sp w by simp
  next
    case (Cons c v)
    then have "u \<noteq> []" by simp
    then have "blank (hd u)" using hd_dropWhile [of "\<lambda>c. \<not> blank c" t] by (simp add: u_def)
    then show thesis using more [of sp w v] r sp w Cons by simp
  qed
qed (rule blank)

subsection \<open>One call\<close>

lemma takeWhile_in: "\<forall>c \<in> set sp. P c \<Longrightarrow> (t = [] \<or> \<not> P (hd t)) \<Longrightarrow> takeWhile P (sp @ t) = sp"
  by (induction sp) (cases t, auto)

lemma strtok_at:
  assumes "cstr (mem s) p r" and "cstr (mem s) d [32]" and "p \<noteq> NULL"
    and "(if str = NULL then strtok_last s else str) = p"
    and "r = sp @ t" and "\<forall>c \<in> set sp. blank c" and "t = [] \<or> \<not> blank (hd t)"
  shows "strtok str d s = (let q = p + of_nat (length sp) in
     if t = [] then Some (NULL, s\<lparr>strtok_last := NULL\<rparr>)
     else if 32 \<notin> set t then Some (q, s\<lparr>strtok_last := NULL\<rparr>)
     else do {
       str \<leftarrow> Some (q + of_nat (length (takeWhile (\<lambda>c. \<not> blank c) t)));
       if str = NULL then Some (q, s\<lparr>strtok_last := NULL\<rparr>)
       else Some (q, s\<lparr>mem := (mem s)(str := 0), strtok_last := str + 1\<rparr>) })"
proof -
  have ss: "strspn (mem s) p d = Some (of_nat (length sp))"
    using takeWhile_in [of sp blank t] assms(5-7) strspn_cstr [OF assms(1,2)] by simp
  have ct: "cstr (mem s) (p + of_nat (length sp)) t" using assms(1,5) by (simp add: cstr_append)
  have sb: "strpbrk (mem s) (p + of_nat (length sp)) d = Some (if 32 \<in> set t
      then p + of_nat (length sp) + of_nat (length (takeWhile (\<lambda>c. \<not> blank c) t)) else NULL)"
    using strpbrk_cstr [OF ct assms(2)] by simp
  have t0: "mem s (p + of_nat (length sp)) = 0 \<longleftrightarrow> t = []" using ct by (cases t) auto
  show ?thesis unfolding strtok_def assms(4) using assms(3) by (simp add: ss sb t0 Let_def)
qed

subsection \<open>All words of a line\<close>

text \<open>
  What is left of the line between two calls: nothing, or the text \<open>r\<close> from the remembered
  address on.  The delimiter string stays clear of it and no address of it wraps.
\<close>

definition pending :: "u64 \<Rightarrow> u64 \<Rightarrow> u8 list \<Rightarrow> mem \<Rightarrow> bool" where
  "pending d q r m \<longleftrightarrow> cstr m d [32] \<and> (if q = NULL then r = []
     else cstr m q r \<and> unat q + length r < 2 ^ 64 \<and> span d 2 \<inter> span q (length r) = {})"

definition tok_area :: "u64 \<Rightarrow> u8 list \<Rightarrow> u64 set" where
  "tok_area q r = {x. unat q \<le> unat x \<and> unat x < unat q + length r}"

lemma tok_area_span: "unat q + length r < 2 ^ 64 \<Longrightarrow> tok_area q r = span q (length r)"
  by (auto simp: tok_area_def span_nat)

lemma unat_plus: "unat q + n < 2 ^ 64 \<Longrightarrow> unat (q + of_nat n :: u64) = unat q + n"
  by (simp add: unat_plus_if' unat_of_nat64)

definition is_token :: "u64 \<Rightarrow> u8 list \<Rightarrow> mem \<Rightarrow> u64 \<Rightarrow> u8 list \<Rightarrow> bool" where
  "is_token q r m a w \<longleftrightarrow> a \<noteq> NULL \<and> cstr m a w \<and> unat q \<le> unat a \<and> unat a + length w \<le> unat q + length r"

text \<open>Writing the terminator splits the text at a blank.\<close>

lemma cut_token:
  assumes "cstr m q (sp @ w @ 32 # r)" and "unat q + length (sp @ w @ 32 # r) < 2 ^ 64"
  defines "a \<equiv> q + of_nat (length sp)" and "e \<equiv> q + of_nat (length sp) + of_nat (length w)"
  shows "cstr (m(e := 0)) a w" and "cstr (m(e := 0)) (e + 1) r"
proof -
  have ae: "e = a + of_nat (length w)" by (simp add: a_def e_def)
  have c: "0 \<notin> set w" "bytes_at m a w" "cstr m (e + 1) r"
    using assms(1) by (simp_all add: cstr_append a_def e_def)
  have "unat (e - a) = length w" using assms(2) by (simp add: ae unat_of_nat64)
  then have "bytes_at (m(e := 0)) a w = bytes_at m a w"
    using assms(2) by (intro bytes_at_cong) (auto simp: mem_span)
  with c show "cstr (m(e := 0)) a w" by (simp add: cstr_iff ae)
  have "unat (e - (e + 1)) = 2 ^ 64 - 1" by simp
  then have "e \<notin> span (e + 1) (Suc (length r))" using assms(2) by (simp add: mem_span)
  then have "cstr (m(e := 0)) (e + 1) r = cstr m (e + 1) r"
    using assms(2) by (intro cstr_cong) auto
  with c show "cstr (m(e := 0)) (e + 1) r" by simp
qed

text \<open>One call, between two pending states.\<close>

lemma strtok_step:
  assumes p: "pending d q r (mem s)" and q: "q = NULL \<longrightarrow> str = NULL"
    and sq: "(if str = NULL then strtok_last s else str) = q"
  obtains a s' r' w where "strtok str d s = Some (a, s')"
    and "s' = s\<lparr>mem := mem s', strtok_last := strtok_last s'\<rparr>"
    and "\<forall>x. x \<notin> tok_area q r \<longrightarrow> mem s' x = mem s x"
    and "pending d (strtok_last s') r' (mem s')"
    and "tok_area (strtok_last s') r' \<subseteq> tok_area q r"
    and "words r = (if a = NULL then [] else w # words r')"
    and "a \<noteq> NULL \<Longrightarrow> is_token q r (mem s') a w \<and>
      (\<forall>x \<in> tok_area (strtok_last s') r'. unat a + length w < unat x)"
proof (cases "q = NULL")
  case True
  then have "strtok str d s = Some (NULL, s)" using q sq by (simp add: strtok_def)
  moreover have "r = []" using p True by (simp add: pending_def)
  ultimately show thesis
    using that [of NULL s "[]" "[]"] p q sq True by (simp add: words_blank tok_area_def)
next
  case False
  then have c: "cstr (mem s) q r" "cstr (mem s) d [32]" "unat q + length r < 2 ^ 64" "span d 2 \<inter> span q (length r) = {}"
    using p by (simp_all add: pending_def)
  note at = strtok_at [OF c(1,2) False sq]
  show thesis
  proof (cases r rule: words_cases)
    case blank
    then have "strtok str d s = Some (NULL, s\<lparr>strtok_last := NULL\<rparr>)" using at [of r "[]"] by simp
    then show thesis
      using that [of NULL "s\<lparr>strtok_last := NULL\<rparr>" "[]" "[]"] c(2) words_blank [OF blank]
      by (simp add: tok_area_def pending_def)
  next
    case (last sp w)
    let ?a = "q + of_nat (length sp)"
    have ua: "unat ?a = unat q + length sp" using c(3) last(1) by (intro unat_plus) simp
    then have "?a \<noteq> NULL" using False by (metis add_is_0 unat_eq_0 unat_0)
    have "\<not> blank (hd w)" using last by (cases w) auto
    then have "strtok str d s = Some (?a, s\<lparr>strtok_last := NULL\<rparr>)"
      using at [of sp w] last by (simp add: Let_def)
    moreover have "is_token q r (mem s) ?a w"
      using c(1) ua last(1) \<open>?a \<noteq> NULL\<close> by (simp add: is_token_def cstr_append)
    ultimately show thesis
      using that [of ?a "s\<lparr>strtok_last := NULL\<rparr>" "[]" w] c(2) words_last [OF last(2-4)] \<open>?a \<noteq> NULL\<close> last(1)
      by (simp add: tok_area_def pending_def words_blank)
  next
    case (more sp w r')
    let ?a = "q + of_nat (length sp)"
    let ?e = "?a + of_nat (length w)" let ?l = "?e + 1"
    have lr: "length r = length sp + length w + 1 + length r'" using more(1) by simp
    have ua: "unat ?a = unat q + length sp" using c(3) lr by (intro unat_plus) simp
    then have ue: "unat ?e = unat q + length sp + length w" using c(3) lr by (simp add: unat_plus)
    then have ul: "unat ?l = unat q + length sp + length w + 1"
      using c(3) lr unat_plus [of ?e 1] by simp
    have "0 < unat q" using False by (simp add: unat_gt_0)
    then have nz: "?a \<noteq> NULL" "?e \<noteq> NULL" "?l \<noteq> NULL" using ua ue ul by (auto simp del: of_nat_add)
    have "\<not> blank (hd w)" using more by (cases w) auto
    moreover have "takeWhile (\<lambda>c. \<not> blank c) (w @ 32 # r') = w" using more(4) by (induction w) auto
    ultimately have st: "strtok str d s = Some (?a, s\<lparr>mem := (mem s)(?e := 0), strtok_last := ?l\<rparr>)"
      using at [of sp "w @ 32 # r'"] more nz(2) by (simp add: Let_def)
    have e: "?e \<in> tok_area q r" using ue lr by (simp add: tok_area_def)
    have cut: "cstr ((mem s)(?e := 0)) ?a w" "cstr ((mem s)(?e := 0)) ?l r'"
      using cut_token [of "mem s" q sp w r'] c(1,3) more(1) by simp_all
    have "?e \<notin> span d 2" using e c(4) tok_area_span [OF c(3)] by blast
    then have "d \<noteq> ?e" by (auto simp: mem_span)
    then have "cstr ((mem s)(?e := 0)) d [32]" using c(2) by simp
    moreover have sub: "tok_area ?l r' \<subseteq> tok_area q r" using ul lr by (auto simp: tok_area_def)
    then have "span d 2 \<inter> span ?l (length r') = {}"
      using c(3,4) ul lr tok_area_span [of ?l r'] tok_area_span [of q r] by auto
    ultimately have "pending d ?l r' ((mem s)(?e := 0))"
      using cut nz ul lr c(3) by (simp add: pending_def)
    moreover have "is_token q r ((mem s)(?e := 0)) ?a w" using cut nz ua lr by (simp add: is_token_def)
    moreover have "\<forall>x \<in> tok_area ?l r'. unat ?a + length w < unat x" using ua ul by (simp add: tok_area_def)
    ultimately show thesis
      using that [OF st _ _ _ _ _, of r' w] e sub words_next [OF more(2-4)] more(1) nz(1) by auto
  qed
qed

lemma is_token_mono:
  assumes "is_token q' r' m a w" and "tok_area q' r' \<subseteq> tok_area q r" and "r' \<noteq> []" and "unat q' + length r' < 2 ^ 64"
  shows "is_token q r m a w"
proof -
  let ?e = "q' + of_nat (length r' - 1)"
  have "unat ?e = unat q' + (length r' - 1)" using assms(4) by (intro unat_plus) simp
  then have "?e \<in> tok_area q' r'" "q' \<in> tok_area q' r'" using assms(3) by (simp_all add: tok_area_def)
  then have "unat q \<le> unat q'" "unat ?e < unat q + length r" using assms(2) by (auto simp: tok_area_def)
  with \<open>unat ?e = _\<close> assms(1,3) show ?thesis by (cases r') (auto simp: is_token_def)
qed

lemma is_token_keep:
  assumes "is_token q r m a w" and "unat q + length r < 2 ^ 64"
    and "\<forall>x \<in> A. unat a + length w < unat x" and "\<forall>x. x \<notin> A \<longrightarrow> m' x = m x"
  shows "is_token q r m' a w"
proof -
  have n: "unat a + Suc (length w) \<le> 2 ^ 64" using assms(1,2) by (simp add: is_token_def)
  have "m' x = m x" if "x \<in> span a (Suc (length w))" for x
  proof -
    have "unat x \<le> unat a + length w" using that span_nat [OF n] by auto
    then have "x \<notin> A" using assms(3) by auto
    then show ?thesis using assms(4) by simp
  qed
  then have "cstr m' a w = cstr m a w" using n by (intro cstr_cong) auto
  with assms(1) show ?thesis by (simp add: is_token_def)
qed

end
