(* ===== verification/Boot.thy ===== *)
theory Boot
  imports Console Stdlib
begin

text \<open>
  The console paths of the boot code: \<open>early_debug_print\<close> and \<open>boot_debug_copy\<close> of
  \<open>src/src/boot/kernel.c\<close>, which the assembly start-up code calls before anything is set up,
  and the placeholder text interface \<open>src/src/ui/tui.c\<close>.  The early printer polls and writes the
  device registers itself, without the line-end translation of the UART driver.  The size is
  converted by repeated division in a C \<open>int\<close>; the digits are collected backwards in a
  16-byte array and then reversed in place.
\<close>

subsection \<open>The early printer\<close>

fun early_debug_print :: "u8 list \<Rightarrow> uart \<Rightarrow> uart option" where
  "early_debug_print [] u = Some u"
| "early_debug_print (c # cs) u = do {
     u \<leftarrow> tx_wait u;
     early_debug_print cs (write_reg UART_DR (ucast c) u) }"

text \<open>
  The conversion loop, on the array as a list and the index \<open>i\<close>.  A write at index 16 or
  beyond is \<open>None\<close>.
\<close>

definition put_at :: "nat \<Rightarrow> u8 \<Rightarrow> u8 list \<Rightarrow> u8 list option" where
  "put_at i c a = (if i < length a then Some (a[i := c]) else None)"

function size_digits :: "int \<Rightarrow> nat \<Rightarrow> u8 list \<Rightarrow> (nat \<times> u8 list) option" where
  "size_digits tmp i size_str =
     (if tmp > 0 then do {
        size_str \<leftarrow> put_at i (48 + of_int (tmp mod 10)) size_str;
        size_digits (tmp div 10) (i + 1) size_str }
      else Some (i, size_str))"
  by pat_completeness auto
termination
  by (relation "measure (\<lambda>(tmp, i, a). nat tmp)") auto

declare size_digits.simps [simp del]

fun reverse_loop :: "nat \<Rightarrow> nat list \<Rightarrow> u8 list \<Rightarrow> u8 list" where
  "reverse_loop i [] size_str = size_str"
| "reverse_loop i (j # js) size_str =
     (let c = size_str ! j;
          size_str = size_str[j := size_str ! (i - j - 1)];
          size_str = size_str[i - j - 1 := c]
      in reverse_loop i js size_str)"

definition size_string :: "u64 \<Rightarrow> u8 list \<Rightarrow> u8 list option" where
  "size_string sz size_str = do {
     let tmp = sint (ucast sz :: u32);
     if tmp = 0 then do {
       size_str \<leftarrow> put_at 0 48 size_str;
       put_at 1 0 size_str }
     else do {
       (i, size_str) \<leftarrow> size_digits tmp 0 size_str;
       size_str \<leftarrow> put_at i 0 size_str;
       Some (reverse_loop i [0..<i div 2] size_str) }}"

text \<open>The array is uninitialised on entry: its contents are the parameter \<open>junk\<close>.\<close>

definition boot_debug_copy ::
  "u8 list \<Rightarrow> u64 \<Rightarrow> u64 \<Rightarrow> u64 \<Rightarrow> 'a machine_scheme \<Rightarrow> 'a machine_scheme option" where
  "boot_debug_copy junk dest src sz s = do {
     u \<leftarrow> early_debug_print (bytes ''[BOOT] Copying section: '') (uart s);
     size_str \<leftarrow> size_string sz junk;
     u \<leftarrow> early_debug_print (takeWhile (\<lambda>c. c \<noteq> 0) size_str) u;
     u \<leftarrow> early_debug_print (bytes '' bytes\<newline>'') u;
     Some (s\<lparr>uart := u\<rparr>) }"

subsection \<open>The text interface\<close>

definition tui_init :: "'a machine_scheme \<Rightarrow> (int \<times> 'a machine_scheme) option" where
  "tui_init s = do {
     s \<leftarrow> kprint ''TUI: Initializing...\<newline>'' [] s;
     s \<leftarrow> kprint ''TUI: Using fallback console mode (no framebuffer)\<newline>'' [] s;
     Some (0, s) }"

fun tui_write_loop :: "u64 \<Rightarrow> nat list \<Rightarrow> 'a machine_scheme \<Rightarrow> 'a machine_scheme option" where
  "tui_write_loop data [] s = Some s"
| "tui_write_loop data (i # is) s = do {
     s \<leftarrow> kprint ''%c'' [VA (ucast (mem s (data + of_nat i)))] s;
     tui_write_loop data is s }"

definition tui_write :: "u64 \<Rightarrow> u64 \<Rightarrow> 'a machine_scheme \<Rightarrow> 'a machine_scheme option" where
  "tui_write data len s = tui_write_loop data [0..<unat len] s"

subsection \<open>What the early printer sends\<close>

definition raw :: "u8 list \<Rightarrow> (u64 \<times> u32) list" where
  "raw cs = map (\<lambda>c. (UART_DR, ucast c)) cs"

lemma early_debug_print_sends:
  "tx_drains u \<Longrightarrow> \<exists>n. early_debug_print cs u = Some (u\<lparr>fr_reads := n, writes := writes u @ raw cs\<rparr>)"
proof (induction cs arbitrary: u)
  case Nil
  have "early_debug_print [] u = Some (u\<lparr>fr_reads := fr_reads u, writes := writes u @ raw []\<rparr>)"
    by (simp add: raw_def)
  then show ?case by blast
next
  case (Cons c cs)
  obtain n where "tx_wait u = Some (u\<lparr>fr_reads := n\<rparr>)" using tx_wait_returns [OF Cons.prems] ..
  with Cons.IH [of "write_reg UART_DR (ucast c) (u\<lparr>fr_reads := n\<rparr>)"] Cons.prems show ?case
    by (auto simp: write_reg_def raw_def)
qed

lemma reverse_loop_nth:
  "2 * h \<le> i \<Longrightarrow> i \<le> length a \<Longrightarrow> x < length a \<Longrightarrow>
   length (reverse_loop i [j..<h] a) = length a \<and>
   reverse_loop i [j..<h] a ! x
     = (if (j \<le> x \<and> x < h) \<or> (i - h \<le> x \<and> x < i - j) then a ! (i - 1 - x) else a ! x)"
proof (induction "h - j" arbitrary: j a)
  case (Suc k)
  then have "j < h" and h: "2 * h \<le> i" by simp_all
  have u: "[j..<h] = j # [Suc j..<h]" using \<open>j < h\<close> by (rule upt_conv_Cons)
  let ?b = "a[j := a ! (i - j - 1), i - j - 1 := a ! j]"
  have jb: "j < i - j - 1" "i - j - 1 < length a" using \<open>j < h\<close> Suc.prems by linarith+
  have r: "length (reverse_loop i [Suc j..<h] ?b) = length ?b \<and> reverse_loop i [Suc j..<h] ?b ! x
     = (if (Suc j \<le> x \<and> x < h) \<or> (i - h \<le> x \<and> x < i - Suc j) then ?b ! (i - 1 - x) else ?b ! x)"
    using Suc.hyps(2) Suc.prems by (intro Suc.hyps(1)) simp_all
  have b: "?b ! y = (if y = j then a ! (i - j - 1) else if y = i - j - 1 then a ! j else a ! y)" for y
    using jb by (simp add: nth_list_update)
  have s: "reverse_loop i [j..<h] a = reverse_loop i [Suc j..<h] ?b" by (simp add: u Let_def)
  consider "x = j" | "x = i - j - 1" | "x \<noteq> j" "x \<noteq> i - j - 1" by blast
  then show ?case
  proof cases
    case 1
    moreover have "\<not> i - h \<le> j" using \<open>j < h\<close> h by linarith
    ultimately show ?thesis using r jb \<open>j < h\<close> unfolding s b by simp
  next
    case 2
    moreover have "\<not> i - j - 1 < h" "i - h \<le> i - Suc j" "i - Suc j < i - j"
      using \<open>j < h\<close> h by linarith+
    ultimately show ?thesis using r jb \<open>j < h\<close> unfolding s b by simp
  next
    case 3
    have "(Suc j \<le> x \<and> x < h) \<or> (i - h \<le> x \<and> x < i - Suc j)
        \<longleftrightarrow> (j \<le> x \<and> x < h) \<or> (i - h \<le> x \<and> x < i - j)" (is "_ \<longleftrightarrow> ?in") using 3 by linarith
    moreover have "i - 1 - x \<noteq> j \<and> i - 1 - x \<noteq> i - j - 1" if ?in using that 3 jb h by linarith
    ultimately show ?thesis using r 3 unfolding s b by simp
  qed
qed auto

lemma reverse_loop_eq:
  assumes "i \<le> length a"
  shows "reverse_loop i [0..<i div 2] a = rev (take i a) @ drop i a"
proof (rule nth_equalityI)
  show len: "length (reverse_loop i [0..<i div 2] a) = length (rev (take i a) @ drop i a)"
  proof (cases a)
    case (Cons c cs)
    then show ?thesis using reverse_loop_nth [of "i div 2" i a 0 0] assms by simp
  qed (use assms in simp)
  fix x assume "x < length (reverse_loop i [0..<i div 2] a)"
  with len assms have x: "x < length a" by simp
  have mid: "a ! x = a ! (i - 1 - x)" if "x < i" "\<not> x < i div 2" "\<not> i - i div 2 \<le> x"
    using that by (intro arg_cong [of _ _ "\<lambda>k. a ! k"]) linarith
  with reverse_loop_nth [OF _ assms x, of "i div 2" 0] x assms
  show "reverse_loop i [0..<i div 2] a ! x = (rev (take i a) @ drop i a) ! x"
    by (auto simp: nth_append rev_nth)
qed

lemma size_digits_spec:
  "0 < n \<Longrightarrow> length pre + length (positional 10 dec_digit n) \<le> length junk \<Longrightarrow>
   size_digits (int n) (length pre) (pre @ drop (length pre) junk) =
     (let ds = pre @ rev (positional 10 dec_digit n) in Some (length ds, ds @ drop (length ds) junk))"
proof (induction n arbitrary: pre rule: less_induct)
  case (less n)
  let ?c = "dec_digit (n mod 10)"
  have c: "48 + of_int (int n mod 10) = ?c"
    by (simp add: dec_digit_def zmod_int [symmetric, of n 10, simplified])
  have l: "length pre < length junk"
    using less.prems(2) positional_nonempty [of 10 dec_digit n] by (cases "positional 10 dec_digit n") auto
  then have put: "put_at (length pre) ?c (pre @ drop (length pre) junk)
      = Some ((pre @ [?c]) @ drop (length (pre @ [?c])) junk)"
    by (simp add: put_at_def list_update_append Cons_nth_drop_Suc [symmetric])
  have step: "size_digits (int n) (length pre) (pre @ drop (length pre) junk)
      = size_digits (int (n div 10)) (length (pre @ [?c])) ((pre @ [?c]) @ drop (length (pre @ [?c])) junk)"
    using less.prems(1) put by (subst size_digits.simps) (simp add: c zdiv_int)
  show ?case
  proof (cases "n < 10")
    case True
    then have "positional 10 dec_digit n = [?c]" by (subst positional.simps) simp
    with True step show ?thesis by (subst step, subst size_digits.simps) simp
  next
    case False
    then have p: "positional 10 dec_digit n = positional 10 dec_digit (n div 10) @ [?c]"
      by (subst positional.simps) simp
    with less.IH [of "n div 10" "pre @ [?c]"] False less.prems(2) step show ?thesis
      by (simp add: Let_def)
  qed
qed

lemma int_of_u32: "sint (w :: u32) = (if unat w < 2 ^ 31 then int (unat w) else int (unat w) - 2 ^ 32)"
proof -
  have "sint w = take_bit 32 (uint w + 2 ^ 31) - 2 ^ 31"
    by (simp add: sint_uint signed_take_bit_eq_take_bit_shift)
  then have "sint w = (int (unat w) + 2 ^ 31) mod 2 ^ 32 - 2 ^ 31" by (simp add: take_bit_eq_mod)
  moreover have "(int n + 2 ^ 31) mod 2 ^ 32 - 2 ^ 31 = (if n < 2 ^ 31 then int n else int n - 2 ^ 32)"
    if "n < 2 ^ 32" for n
  proof (cases "n < 2 ^ 31")
    case False
    with that have "(int n - 2 ^ 31) mod 2 ^ 32 = int n - 2 ^ 31" by (intro mod_pos_pos_trivial) auto
    moreover have "int n + 2 ^ 31 = (int n - 2 ^ 31) + 2 ^ 32" by simp
    ultimately have "(int n + 2 ^ 31) mod 2 ^ 32 = int n - 2 ^ 31" by (simp only: mod_add_self2)
    with False show ?thesis by simp
  qed auto
  ultimately show ?thesis using unat_u32_lt [of w] by (simp only:)
qed

lemma dec_nonzero: "0 \<notin> set (positional 10 dec_digit n)"
  using positional_value(2) [of 10 dec_digit n, OF _ digit_of_dec] by (auto simp: is_digit_eq)

lemma size_string_spec:
  assumes "length junk = 16"
  shows "\<exists>a. size_string sz junk = Some a \<and> takeWhile (\<lambda>c. c \<noteq> 0) a =
    (if unat sz mod 2 ^ 32 < 2 ^ 31 then positional 10 dec_digit (unat sz mod 2 ^ 32) else [])"
proof -
  define n where "n = unat sz mod 2 ^ 32"
  have u: "unat (ucast sz :: u32) = n" by (simp add: n_def unat_ucast_low)
  consider "n = 0" | "0 < n" "n < 2 ^ 31" | "2 ^ 31 \<le> n" by linarith
  then show ?thesis
  proof cases
    case 1
    obtain a b r where "junk = a # b # r" using assms by (cases junk rule: remdups_adj.cases) auto
    moreover have "positional 10 dec_digit 0 = [48]" by (subst positional.simps) (simp add: dec_digit_def)
    moreover have "sint (ucast sz :: u32) = 0" using u 1 by (simp add: int_of_u32)
    ultimately show ?thesis using 1 by (simp add: size_string_def put_at_def n_def)
  next
    case 2
    let ?ds = "positional 10 dec_digit n"
    have "length ?ds \<le> 10" using 2 by (intro positional_length) auto
    have "sint (ucast sz :: u32) = int n" using u 2 by (simp add: int_of_u32)
    moreover have "size_digits (int n) 0 junk = Some (length ?ds, rev ?ds @ drop (length ?ds) junk)"
      using size_digits_spec [of n "[]" junk] 2 assms \<open>length ?ds \<le> 10\<close> by (simp add: Let_def)
    moreover have "put_at (length ?ds) 0 (rev ?ds @ drop (length ?ds) junk)
        = Some (rev ?ds @ 0 # drop (Suc (length ?ds)) junk)"
      using assms \<open>length ?ds \<le> 10\<close> by (simp add: put_at_def list_update_append Cons_nth_drop_Suc [symmetric])
    ultimately have "size_string sz junk = Some (?ds @ 0 # drop (Suc (length ?ds)) junk)"
      using 2 by (simp add: size_string_def reverse_loop_eq)
    moreover have "takeWhile (\<lambda>c. c \<noteq> 0) (?ds @ 0 # r) = ?ds" for r
      using dec_nonzero [of n] by (subst takeWhile_append2) auto
    ultimately show ?thesis using 2 by (simp add: n_def)
  next
    case 3
    then have "sint (ucast sz :: u32) < 0" using u unat_u32_lt [of "ucast sz"] by (simp add: int_of_u32)
    moreover obtain a r where "junk = a # r" using assms by (cases junk) auto
    ultimately show ?thesis using 3
      by (simp add: size_string_def size_digits.simps [of "sint _"] put_at_def n_def)
  qed
qed

lemma print_char: "kprintf_buffer m ''%c'' [VA (ucast (c :: u8))] = Inr [c]"
  by (simp add: kprintf_buffer_def kp_loop.simps(2) modifiers_def kp_spec_simps buffer_defs)

lemma tui_write_loop_log:
  "tx_drains (uart s) \<Longrightarrow> \<exists>s'. tui_write_loop data is s = Some s' \<and>
     logs (filter (\<lambda>c. c \<noteq> 0) (map (\<lambda>i. mem s (data + of_nat i)) is)) s s'"
proof (induction "is" arbitrary: s)
  case (Cons i "is")
  let ?c = "mem s (data + of_nat i)"
  obtain s1 where s1: "kprint ''%c'' [VA (ucast ?c)] s = Some s1"
    "logs (takeWhile (\<lambda>c. c \<noteq> 0) [?c]) s s1"
    using kprint_logs [OF print_char Cons.prems] by blast
  obtain s2 where s2: "tui_write_loop data is s1 = Some s2"
    "logs (filter (\<lambda>c. c \<noteq> 0) (map (\<lambda>i. mem s1 (data + of_nat i)) is)) s1 s2"
    using Cons.IH [OF logsD(2) [OF s1(2)]] by blast
  from logs_trans [OF s1(2) s2(2)] s1(1) s2(1) logsD(1) [OF s1(2)] show ?case
    by (cases "?c = 0") auto
qed simp

subsection \<open>Properties\<close>

text \<open>
  (C39) The boot message names the size in decimal for every section below two gigabytes, and
  its 16-byte buffer is never overrun, whatever it held before.  The size is cut to a C
  \<open>int\<close>: only its low 32 bits count, and when bit 31 is set the number is left out.
\<close>

theorem boot_debug_copy_spec:
  assumes "tx_drains (uart s) \<and> length junk = 16"
  shows "\<exists>n. boot_debug_copy junk dest src sz s = Some (s\<lparr>uart := (uart s)\<lparr>fr_reads := n,
    writes := writes (uart s) @ raw (bytes ''[BOOT] Copying section: '' @
      (if unat sz mod 2 ^ 32 < 2 ^ 31 then positional 10 dec_digit (unat sz mod 2 ^ 32) else []) @
      bytes '' bytes\<newline>'')\<rparr>\<rparr>)"
proof -
  let ?n = "if unat sz mod 2 ^ 32 < 2 ^ 31 then positional 10 dec_digit (unat sz mod 2 ^ 32) else []"
  obtain a where a: "size_string sz junk = Some a" "takeWhile (\<lambda>c. c \<noteq> 0) a = ?n"
    using size_string_spec assms by blast
  define p q where "p = bytes ''[BOOT] Copying section: ''" and "q = bytes '' bytes\<newline>''"
  have app: "\<exists>n. (do { u \<leftarrow> early_debug_print p u; u \<leftarrow> early_debug_print t u; early_debug_print q u })
      = Some (u\<lparr>fr_reads := n, writes := writes u @ raw (p @ t @ q)\<rparr>)" if d: "tx_drains u" for u t
  proof -
    obtain k where k: "early_debug_print p u = Some (u\<lparr>fr_reads := k, writes := writes u @ raw p\<rparr>)" (is "_ = Some ?v")
      using early_debug_print_sends [OF d] by blast
    obtain l where l: "early_debug_print t ?v = Some (?v\<lparr>fr_reads := l, writes := writes ?v @ raw t\<rparr>)" (is "_ = Some ?w")
      using early_debug_print_sends [of ?v] d by auto
    obtain n where "early_debug_print q ?w = Some (?w\<lparr>fr_reads := n, writes := writes ?w @ raw q\<rparr>)"
      using early_debug_print_sends [of ?w] d by auto
    with k l show ?thesis by (auto simp: raw_def)
  qed
  obtain n where "(do { u \<leftarrow> early_debug_print p (uart s); u \<leftarrow> early_debug_print ?n u; early_debug_print q u })
      = Some ((uart s)\<lparr>fr_reads := n, writes := writes (uart s) @ raw (p @ ?n @ q)\<rparr>)"
    using app assms by blast
  then have "boot_debug_copy junk dest src sz s
      = Some (s\<lparr>uart := (uart s)\<lparr>fr_reads := n, writes := writes (uart s) @ raw (p @ ?n @ q)\<rparr>\<rparr>)"
    unfolding boot_debug_copy_def p_def [symmetric] q_def [symmetric]
    by (auto simp add: a bind_eq_Some_conv simp del: if_split)
  then show ?thesis unfolding p_def q_def by blast
qed

theorem boot_debug_copy_spec_witness:
  "\<exists>s'. boot_debug_copy (replicate 16 0) 0 0 120 \<lparr>mem = \<lambda>_. 0, uart = idle_uart\<rparr> = Some s' \<and>
     writes (uart s') = raw (bytes ''[BOOT] Copying section: 120 bytes\<newline>'')"
proof -
  have "positional 10 dec_digit 120 = bytes ''120''"
    by (simp add: positional.simps dec_digit_def)
  with boot_debug_copy_spec [of "\<lparr>mem = \<lambda>_. 0, uart = idle_uart\<rparr>" "replicate 16 0" 0 0 120]
  have "\<exists>n. boot_debug_copy (replicate 16 0) 0 0 120 \<lparr>mem = \<lambda>_. 0, uart = idle_uart\<rparr> = Some
      \<lparr>mem = \<lambda>_. 0, uart = idle_uart\<lparr>fr_reads := n, writes := writes idle_uart @
        raw (bytes ''[BOOT] Copying section: '' @ bytes ''120'' @ bytes '' bytes\<newline>'')\<rparr>\<rparr>"
    by (simp del: bytes_simps)
  then show ?thesis by (auto simp: idle_uart_def)
qed

text \<open>
  (C40) \<open>tui_write\<close> sends the bytes of the buffer in order through the console, each line feed
  followed by a carriage return, and drops NUL bytes.  It reads \<open>len\<close> bytes, changes no
  memory, and \<open>tui_init\<close> always reports success.
\<close>

theorem tui_write_spec:
  assumes "tx_drains (uart s)"
  shows "(\<exists>s'. tui_write data len s = Some s' \<and>
      logs (filter (\<lambda>c. c \<noteq> 0) (map (\<lambda>i. mem s (data + of_nat i)) [0..<unat len])) s s') \<and>
    (\<exists>s' out. tui_init s = Some (0, s') \<and> logs out s s')"
proof
  show "\<exists>s'. tui_write data len s = Some s' \<and>
      logs (filter (\<lambda>c. c \<noteq> 0) (map (\<lambda>i. mem s (data + of_nat i)) [0..<unat len])) s s'"
    using tui_write_loop_log [OF assms] by (simp add: tui_write_def)
  have v: "verbatim ''TUI: Initializing...\<newline>''" "verbatim ''TUI: Using fallback console mode (no framebuffer)\<newline>''"
    by (simp_all add: verbatim_simps)
  obtain s1 where s1: "kprint ''TUI: Initializing...\<newline>'' [] s = Some s1"
    "logs (bytes ''TUI: Initializing...\<newline>'') s s1" by (rule kprint_verbatim [OF v(1) assms])
  obtain s2 where s2: "kprint ''TUI: Using fallback console mode (no framebuffer)\<newline>'' [] s1 = Some s2"
    "logs (bytes ''TUI: Using fallback console mode (no framebuffer)\<newline>'') s1 s2"
    by (rule kprint_verbatim [OF v(2) logsD(2) [OF s1(2)]])
  from logs_trans [OF s1(2) s2(2)] s1(1) s2(1) show "\<exists>s' out. tui_init s = Some (0, s') \<and> logs out s s'"
    by (auto simp: tui_init_def simp del: bytes_simps)
qed

theorem tui_write_spec_witness:
  "\<exists>s'. tui_write 0x1000 3 \<lparr>mem = place 0x1000 [72, 0, 10], uart = idle_uart\<rparr> = Some s' \<and>
     writes (uart s') = [(UART_DR, 72), (UART_DR, 10), (UART_DR, 13)]"
proof -
  let ?s = "\<lparr>mem = place 0x1000 [72, 0, 10], uart = idle_uart\<rparr>"
  obtain s' where s': "tui_write 0x1000 3 ?s = Some s'"
    "logs (filter (\<lambda>c. c \<noteq> 0) (map (\<lambda>i. mem ?s (0x1000 + of_nat i)) [0..<unat (3 :: u64)])) ?s s'"
    using tui_write_spec [of ?s "0x1000" 3] by auto
  have "filter (\<lambda>c. c \<noteq> 0) (map (\<lambda>i. mem ?s (0x1000 + of_nat i)) [0..<unat (3 :: u64)]) = [72, 10]"
    by (simp add: place_def upt_rec)
  with logsD(3) [OF s'(2)] s'(1) show ?thesis by (simp add: idle_uart_def crlf_def)
qed

end
