(* ===== verification/Shell_Input.thy ===== *)
theory Shell_Input
  imports Shell Strtok Console Boot
begin

text \<open>
  What the shell reads.  \<open>queued u cs\<close> states the hardware's side: characters keep becoming
  available and the next ones are \<open>cs\<close>.  Under it a blocking read returns the next character,
  \<open>read_line\<close> implements the line editor \<open>edit\<close> on lists, and the tokeniser finds the words
  of the line.
\<close>

subsection \<open>Blocking reads\<close>

definition rx_arrives :: "uart \<Rightarrow> bool" where
  "rx_arrives u \<longleftrightarrow> (\<forall>t. \<exists>t' \<ge> t. fr_at u t' AND UART_FR_RXFE = 0)"

definition inp :: "uart \<Rightarrow> nat \<Rightarrow> u8" where
  "inp u k = ucast (dr_at u (dr_reads u + k))"

definition queued :: "uart \<Rightarrow> u8 list \<Rightarrow> bool" where
  "queued u cs \<longleftrightarrow> rx_arrives u \<and> 0 \<notin> set cs \<and> (\<forall>i < length cs. inp u i = cs ! i)"

lemma rx_upd [simp]:
  "rx_arrives (u\<lparr>fr_reads := n\<rparr>) = rx_arrives u" "rx_arrives (u\<lparr>dr_reads := n\<rparr>) = rx_arrives u"
  "rx_arrives (u\<lparr>writes := w\<rparr>) = rx_arrives u"
  "inp (u\<lparr>fr_reads := n\<rparr>) = inp u" "inp (u\<lparr>writes := w\<rparr>) = inp u"
  "inp (u\<lparr>dr_reads := Suc (dr_reads u)\<rparr>) k = inp u (Suc k)"
  by (simp_all add: rx_arrives_def inp_def fun_eq_iff)

lemma queued_upd [simp]:
  "queued (u\<lparr>fr_reads := n\<rparr>) cs = queued u cs" "queued (u\<lparr>writes := w\<rparr>) cs = queued u cs"
  by (simp_all add: queued_def)

lemma getc_wait_step:
  assumes "rx_arrives u"
  shows "\<exists>n. getc_wait u = (if inp u 0 = 0 then getc_wait (u\<lparr>fr_reads := n, dr_reads := Suc (dr_reads u)\<rparr>)
     else Some (inp u 0, u\<lparr>fr_reads := n, dr_reads := Suc (dr_reads u)\<rparr>))"
proof -
  obtain t where "t \<ge> fr_reads u" "fr_at u t AND UART_FR_RXFE = 0"
    using assms by (auto simp: rx_arrives_def)
  then show ?thesis
  proof (induction "t - fr_reads u" arbitrary: u)
    case 0
    then have "t = fr_reads u" by simp
    with 0 show ?case by (subst getc_wait.simps) (auto simp: uart_getc_def read_fr_def read_dr_def inp_def)
  next
    case (Suc k)
    show ?case
    proof (cases "fr_at u (fr_reads u) AND UART_FR_RXFE = 0")
      case True
      then show ?thesis by (subst getc_wait.simps) (auto simp: uart_getc_def read_fr_def read_dr_def inp_def)
    next
      case False
      let ?u = "u\<lparr>fr_reads := Suc (fr_reads u)\<rparr>"
      have "getc_wait u = getc_wait ?u"
        using False by (subst getc_wait.simps) (simp add: uart_getc_def read_fr_def)
      moreover have "\<exists>n. getc_wait ?u = (if inp ?u 0 = 0 then getc_wait (?u\<lparr>fr_reads := n, dr_reads := Suc (dr_reads ?u)\<rparr>)
          else Some (inp ?u 0, ?u\<lparr>fr_reads := n, dr_reads := Suc (dr_reads ?u)\<rparr>))"
        using Suc.hyps(2) Suc.prems by (intro Suc.hyps(1)) auto
      ultimately show ?thesis by (cases "inp u 0 = 0") auto
    qed
  qed
qed

lemma getc_wait_first:
  "rx_arrives u \<Longrightarrow> inp u k \<noteq> 0 \<Longrightarrow> (\<forall>j < k. inp u j = 0) \<Longrightarrow>
   \<exists>n. getc_wait u = Some (inp u k, u\<lparr>fr_reads := n, dr_reads := dr_reads u + Suc k\<rparr>)"
proof (induction k arbitrary: u)
  case 0
  then show ?case using getc_wait_step [of u] by auto
next
  case (Suc k)
  obtain n where n: "getc_wait u = getc_wait (u\<lparr>fr_reads := n, dr_reads := Suc (dr_reads u)\<rparr>)" (is "_ = getc_wait ?u")
    using getc_wait_step [OF Suc.prems(1)] Suc.prems(3) by auto
  have i: "inp ?u j = inp u (Suc j)" for j by (simp add: inp_def)
  have "\<exists>l. getc_wait ?u = Some (inp ?u k, ?u\<lparr>fr_reads := l, dr_reads := dr_reads ?u + Suc k\<rparr>)"
    using Suc.prems by (intro Suc.IH) (auto simp: i)
  with n i show ?case by auto
qed

lemma kgetc_queued:
  assumes "queued (uart s) (c # cs)"
  obtains u where "kgetc_blocking s = Some (if c = 13 then 10 else c, s\<lparr>uart := u\<rparr>)"
    and "queued u cs" and "tx_drains u = tx_drains (uart s)" and "writes u = writes (uart s)"
proof -
  have q: "rx_arrives (uart s)" "inp (uart s) 0 = c" "c \<noteq> 0" "0 \<notin> set cs" "\<forall>i < length cs. inp (uart s) (Suc i) = cs ! i"
    using assms by (auto simp: queued_def)
  obtain n where n: "getc_wait (uart s) = Some (c, (uart s)\<lparr>fr_reads := n, dr_reads := dr_reads (uart s) + Suc 0\<rparr>)"
    using getc_wait_first [of "uart s" 0] q by auto
  let ?u = "(uart s)\<lparr>fr_reads := n, dr_reads := dr_reads (uart s) + Suc 0\<rparr>"
  have "inp ?u i = inp (uart s) (Suc i)" for i by (simp add: inp_def)
  then have "queued ?u cs" using q by (simp add: queued_def)
  with n that [of ?u] show thesis by (simp add: kgetc_blocking_def)
qed

text \<open>A UART that is always ready and delivers the given keys, then silence.\<close>

definition typing :: "u8 list \<Rightarrow> uart" where
  "typing keys = \<lparr>fr_at = (\<lambda>_. 0), fr_reads = 0, dr_at = (\<lambda>t. if t < length keys then ucast (keys ! t) else 0),
     dr_reads = 0, writes = []\<rparr>"

lemma typing_queued: "0 \<notin> set keys \<Longrightarrow> queued (typing keys) keys" and typing_tx: "tx_drains (typing keys)"
  by (auto simp: typing_def queued_def rx_arrives_def inp_def tx_drains_def)

subsection \<open>The line editor\<close>

definition printable :: "u8 \<Rightarrow> bool" where
  "printable c \<longleftrightarrow> 32 \<le> c \<and> c \<le> 126"

fun edit :: "u8 list \<Rightarrow> u8 list \<Rightarrow> (u8 list \<times> u8 list) option" where
  "edit line [] = (if length line \<ge> 127 then Some (line, []) else None)"
| "edit line (c # cs) =
     (if length line \<ge> 127 then Some (line, c # cs)
      else if c = 13 \<or> c = 10 then Some (line, cs)
      else if c = 8 \<or> c = 127 then edit (butlast line) cs
      else if printable c then edit (line @ [c]) cs
      else edit line cs)"

lemma edit_props:
  "edit line cs = Some (line', rest) \<Longrightarrow> length line \<le> 127 \<Longrightarrow> list_all printable line \<Longrightarrow>
   length line' \<le> 127 \<and> list_all printable line'"
proof (induction cs arbitrary: line)
  case (Cons c cs)
  have "list_all printable (butlast line)" using Cons.prems(3) by (auto simp: list_all_iff dest: in_set_butlastD)
  with Cons.IH [of "butlast line"] Cons.IH [of "line @ [c]"] Cons.IH [of line] Cons.prems show ?case
    by (simp split: if_splits)
qed (simp split: if_splits)

text \<open>What the terminal sees for a key: the character, a rubout, or nothing.\<close>

lemma keys_fit:
  "verbatim ''> ''" "verbatim ''\<newline>''" "verbatim (CHR 0x08 # CHR '' '' # [CHR 0x08])"
  by (simp_all add: verbatim_simps)

lemma kprint_char:
  assumes "tx_drains (uart s)"
  obtains s' where "kprint ''%c'' [VA (ucast (c :: u8))] s = Some s'"
    and "logs (takeWhile (\<lambda>c. c \<noteq> 0) [c]) s s'"
  using kprint_logs [OF print_char assms] that by blast

lemma logs_queued: "logs out s s' \<Longrightarrow> queued (uart s') cs = queued (uart s) cs"
  by (auto simp: logs_def)

text \<open>A state that differs from another in memory within \<open>A\<close> and in the UART only.\<close>

definition io_only :: "u64 set \<Rightarrow> 'a machine_scheme \<Rightarrow> 'a machine_scheme \<Rightarrow> bool" where
  "io_only A s s' \<longleftrightarrow> s' = s\<lparr>mem := mem s', uart := uart s'\<rparr> \<and> (\<forall>x. x \<notin> A \<longrightarrow> mem s' x = mem s x)"

lemma io_only_refl [simp]: "io_only A s s"
  by (simp add: io_only_def)

lemma io_only_trans: "io_only A s t \<Longrightarrow> io_only A t u \<Longrightarrow> io_only A s u"
  by (cases s, cases t, cases u) (simp add: io_only_def)

lemma io_only_mono: "io_only A s t \<Longrightarrow> A \<subseteq> B \<Longrightarrow> io_only B s t"
  by (auto simp: io_only_def)

lemma logs_io: "logs out s s' \<Longrightarrow> io_only A s s'"
  by (auto simp: logs_def io_only_def)

lemma io_only_uart [simp]: "io_only A s (s\<lparr>uart := u\<rparr>)"
  by (simp add: io_only_def)

lemma bytes_at_butlast: "bytes_at m p line \<Longrightarrow> bytes_at m p (butlast line)"
  by (simp add: bytes_at_nth nth_butlast)

lemma bytes_at_snoc:
  assumes "bytes_at m p line" and "length line < 128"
  shows "bytes_at (m(p + of_nat (length line) := c)) p (line @ [c])"
proof -
  have "of_nat i \<noteq> (of_nat (length line) :: u64)" if "i < length line" for i
    using that assms(2) by (simp add: word_unat_eq_iff unat_of_nat64)
  with assms(1) show ?thesis by (auto simp: bytes_at_nth nth_append less_Suc_eq)
qed

lemma edit_step:
  assumes "queued (uart s) (c # cs)" and "tx_drains (uart s)" and "length line < 127"
    and "c \<noteq> 13" "c \<noteq> 10" and "bytes_at (mem s) (cmd_buffer E) line"
  defines "line' \<equiv> (if c = 8 \<or> c = 127 then butlast line else if printable c then line @ [c] else line)"
  obtains s' where "read_line E (length line) s = read_line E (length line') s'"
    and "queued (uart s') cs" and "tx_drains (uart s')" and "bytes_at (mem s') (cmd_buffer E) line'"
    and "io_only (span (cmd_buffer E) 127) s s'"
proof -
  obtain u where u: "kgetc_blocking s = Some (c, s\<lparr>uart := u\<rparr>)" "queued u cs" "tx_drains u"
    by (rule kgetc_queued [OF assms(1)]) (use assms(2,4) in auto)
  let ?s = "s\<lparr>uart := u\<rparr>"
  have step: "read_line E (length line) s =
      (if c = 8 \<or> c = 127 then
         if line \<noteq> [] then do {
           s \<leftarrow> kprint (CHR 0x08 # CHR '' '' # [CHR 0x08]) [] ?s;
           read_line E (length line - 1) s }
         else read_line E (length line) ?s
       else if printable c then do {
         s \<leftarrow> kprint ''%c'' [VA (ucast c)] (?s\<lparr>mem := (mem ?s)(cmd_buffer E + of_nat (length line) := c)\<rparr>);
         read_line E (length line + 1) s }
       else read_line E (length line) ?s)"
    using assms(3-5) by (subst read_line.simps) (simp add: MAX_CMD_LEN_def u(1) printable_def)
  have d: "tx_drains (uart ?s)" "queued (uart ?s) cs" "bytes_at (mem ?s) (cmd_buffer E) line"
    "io_only (span (cmd_buffer E) 127) s ?s"
    using u assms(6) by simp_all
  consider "c = 8 \<or> c = 127" "line \<noteq> []" | "c \<noteq> 8" "c \<noteq> 127" "printable c"
    | "c \<noteq> 8" "c \<noteq> 127" "\<not> printable c" | "c = 8 \<or> c = 127" "line = []" by blast
  then show thesis
  proof cases
    case 1
    obtain s1 where s1: "kprint (CHR 0x08 # CHR '' '' # [CHR 0x08]) [] ?s = Some s1"
      "logs (bytes (CHR 0x08 # CHR '' '' # [CHR 0x08])) ?s s1"
      by (rule kprint_verbatim [OF keys_fit(3) d(1)])
    show thesis
    proof (rule that [of s1])
      show "read_line E (length line) s = read_line E (length line') s1"
        using 1 step s1(1) by (auto simp: line'_def)
      show "queued (uart s1) cs" using logs_queued [OF s1(2)] d(2) by simp
      show "bytes_at (mem s1) (cmd_buffer E) line'"
        using 1 bytes_at_butlast [OF d(3)] logsD(1) [OF s1(2)] by (simp add: line'_def)
    qed (use logsD(2) [OF s1(2)] io_only_trans [OF d(4) logs_io [OF s1(2)]] in simp_all)
  next
    case 2
    let ?a = "cmd_buffer E + of_nat (length line)"
    let ?t = "?s\<lparr>mem := (mem ?s)(?a := c)\<rparr>"
    have dt: "tx_drains (uart ?t)" "queued (uart ?t) cs" using d by simp_all
    obtain s1 where s1: "kprint ''%c'' [VA (ucast c)] ?t = Some s1" "logs (takeWhile (\<lambda>c. c \<noteq> 0) [c]) ?t s1"
      by (rule kprint_char [OF dt(1)])
    have "?a \<in> span (cmd_buffer E) 127" using assms(3) by (simp add: mem_span unat_of_nat64)
    then have io: "io_only (span (cmd_buffer E) 127) s ?t" by (auto simp: io_only_def)
    show thesis
    proof (rule that [of s1])
      show "read_line E (length line) s = read_line E (length line') s1"
        using 2 step s1(1) by (simp add: line'_def)
      show "queued (uart s1) cs" using logs_queued [OF s1(2)] dt(2) by simp
      show "bytes_at (mem s1) (cmd_buffer E) line'"
        using 2 bytes_at_snoc [OF d(3)] assms(3) logsD(1) [OF s1(2)] by (simp add: line'_def)
    qed (use logsD(2) [OF s1(2)] io_only_trans [OF io logs_io [OF s1(2)]] in simp_all)
  qed (use that [of ?s] step d in \<open>auto simp: line'_def\<close>)
qed

lemma read_line_edit:
  "edit line cs = Some (line', rest) \<Longrightarrow> queued (uart s) cs \<Longrightarrow> tx_drains (uart s) \<Longrightarrow> length line \<le> 127 \<Longrightarrow>
   bytes_at (mem s) (cmd_buffer E) line \<Longrightarrow>
   \<exists>s'. read_line E (length line) s = Some (length line', s') \<and> bytes_at (mem s') (cmd_buffer E) line' \<and>
     queued (uart s') rest \<and> tx_drains (uart s') \<and> io_only (span (cmd_buffer E) 127) s s'"
proof (induction cs arbitrary: line s)
  case Nil
  then show ?case by (subst read_line.simps) (auto simp: MAX_CMD_LEN_def split: if_splits)
next
  case (Cons c cs)
  consider "\<not> length line < 127" | "length line < 127" "c = 13 \<or> c = 10" | "length line < 127" "c \<noteq> 13" "c \<noteq> 10" by blast
  then show ?case
  proof cases
    case 1
    with Cons.prems show ?thesis by (subst read_line.simps) (auto simp: MAX_CMD_LEN_def)
  next
    case 2
    obtain u where u: "kgetc_blocking s = Some (10, s\<lparr>uart := u\<rparr>)" "queued u cs" "tx_drains u"
      by (rule kgetc_queued [OF Cons.prems(2)]) (use Cons.prems(3) 2 in auto)
    then have d: "tx_drains (uart (s\<lparr>uart := u\<rparr>))" by simp
    obtain s1 where s1: "kprint ''\<newline>'' [] (s\<lparr>uart := u\<rparr>) = Some s1" "logs (bytes ''\<newline>'') (s\<lparr>uart := u\<rparr>) s1"
      by (rule kprint_verbatim [OF keys_fit(2) d])
    have "read_line E (length line) s = Some (length line, s1)"
      using 2 s1(1) by (subst read_line.simps) (simp add: MAX_CMD_LEN_def u(1))
    moreover have "line' = line" "rest = cs" using 2 Cons.prems(1) by auto
    moreover have "io_only (span (cmd_buffer E) 127) s s1"
      using io_only_trans [OF io_only_uart logs_io [OF s1(2)]] .
    ultimately show ?thesis
      using u logsD(1,2) [OF s1(2)] logs_queued [OF s1(2), of cs] Cons.prems(5) by simp
  next
    case 3
    let ?l = "if c = 8 \<or> c = 127 then butlast line else if printable c then line @ [c] else line"
    obtain s1 where s1: "read_line E (length line) s = read_line E (length ?l) s1" "queued (uart s1) cs"
      "tx_drains (uart s1)" "bytes_at (mem s1) (cmd_buffer E) ?l" "io_only (span (cmd_buffer E) 127) s s1"
      by (rule edit_step [OF Cons.prems(2,3) 3 Cons.prems(5)])
    have "edit ?l cs = Some (line', rest)" "length ?l \<le> 127" using 3 Cons.prems(1) by auto
    from Cons.IH [OF this(1) s1(2,3) this(2) s1(4)] s1(1) io_only_trans [OF s1(5)] show ?thesis by auto
  qed
qed

subsection \<open>The words of the line\<close>

text \<open>The calls of the shell: \<open>argv\<close> are the addresses of the first words, in order.\<close>

lemma tokens_words:
  "pending (space_at E) q r (mem s) \<Longrightarrow> (q = NULL \<longrightarrow> str = NULL) \<Longrightarrow>
   (if str = NULL then strtok_last s else str) = q \<Longrightarrow>
   \<exists>argv s'. do { (token, s) \<leftarrow> strtok str (space_at E) s; tokens E n token s } = Some (argv, s') \<and>
     s' = s\<lparr>mem := mem s', strtok_last := strtok_last s'\<rparr> \<and> (\<forall>x. x \<notin> tok_area q r \<longrightarrow> mem s' x = mem s x) \<and>
     list_all2 (is_token q r (mem s')) argv (take n (words r))"
proof (induction n arbitrary: s str q r)
  case 0
  obtain a s1 r' w where "strtok str (space_at E) s = Some (a, s1)"
    "s1 = s\<lparr>mem := mem s1, strtok_last := strtok_last s1\<rparr>" "\<forall>x. x \<notin> tok_area q r \<longrightarrow> mem s1 x = mem s x"
    by (rule strtok_step [OF 0])
  then show ?case by simp
next
  case (Suc n)
  obtain a s1 r' w where a: "strtok str (space_at E) s = Some (a, s1)"
    "s1 = s\<lparr>mem := mem s1, strtok_last := strtok_last s1\<rparr>" "\<forall>x. x \<notin> tok_area q r \<longrightarrow> mem s1 x = mem s x"
    "pending (space_at E) (strtok_last s1) r' (mem s1)" "tok_area (strtok_last s1) r' \<subseteq> tok_area q r"
    "words r = (if a = NULL then [] else w # words r')"
    "a \<noteq> NULL \<longrightarrow> is_token q r (mem s1) a w \<and> (\<forall>x \<in> tok_area (strtok_last s1) r'. unat a + length w < unat x)"
    by (rule strtok_step [OF Suc.prems]) blast
  show ?case
  proof (cases "a = NULL")
    case True
    with a show ?thesis by simp
  next
    case False
    have w64: "unat q + length r < 2 ^ 64"
      using Suc.prems(1) a(6) False by (auto simp: pending_def words_blank split: if_splits)
    obtain argv s2 where s2: "do { (token, s) \<leftarrow> strtok NULL (space_at E) s1; tokens E n token s } = Some (argv, s2)"
      "s2 = s1\<lparr>mem := mem s2, strtok_last := strtok_last s2\<rparr>"
      "\<forall>x. x \<notin> tok_area (strtok_last s1) r' \<longrightarrow> mem s2 x = mem s1 x"
      "list_all2 (is_token (strtok_last s1) r' (mem s2)) argv (take n (words r'))"
      using Suc.IH [OF a(4), of NULL] by auto
    have "tokens E (Suc n) a s1 = Some (a # argv, s2)" using False s2(1) by (auto simp: bind_eq_Some_conv split: prod.splits)
    then have "do { (token, s) \<leftarrow> strtok str (space_at E) s; tokens E (Suc n) token s } = Some (a # argv, s2)"
      using a(1) by simp
    moreover have "s2 = s\<lparr>mem := mem s2, strtok_last := strtok_last s2\<rparr>" using a(2) s2(2)
      by (cases s, cases s1, cases s2) simp
    moreover have "\<forall>x. x \<notin> tok_area q r \<longrightarrow> mem s2 x = mem s x" using a(3,5) s2(3) by (metis subsetD)
    moreover have "is_token q r (mem s2) a w"
      using is_token_keep [OF _ w64 _ s2(3)] a(7) False by blast
    moreover have "list_all2 (is_token q r (mem s2)) argv (take n (words r'))"
    proof (cases "r' = []")
      case True
      with s2(4) show ?thesis by (simp add: words_blank)
    next
      case r': False
      then have "unat (strtok_last s1) + length r' < 2 ^ 64" using a(4) by (auto simp: pending_def split: if_splits)
      then show ?thesis by (intro list_all2_mono [OF s2(4)] is_token_mono [OF _ a(5) r'])
    qed
    ultimately show ?thesis using a(6) False by auto
  qed
qed

lemma parse_line_words:
  assumes "cstr (mem s) (cmd_buffer E) line" and "cstr (mem s) (space_at E) [32]" and "cmd_buffer E \<noteq> NULL"
    and "unat (cmd_buffer E) + 128 \<le> 2 ^ 64" and "length line < 128"
    and "span (space_at E) 2 \<inter> span (cmd_buffer E) 128 = {}"
  obtains argv s' where "parse_line E s = Some (argv, s')"
    and "s' = s\<lparr>mem := mem s', strtok_last := strtok_last s'\<rparr>"
    and "\<forall>x. x \<notin> span (cmd_buffer E) 128 \<longrightarrow> mem s' x = mem s x"
    and "list_all2 (\<lambda>a w. a \<noteq> NULL \<and> cstr (mem s') a w \<and> length w < 128) argv (take 10 (words line))"
proof -
  let ?q = "cmd_buffer E"
  have sub: "span ?q (length line) \<subseteq> span ?q 128" using assms(5) by (auto simp: mem_span)
  have ta: "tok_area ?q line = span ?q (length line)" using assms(4,5) by (intro tok_area_span) simp
  have "pending (space_at E) ?q line (mem s)"
    using assms sub by (auto simp: pending_def)
  then obtain argv s' where s': "do { (token, s) \<leftarrow> strtok ?q (space_at E) s; tokens E 10 token s } = Some (argv, s')"
    "s' = s\<lparr>mem := mem s', strtok_last := strtok_last s'\<rparr>" "\<forall>x. x \<notin> tok_area ?q line \<longrightarrow> mem s' x = mem s x"
    "list_all2 (is_token ?q line (mem s')) argv (take 10 (words line))"
    using tokens_words [of E ?q line s ?q 10] assms(3) by auto
  show thesis
  proof (rule that)
    show "parse_line E s = Some (argv, s')" using s'(1) by (simp add: parse_line_def MAX_ARGS_def)
    show "s' = s\<lparr>mem := mem s', strtok_last := strtok_last s'\<rparr>" by (rule s'(2))
    show "\<forall>x. x \<notin> span ?q 128 \<longrightarrow> mem s' x = mem s x" using s'(3) sub ta by blast
    show "list_all2 (\<lambda>a w. a \<noteq> NULL \<and> cstr (mem s') a w \<and> length w < 128) argv (take 10 (words line))"
      using s'(4) by (rule list_all2_mono) (use assms(5) in \<open>simp add: is_token_def\<close>)
  qed
qed

subsection \<open>Properties\<close>

text \<open>A buffer and a delimiter for concrete lines.\<close>

definition line_objs :: shell_objs where
  "line_objs = \<lparr>cmd_buffer = 0x1000, commands_at = 0, name_at = (\<lambda>_. 0), func_at = (\<lambda>_. 0), space_at = 0x2000\<rparr>"

text \<open>
  (C23) A blocking read returns: as long as characters keep arriving, \<open>kgetc_blocking\<close>
  delivers the first character that is not NUL, with a carriage return read as a newline.
  It consumes the characters up to that one and sends nothing.
\<close>

theorem kgetc_blocking_returns:
  assumes "rx_arrives (uart s)" and "inp (uart s) k \<noteq> 0" and "\<forall>j < k. inp (uart s) j = 0"
  shows "\<exists>n. kgetc_blocking s = Some (if inp (uart s) k = 13 then 10 else inp (uart s) k,
    s\<lparr>uart := (uart s)\<lparr>fr_reads := n, dr_reads := dr_reads (uart s) + Suc k\<rparr>\<rparr>)"
  using getc_wait_first [OF assms] by (auto simp: kgetc_blocking_def)

theorem kgetc_blocking_returns_witness:
  "\<exists>s'. kgetc_blocking \<lparr>mem = (\<lambda>_. 0), uart = typing [0, 0, 13]\<rparr> = Some (10, s')"
proof -
  let ?s = "\<lparr>mem = (\<lambda>_. 0), uart = typing [0, 0, 13]\<rparr>"
  have i: "inp (uart ?s) 0 = 0" "inp (uart ?s) (Suc 0) = 0" "inp (uart ?s) (Suc (Suc 0)) = 13"
    by (simp_all add: inp_def typing_def)
  have "rx_arrives (uart ?s)" by (auto simp: rx_arrives_def typing_def)
  moreover have "inp (uart ?s) (Suc (Suc 0)) \<noteq> 0" unfolding i by simp
  moreover have "\<forall>j < Suc (Suc 0). inp (uart ?s) j = 0" using i(1,2) by (simp only: less_Suc_eq) auto
  ultimately show ?thesis using kgetc_blocking_returns [of ?s "Suc (Suc 0)"] unfolding i by auto
qed

text \<open>
  (C15) The line reader implements the line editor: whenever the queued keys make up a line
  under \<open>edit\<close>, \<open>read_line\<close> returns, the line is in the buffer, the keys after it are still
  queued, and no byte outside the first 127 of the buffer has changed.
\<close>

theorem read_line_spec:
  assumes "edit [] keys = Some (line, rest)" and "queued (uart s) keys" and "tx_drains (uart s)"
  shows "\<exists>s'. read_line E 0 s = Some (length line, s') \<and> bytes_at (mem s') (cmd_buffer E) line \<and>
    length line \<le> 127 \<and> list_all printable line \<and> queued (uart s') rest \<and>
    (\<forall>x. x \<notin> span (cmd_buffer E) 127 \<longrightarrow> mem s' x = mem s x)"
  using read_line_edit [OF assms, of E] edit_props [OF assms(1)] by (auto simp: io_only_def)

theorem read_line_spec_witness:
  "\<exists>s'. read_line line_objs 0
      \<lparr>mem = (\<lambda>_. 0), uart = typing (bytes ''hx'' @ [127, 7] @ bytes ''i'' @ [13])\<rparr> = Some (2, s') \<and>
    mem s' 0x1000 = 104 \<and> mem s' 0x1001 = 105"
proof -
  let ?k = "bytes ''hx'' @ [127, 7] @ bytes ''i'' @ [13]"
  have e: "edit [] ?k = Some (bytes ''hi'', [])" by (simp add: printable_def)
  have q: "queued (typing ?k) ?k" by (rule typing_queued) simp
  show ?thesis
    using read_line_spec [OF e, of "\<lparr>mem = (\<lambda>_. 0), uart = typing ?k\<rparr>"
      line_objs] q typing_tx [of ?k]
    by (auto simp: line_objs_def)
qed

text \<open>
  (C16) Tokenising in place agrees with splitting the line into its words: \<open>parse_line\<close>
  returns, its arguments are the first ten maximal runs of non-blanks in order, each a
  terminated string, and only the line buffer has been written.
\<close>

theorem parse_line_spec:
  assumes "cstr (mem s) (cmd_buffer E) line" and "length line < 128" and "cstr (mem s) (space_at E) [32]"
    and "cmd_buffer E \<noteq> NULL" and "unat (cmd_buffer E) + 128 \<le> 2 ^ 64"
    and "span (space_at E) 2 \<inter> span (cmd_buffer E) 128 = {}"
  shows "\<exists>argv s'. parse_line E s = Some (argv, s') \<and>
    list_all2 (cstr (mem s')) argv (take 10 (words line)) \<and> NULL \<notin> set argv \<and>
    (\<forall>x. x \<notin> span (cmd_buffer E) 128 \<longrightarrow> mem s' x = mem s x)"
proof -
  obtain argv s' where p: "parse_line E s = Some (argv, s')" "\<forall>x. x \<notin> span (cmd_buffer E) 128 \<longrightarrow> mem s' x = mem s x"
    "list_all2 (\<lambda>a w. a \<noteq> NULL \<and> cstr (mem s') a w \<and> length w < 128) argv (take 10 (words line))"
    by (rule parse_line_words [OF assms(1,3-5,2,6)])
  have "list_all2 (cstr (mem s')) argv (take 10 (words line))" using p(3) by (rule list_all2_mono) simp
  moreover have "NULL \<notin> set argv" using p(3) by (auto simp: list_all2_conv_all_nth in_set_conv_nth)
  ultimately show ?thesis using p(1,2) by blast
qed

theorem parse_line_spec_witness:
  "\<exists>a b s'. parse_line line_objs \<lparr>mem = (place 0x1000 (bytes ''  peek 0''))(0x2000 := 32), uart = idle_uart, strtok_last = 0\<rparr>
      = Some ([a, b], s') \<and> cstr (mem s') a (bytes ''peek'') \<and> cstr (mem s') b (bytes ''0'')"
proof -
  let ?m = "(place 0x1000 (bytes ''  peek 0''))(0x2000 := 32)" and ?l = "bytes ''  peek 0''"
  let ?s = "\<lparr>mem = ?m, uart = idle_uart, strtok_last = 0\<rparr>"
  have "words (bytes ''0'') = [bytes ''0'']" using words_last [of "[]" "bytes ''0''"] by simp
  then have w: "words ?l = [bytes ''peek'', bytes ''0'']"
    using words_next [of "bytes ''  ''" "bytes ''peek''" "bytes ''0''"] by simp
  have a: "apart 0x2000 2 0x1000 128" by (simp add: apart_def)
  have "\<exists>argv s'. parse_line line_objs ?s = Some (argv, s') \<and>
      list_all2 (cstr (mem s')) argv (take 10 (words ?l)) \<and> NULL \<notin> set argv \<and>
      (\<forall>x. x \<notin> span (cmd_buffer line_objs) 128 \<longrightarrow> mem s' x = mem ?s x)"
    by (rule parse_line_spec) (use apart_disjoint [OF a] in \<open>simp_all add: line_objs_def place_def\<close>)
  then show ?thesis unfolding w by (auto simp: list_all2_Cons2)
qed

end
