(* ===== verification/Shell_Cmds.thy ===== *)
theory Shell_Cmds
  imports Shell_Input
begin

text \<open>
  What the commands of the shell do.  \<open>quiet r s\<close> says that an operation returned and did
  nothing but print.  \<open>arg m a w\<close> is what the tokeniser guarantees for a word; \<open>number\<close> is the
  value of a word the number parser accepts as a whole.
\<close>

subsection \<open>Operations that only print\<close>

definition quiet :: "'a machine_scheme option \<Rightarrow> 'a machine_scheme \<Rightarrow> bool" where
  "quiet r s \<longleftrightarrow> (\<exists>s' out. r = Some s' \<and> logs out s s')"

lemma quiet_Some [simp]: "tx_drains (uart s) \<Longrightarrow> quiet (Some s) s"
  using logs_refl [of s] unfolding quiet_def by blast

lemma quiet_kprint: "fits f args \<Longrightarrow> tx_drains (uart s) \<Longrightarrow> quiet (kprint f args s) s"
  by (rule kprint_fits_logs) (auto simp: quiet_def)

lemma quiet_bind:
  assumes "quiet r s" and "\<And>s' out. logs out s s' \<Longrightarrow> quiet (f s') s'"
  shows "quiet (r \<bind> f) s"
  using assms logs_trans unfolding quiet_def by (metis bind.bind_lunit)

lemma quietE:
  assumes "quiet r s"
  obtains s' out where "r = Some s'" and "logs out s s'"
  using assms by (auto simp: quiet_def)

definition arg :: "mem \<Rightarrow> u64 \<Rightarrow> u8 list \<Rightarrow> bool" where
  "arg m a w \<longleftrightarrow> a \<noteq> NULL \<and> cstr m a w \<and> length w < 128"

lemma quiet_arg:
  assumes "arg (mem s) a w" and "fits f [VStr w]" and "tx_drains (uart s)"
  shows "quiet (kprint f [VA a] s) s"
proof -
  have "list_all2 (denotes (mem s)) [VA a] [VStr w]" using assms(1) by (simp add: denotes_def arg_def)
  then show ?thesis using assms(2,3) by (rule kprint_denotes) (auto simp: quiet_def)
qed

lemma arg_fits:
  assumes "length w < 128"
  shows "fits ''Error: Invalid address format '%s'\<newline>'' [VStr w]"
    "fits ''Error: Invalid length format '%s'\<newline>'' [VStr w]"
    "fits ''Error: Invalid size format '%s'\<newline>'' [VStr w]"
    "fits ''Error: Invalid value format '%s'\<newline>'' [VStr w]"
    "fits ''Error: Invalid size '%s'\<newline>'' [VStr w]"
    "fits ''Command entered: '%s'\<newline>'' [VStr w]"
    "fits ''Unknown command: %s\<newline>'' [VStr w]"
    "fits ''Comparing with command: '%s'\<newline>'' [VStr w]"
  using assms by (simp_all add: fits_def modifiers_def)

lemma cmd_fits:
  "fits ''Usage: memdump <address> [length]\<newline>'' []"
  "fits ''Error: Address range 0x%llx - 0x%llx is not within valid RAM.\<newline>'' [VA a, VA b]"
  "fits ''Memory dump from 0x%llx (length %zu):\<newline>'' [VA a, VA b]"
  "fits ''%016llx: '' [VA a]" "fits ''%02x '' [VA a]" "fits ''   '' []" "fits '' '' []" "fits '' |'' []"
  "fits ''%c'' [VA a]" "fits ''|\<newline>'' []"
  "fits ''Usage: peek <address> [size: b/h/w/d (default: d)]\<newline>'' []"
  "fits ''Error: Invalid size '%c'. Use b, h, w, or d.\<newline>'' [VA a]"
  "fits ''Error: Address 0x%llx is not within valid RAM for size %zu.\<newline>'' [VA a, VA b]"
  "fits ''Warning: Address 0x%llx is not aligned for size %zu.\<newline>'' [VA a, VA b]"
  "fits ''Peek at 0x%llx (size %zu): '' [VA a, VA b]"
  "fits ''Usage: poke <address> <value> [size: b/h/w/d (default: d)]\<newline>'' []"
  "fits ''Poke at 0x%llx (size %zu) with value 0x%llx\<newline>'' [VA a, VA b, VA c]"
  "fits ''Usage: alloc <size>\<newline>'' []" "fits ''Allocated %zu bytes at 0x%p\<newline>'' [VA a, VA b]"
  "fits ''Allocation failed!\<newline>'' []" "fits ''Usage: free <address>\<newline>'' []"
  "fits ''Freeing memory at 0x%p\<newline>'' [VA a]" "fits ''Match found! Executing...\<newline>'' []"
  "fits (peek_format n) [VA a]"
  by (simp_all add: fits_def modifiers_def peek_format_def)

lemma info_fits:
  "fits ''Available commands:\<newline>'' []"
  "fits ''  help          - Display this help message\<newline>'' []"
  "fits ''  memdump <addr> [len] - Dump memory contents (default len=256)\<newline>'' []"
  "fits ''  peek <addr> [sz] - Read value from memory (sz=b/h/w/d, default=d)\<newline>'' []"
  "fits ''  poke <addr> <val> [sz] - Write value to memory (sz=b/h/w/d, default=d)\<newline>'' []"
  "fits ''  alloc <size>  - Allocate memory of given size\<newline>'' []"
  "fits ''  free <addr>   - Free previously allocated memory\<newline>'' []"
  "fits ''  pmm_info      - Display Physical Memory Manager info\<newline>'' []"
  "fits ''Physical Memory Manager Info:\<newline>'' []"
  "fits ''  Total Usable Memory: %llu KB\<newline>'' [VA a]"
  "fits ''  Free Memory:         %llu KB\<newline>'' [VA a]"
  "fits ''  Highest Usable Addr: 0x%llx\<newline>'' [VA a]"
  by (simp_all add: fits_def modifiers_def)

lemma logs_tx: "logs out s s' \<Longrightarrow> tx_drains (uart s')"
  by (rule logsD)

lemmas quiet_intros = quiet_bind quiet_kprint

lemma cmd_help_quiet: "tx_drains (uart s) \<Longrightarrow> quiet (cmd_help s) s"
  unfolding cmd_help_def by (intro quiet_intros info_fits) (auto dest: logs_tx)

lemma cmd_pmm_info_quiet: "tx_drains (uart s) \<Longrightarrow> quiet (cmd_pmm_info s) s"
  unfolding cmd_pmm_info_def by (intro quiet_intros info_fits) (auto dest: logs_tx)

subsection \<open>Numbers\<close>

definition number :: "u8 list \<Rightarrow> u64 option" where
  "number w = (if snd (parse_ref 0 w) = length w then Some (of_nat (fst (parse_ref 0 w))) else None)"

lemma strtoull_arg:
  assumes "arg m a w"
  obtains v e where "strtoull m a 0 = Some (v, e)" and "m e \<noteq> 0 \<longleftrightarrow> number w = None"
    and "\<forall>n. number w = Some n \<longrightarrow> v = n"
proof -
  let ?k = "snd (parse_ref 0 w)"
  have c: "cstr m a w" using assms by (simp add: arg_def)
  have "cstr m (a + of_nat ?k) (drop ?k w)" by (rule cstr_drop [OF c parse_ref_le])
  then have "m (a + of_nat ?k) = 0 \<longleftrightarrow> drop ?k w = []" by (cases "drop ?k w") auto
  also have "\<dots> \<longleftrightarrow> ?k = length w" using parse_ref_le [of 0 w] by auto
  finally have "m (a + of_nat ?k) \<noteq> 0 \<longleftrightarrow> number w = None" by (simp add: number_def)
  then show thesis by (rule that [OF strtoull_cstr [OF c]]) (simp add: number_def split: if_splits)
qed

subsection \<open>Address validation\<close>

lemma is_address_valid_start:
  "is_address_valid addr len s \<Longrightarrow> 0x40000000 \<le> unat addr \<and> unat addr < unat (highest_usable_address s)"
  by (auto simp: is_address_valid_def pmm_get_highest_usable_address_def PMM_RAM_BASE_def Let_def
      word_le_nat_alt word_less_nat_alt split: if_splits)

lemma is_address_valid_nat:
  assumes "unat addr + unat len \<le> 2 ^ 64"
  shows "is_address_valid addr len s \<longleftrightarrow> 0x40000000 \<le> unat addr \<and>
    unat addr < unat (highest_usable_address s) \<and> unat addr + unat len \<le> unat (highest_usable_address s)"
proof (cases "len = 0")
  case True
  then show ?thesis
    by (auto simp: is_address_valid_def pmm_get_highest_usable_address_def PMM_RAM_BASE_def
        word_le_nat_alt word_less_nat_alt Let_def)
next
  case False
  then have l: "0 < unat len" by (simp add: unat_gt_0)
  have "unat (len - 1) = unat len - 1" using False by (simp add: unat_minus_one)
  then have "unat (addr + (len - 1)) = unat addr + (unat len - 1)"
    using assms l by (simp add: unat_plus_if')
  then have "unat (addr + len - 1) = unat addr + unat len - 1"
    using l unfolding add_diff_eq by simp
  with l show ?thesis
    by (auto simp: is_address_valid_def pmm_get_highest_usable_address_def PMM_RAM_BASE_def
        word_le_nat_alt word_less_nat_alt Let_def)
qed

lemma is_address_valid_wraps:
  assumes w: "2 ^ 64 < unat addr + unat len" and a: "0x40000000 \<le> unat addr" "unat addr < unat (highest_usable_address s)"
  shows "is_address_valid addr len s"
proof -
  have "0 < unat len" using w unat_u64_lt [of addr] by simp
  then have "unat (len - 1) = unat len - 1" by (intro unat_minus_one) auto
  moreover have "\<not> unat addr + (unat len - 1) < 2 ^ 64" using w by linarith
  ultimately have "unat (addr + (len - 1)) = unat addr + (unat len - 1) - 2 ^ 64"
    by (simp add: unat_plus_if')
  then have "unat (addr + len - 1) < unat addr"
    using w unat_u64_lt [of len] unfolding add_diff_eq by simp
  with a show ?thesis
    by (simp add: is_address_valid_def pmm_get_highest_usable_address_def PMM_RAM_BASE_def
        word_le_nat_alt word_less_nat_alt Let_def)
qed

lemma is_address_valid_logs:
  fixes s s' :: "'a pmm_state_scheme"
  shows "logs out s s' \<Longrightarrow> is_address_valid addr len s' = is_address_valid addr len s"
  by (auto simp: logs_def is_address_valid_def pmm_get_highest_usable_address_def)

subsection \<open>peek and poke\<close>

lemma quiet_check:
  fixes s :: "'a pmm_state_scheme"
  assumes "tx_drains (uart s)"
  obtains s' out where "check_access addr n s = Some (is_address_valid addr n s, s')" and "logs out s s'"
proof -
  have "quiet (if \<not> is_address_valid addr n s
      then kprint ''Error: Address 0x%llx is not within valid RAM for size %zu.\<newline>'' [VA addr, VA n] s
      else if n > 1 \<and> addr mod n \<noteq> 0
      then kprint ''Warning: Address 0x%llx is not aligned for size %zu.\<newline>'' [VA addr, VA n] s else Some s) s"
    using assms by (simp add: quiet_kprint cmd_fits)
  then obtain s' out where "(if \<not> is_address_valid addr n s
      then kprint ''Error: Address 0x%llx is not within valid RAM for size %zu.\<newline>'' [VA addr, VA n] s
      else if n > 1 \<and> addr mod n \<noteq> 0
      then kprint ''Warning: Address 0x%llx is not aligned for size %zu.\<newline>'' [VA addr, VA n] s else Some s) = Some s'"
    "logs out s s'" by (rule quietE)
  with that [of s' out] show thesis by (simp add: check_access_def split: if_splits)
qed

lemma peek_at_quiet:
  fixes s :: "'a pmm_state_scheme"
  assumes "tx_drains (uart s)"
  shows "quiet (peek_at addr c s) s"
proof (cases "size_bytes c")
  case None
  then show ?thesis using assms by (simp add: peek_at_def quiet_kprint cmd_fits)
next
  case (Some n)
  obtain s1 out where s1: "check_access addr n s = Some (is_address_valid addr n s, s1)" "logs out s s1"
    by (rule quiet_check [OF assms])
  have q: "quiet (kprint ''Peek at 0x%llx (size %zu): '' [VA addr, VA n] s1 \<bind>
      (\<lambda>s. kprint (peek_format n) [VA (load_le (unat n) (mem s) addr)] s)) s1"
    using logs_tx [OF s1(2)] by (intro quiet_intros cmd_fits) (auto dest: logs_tx)
  have "quiet (Some s1 \<bind> (\<lambda>s. if \<not> is_address_valid addr n s1 then Some s else
      kprint ''Peek at 0x%llx (size %zu): '' [VA addr, VA n] s \<bind>
      (\<lambda>s. kprint (peek_format n) [VA (load_le (unat n) (mem s) addr)] s))) s"
    using s1(2) q logs_tx [OF s1(2)] logs_trans [OF s1(2)]
    by (auto simp: quiet_def)
  then show ?thesis
    using s1(1) Some is_address_valid_logs [OF s1(2)] by (simp add: peek_at_def)
qed

lemma cmd_peek_quiet:
  fixes s :: "'a pmm_state_scheme"
  assumes "tx_drains (uart s)" and "list_all2 (arg (mem s)) argv ws"
  shows "quiet (cmd_peek argv s) s"
proof (cases "length argv < 2")
  case True
  then show ?thesis using assms(1) by (simp add: cmd_peek_def quiet_kprint cmd_fits)
next
  case False
  then have l: "length ws = length argv" "1 < length argv" using assms(2) by (auto dest: list_all2_lengthD)
  have a1: "arg (mem s) (argv ! 1) (ws ! 1)" using l by (intro list_all2_nthD [OF assms(2)]) simp
  obtain v e where e: "strtoull (mem s) (argv ! 1) 0 = Some (v, e)" using a1 by (rule strtoull_arg)
  have f: "quiet (kprint ''Error: Invalid address format '%s'\<newline>'' [VA (argv ! 1)] s) s"
    using a1 assms(1) by (intro quiet_arg [OF a1] arg_fits) (simp_all add: arg_def)
  show ?thesis
  proof (cases "2 < length argv")
    case True
    then have a2: "arg (mem s) (argv ! 2) (ws ! 2)" by (intro list_all2_nthD [OF assms(2)])
    then have n: "strlen (mem s) (argv ! 2) = Some (of_nat (length (ws ! 2)))"
      by (intro strlen_cstr) (simp add: arg_def)
    have "quiet (kprint ''Error: Invalid size format '%s'\<newline>'' [VA (argv ! 2)] s) s"
      using a2 assms(1) by (intro quiet_arg [OF a2] arg_fits) (simp_all add: arg_def)
    with f False True e n show ?thesis by (simp add: cmd_peek_def peek_at_quiet assms(1))
  qed (use f False e in \<open>simp add: cmd_peek_def peek_at_quiet assms(1)\<close>)
qed

text \<open>The store a poke command with the words \<open>ws\<close> asks for, if it is a legal one.\<close>

definition size_word :: "u8 list \<Rightarrow> u64 option" where
  "size_word w = (if length w = 1 then size_bytes (hd w) else None)"

definition poke_ref :: "u8 list list \<Rightarrow> 'a pmm_state_scheme \<Rightarrow> (u64 \<times> u64 \<times> u64) option" where
  "poke_ref ws s = (if length ws < 3 then None else do {
     addr \<leftarrow> number (ws ! 1);
     val \<leftarrow> number (ws ! 2);
     n \<leftarrow> (if length ws > 3 then size_word (ws ! 3) else Some 8);
     if is_address_valid addr n s then Some (addr, val, n) else None })"

definition pokes :: "(u64 \<times> u64 \<times> u64) option \<Rightarrow> 'a machine_scheme option \<Rightarrow> 'a machine_scheme \<Rightarrow> bool" where
  "pokes p r s \<longleftrightarrow> (\<exists>s' out. logs out s s' \<and> r = Some (case p of None \<Rightarrow> s'
     | Some (addr, val, n) \<Rightarrow> s'\<lparr>mem := store_le (unat n) (mem s) addr val\<rparr>))"

lemma pokes_None: "pokes None r s \<longleftrightarrow> quiet r s"
  by (auto simp: pokes_def quiet_def)

lemma poke_at_pokes:
  fixes s :: "'a pmm_state_scheme"
  assumes "tx_drains (uart s)"
  shows "pokes (do { n \<leftarrow> size_bytes c; if is_address_valid addr n s then Some (addr, val, n) else None })
    (poke_at addr val c s) s"
proof (cases "size_bytes c")
  case None
  then show ?thesis using assms by (simp add: poke_at_def quiet_kprint cmd_fits pokes_None)
next
  case (Some n)
  obtain s1 out where s1: "check_access addr n s = Some (is_address_valid addr n s, s1)" "logs out s s1"
    by (rule quiet_check [OF assms])
  show ?thesis
  proof (cases "is_address_valid addr n s")
    case False
    then have "poke_at addr val c s = Some s1" using s1(1) Some by (simp add: poke_at_def)
    with False Some s1(2) show ?thesis by (auto simp: pokes_def)
  next
    case True
    obtain s2 out2 where s2: "kprint ''Poke at 0x%llx (size %zu) with value 0x%llx\<newline>'' [VA addr, VA n, VA val] s1 = Some s2"
      "logs out2 s1 s2" by (rule kprint_fits_logs [OF cmd_fits(17) logs_tx [OF s1(2)]])
    then have "poke_at addr val c s = Some (s2\<lparr>mem := store_le (unat n) (mem s) addr val\<rparr>)"
      using True s1(1) Some logsD(1) [OF s1(2)] logsD(1) [OF s2(2)] by (simp add: poke_at_def)
    with True Some logs_trans [OF s1(2) s2(2)] show ?thesis by (auto simp: pokes_def)
  qed
qed

lemma cmd_poke_pokes:
  fixes s :: "'a pmm_state_scheme"
  assumes "tx_drains (uart s)" and "list_all2 (arg (mem s)) argv ws"
  shows "pokes (poke_ref ws s) (cmd_poke argv s) s"
proof (cases "length argv < 3")
  case True
  then show ?thesis
    using assms list_all2_lengthD [OF assms(2)] by (simp add: cmd_poke_def poke_ref_def quiet_kprint cmd_fits pokes_None)
next
  case False
  have l: "length ws = length argv" using list_all2_lengthD [OF assms(2)] by simp
  note nth = list_all2_nthD [OF assms(2)]
  have a: "arg (mem s) (argv ! 1) (ws ! 1)" "arg (mem s) (argv ! 2) (ws ! 2)" using False by (intro nth; simp)+
  obtain v1 e1 where e1: "strtoull (mem s) (argv ! 1) 0 = Some (v1, e1)" "mem s e1 \<noteq> 0 \<longleftrightarrow> number (ws ! 1) = None"
    "\<forall>n. number (ws ! 1) = Some n \<longrightarrow> v1 = n" using a(1) by (rule strtoull_arg)
  obtain v2 e2 where e2: "strtoull (mem s) (argv ! 2) 0 = Some (v2, e2)" "mem s e2 \<noteq> 0 \<longleftrightarrow> number (ws ! 2) = None"
    "\<forall>n. number (ws ! 2) = Some n \<longrightarrow> v2 = n" using a(2) by (rule strtoull_arg)
  have f: "quiet (kprint ''Error: Invalid address format '%s'\<newline>'' [VA (argv ! 1)] s) s"
    "quiet (kprint ''Error: Invalid value format '%s'\<newline>'' [VA (argv ! 2)] s) s"
    using a assms(1) by (auto simp: arg_def intro!: quiet_arg arg_fits)
  show ?thesis
  proof (cases "number (ws ! 1) = None \<or> number (ws ! 2) = None")
    case True
    with f e1 e2 False l show ?thesis by (auto simp: cmd_poke_def poke_ref_def pokes_None)
  next
    case num: False
    then have v: "number (ws ! 1) = Some v1" "number (ws ! 2) = Some v2" using e1(3) e2(3) by auto
    have at: "cmd_poke argv s = (if length argv > 3 then do {
            n \<leftarrow> strlen (mem s) (argv ! 3);
            if n \<noteq> 1 then kprint ''Error: Invalid size format '%s'\<newline>'' [VA (argv ! 3)] s
            else poke_at v1 v2 (mem s (argv ! 3)) s }
          else poke_at v1 v2 (of_char CHR ''d'') s)"
      using e1(1,2) e2(1,2) v False by (simp add: cmd_poke_def)
    show ?thesis
    proof (cases "3 < length argv")
      case True
      then have a3: "arg (mem s) (argv ! 3) (ws ! 3)" by (intro nth)
      then have n: "strlen (mem s) (argv ! 3) = Some (of_nat (length (ws ! 3)))"
        and h: "ws ! 3 \<noteq> [] \<longrightarrow> mem s (argv ! 3) = hd (ws ! 3)"
        using cstr_hd [of "mem s" "argv ! 3" "ws ! 3"] by (auto simp: arg_def intro: strlen_cstr)
      have "(of_nat (length (ws ! 3)) :: u64) = 1 \<longleftrightarrow> length (ws ! 3) = 1"
        using a3 by (simp add: word_unat_eq_iff unat_of_nat64 arg_def)
      moreover have "quiet (kprint ''Error: Invalid size format '%s'\<newline>'' [VA (argv ! 3)] s) s"
        using a3 assms(1) by (auto simp: arg_def intro!: quiet_arg arg_fits)
      moreover have "length (ws ! 3) = 1 \<longrightarrow> ws ! 3 \<noteq> []" by auto
      ultimately show ?thesis
        using poke_at_pokes [OF assms(1), of "hd (ws ! 3)" v1 v2] h True l v n
        unfolding at poke_ref_def by (simp add: size_word_def pokes_None)
    next
      case small: False
      have "size_bytes (of_char CHR ''d'') = Some 8" by (simp add: size_bytes_def)
      with poke_at_pokes [OF assms(1), of "of_char CHR ''d''" v1 v2] small False l v show ?thesis
        unfolding at poke_ref_def by simp
    qed
  qed
qed

subsection \<open>memdump\<close>

lemma dump_hex_quiet: "tx_drains (uart s) \<Longrightarrow> quiet (dump_hex addr len i js s) s"
proof (induction js arbitrary: s)
  case (Cons j js)
  then show ?case
    by (auto intro!: quiet_intros cmd_fits dest: logs_tx split: if_splits)
qed simp

lemma dump_ascii_quiet: "tx_drains (uart s) \<Longrightarrow> quiet (dump_ascii addr len i js s) s"
proof (induction js arbitrary: s)
  case (Cons j js)
  then show ?case
    by (auto simp: Let_def intro!: quiet_intros cmd_fits dest: logs_tx split: if_splits)
qed simp

lemma dump_row_quiet: "tx_drains (uart s) \<Longrightarrow> quiet (dump_row addr len i s) s"
  unfolding dump_row_def
  by (intro quiet_intros cmd_fits dump_hex_quiet dump_ascii_quiet) (auto dest: logs_tx)

lemma dump_rows_quiet:
  assumes "unat len \<le> 2 ^ 64 - 16"
  shows "tx_drains (uart s) \<Longrightarrow> quiet (dump_rows addr len i s) s"
proof (induction "unat len - unat i" arbitrary: i s rule: less_induct)
  case less
  show ?case
  proof (cases "i < len")
    case True
    then have "unat i < unat len" by (simp add: word_less_nat_alt)
    then have "unat (i + 16) = unat i + 16" using assms by (simp add: unat_plus_if')
    then have "unat len - unat (i + 16) < unat len - unat i" using \<open>unat i < unat len\<close> by simp
    then have "quiet (dump_row addr len i s \<bind> dump_rows addr len (i + 16)) s"
      using less by (intro quiet_bind dump_row_quiet) (auto dest: logs_tx)
    then show ?thesis using True by (subst dump_rows.simps) simp
  qed (use less.prems in \<open>simp add: dump_rows.simps [of addr len i]\<close>)
qed

text \<open>
  The index steps by 16 and wraps: above \<open>2^64 - 16\<close> every multiple of 16 is below the length,
  and the loop cannot end.
\<close>

lemma multiple_16:
  assumes "16 dvd unat (i :: u64)"
  shows "unat i \<le> 2 ^ 64 - 16" and "16 dvd unat (i + 16)"
proof -
  obtain k where k: "unat i = 16 * k" using assms by auto
  then show "unat i \<le> 2 ^ 64 - 16" using unat_u64_lt [of i] by simp
  show "16 dvd unat (i + 16)" using assms by (simp add: unat_plus_if')
qed

lemma dump_rows_bound:
  assumes "dump_rows addr len i s = Some s'"
  shows "16 dvd unat i \<longrightarrow> unat len \<le> 2 ^ 64 - 16"
proof (rule dump_rows.raw_induct [of "\<lambda>addr len i s s'. 16 dvd unat i \<longrightarrow> unat len \<le> 2 ^ 64 - 16", OF _ assms])
  fix rec addr len i and s s' :: "'a machine_scheme"
  assume IH: "\<And>addr len i s s'. rec addr len i s = Some s' \<Longrightarrow> 16 dvd unat i \<longrightarrow> unat len \<le> 2 ^ 64 - 16"
    and step: "(if i < len then dump_row addr len i s \<bind> rec addr len (i + 16) else Some s) = Some s'"
  show "16 dvd unat i \<longrightarrow> unat len \<le> 2 ^ 64 - 16"
  proof (cases "i < len")
    case True
    with step obtain t where "rec addr len (i + 16) t = Some s'" by (auto simp: bind_eq_Some_conv)
    from IH [OF this] multiple_16(2) [of i] show ?thesis by blast
  next
    case False
    with multiple_16(1) [of i] show ?thesis by (auto simp: word_less_nat_alt)
  qed
qed

lemma dump_range_quiet:
  fixes s :: "'a pmm_state_scheme"
  assumes "tx_drains (uart s)" and "is_address_valid addr len s \<longrightarrow> unat len \<le> 2 ^ 64 - 16"
  shows "quiet (dump_range addr len s) s"
proof (cases "len = 0 \<or> \<not> is_address_valid addr len s")
  case True
  with assms(1) show ?thesis by (auto simp: dump_range_def quiet_kprint cmd_fits)
next
  case False
  then have "quiet (kprint ''Memory dump from 0x%llx (length %zu):\<newline>'' [VA addr, VA len] s \<bind> dump_rows addr len 0) s"
    using assms by (intro quiet_intros cmd_fits dump_rows_quiet) (auto dest: logs_tx)
  with False show ?thesis by (simp add: dump_range_def)
qed

text \<open>The range a memdump command asks for.\<close>

definition dump_ref :: "u8 list list \<Rightarrow> (u64 \<times> u64) option" where
  "dump_ref ws = (if length ws < 2 then None else do {
     addr \<leftarrow> number (ws ! 1);
     len \<leftarrow> (if length ws > 2 then number (ws ! 2) else Some 256);
     Some (addr, len) })"

lemma cmd_memdump_cases:
  fixes s :: "'a pmm_state_scheme"
  assumes "tx_drains (uart s)" and "list_all2 (arg (mem s)) argv ws"
  shows "case dump_ref ws of None \<Rightarrow> quiet (cmd_memdump argv s) s
    | Some (addr, len) \<Rightarrow> cmd_memdump argv s = dump_range addr len s"
proof (cases "length argv < 2")
  case True
  then show ?thesis
    using assms list_all2_lengthD [OF assms(2)] by (simp add: cmd_memdump_def dump_ref_def quiet_kprint cmd_fits)
next
  case False
  have l: "length ws = length argv" using list_all2_lengthD [OF assms(2)] by simp
  note nth = list_all2_nthD [OF assms(2)]
  have a: "arg (mem s) (argv ! 1) (ws ! 1)" using False by (intro nth) simp
  obtain v1 e1 where e1: "strtoull (mem s) (argv ! 1) 0 = Some (v1, e1)" "mem s e1 \<noteq> 0 \<longleftrightarrow> number (ws ! 1) = None"
    "\<forall>n. number (ws ! 1) = Some n \<longrightarrow> v1 = n" using a by (rule strtoull_arg)
  have f: "quiet (kprint ''Error: Invalid address format '%s'\<newline>'' [VA (argv ! 1)] s) s"
    using a assms(1) by (auto simp: arg_def intro!: quiet_arg arg_fits)
  show ?thesis
  proof (cases "2 < length argv")
    case True
    then have a2: "arg (mem s) (argv ! 2) (ws ! 2)" by (intro nth)
    then obtain v2 e2 where e2: "strtoull (mem s) (argv ! 2) 0 = Some (v2, e2)"
      "mem s e2 \<noteq> 0 \<longleftrightarrow> number (ws ! 2) = None" "\<forall>n. number (ws ! 2) = Some n \<longrightarrow> v2 = n" by (rule strtoull_arg)
    have "quiet (kprint ''Error: Invalid length format '%s'\<newline>'' [VA (argv ! 2)] s) s"
      using a2 assms(1) by (auto simp: arg_def intro!: quiet_arg arg_fits)
    with f e1 e2 False True l show ?thesis
      by (cases "number (ws ! 1)"; cases "number (ws ! 2)") (auto simp: cmd_memdump_def dump_ref_def)
  qed (use f e1 False l in \<open>cases "number (ws ! 1)"; auto simp: cmd_memdump_def dump_ref_def\<close>)
qed

subsection \<open>Properties\<close>

text \<open>A state with a gigabyte of RAM and the line of a poke command in memory.\<close>

definition demo_line :: "u8 list" where
  "demo_line = bytes ''poke'' @ [0] @ bytes ''0x40200000'' @ [0] @ bytes ''255'' @ [0] @ bytes ''b'' @ [0]"

definition demo_pmm :: pmm_state where
  "demo_pmm = \<lparr>mem = place 0x1000 demo_line, uart = idle_uart, strtok_last = 0,
     total_memory = 0x40000000, free_memory = 0x3FFC8000, highest_usable_address = 0x80000000\<rparr>"

definition demo_argv :: "u64 list" where
  "demo_argv = [0x1000, 0x1005, 0x1010, 0x1014]"

definition demo_words :: "u8 list list" where
  "demo_words = [bytes ''poke'', bytes ''0x40200000'', bytes ''255'', bytes ''b'']"

lemma demo_args: "list_all2 (arg (mem demo_pmm)) demo_argv demo_words"
  by (simp add: demo_pmm_def demo_argv_def demo_words_def demo_line_def arg_def place_def)

lemma demo_numbers: "number (bytes ''0x40200000'') = Some 0x40200000" "number (bytes ''255'') = Some 255"
  by (simp_all add: number_def parse_defs)

text \<open>
  (C21) The address check accepts exactly the ranges inside RAM, from the start of RAM to the
  highest usable address, as long as the end of the range does not wrap around.  A range
  whose end does wrap is accepted too when its wrapped end is low enough, although it covers
  everything above its start: the overflow test comes after the bound test it should guard.
\<close>

theorem is_address_valid_spec:
  "(unat addr + unat len \<le> 2 ^ 64 \<longrightarrow>
     (is_address_valid addr len s \<longleftrightarrow> 0x40000000 \<le> unat addr \<and> unat addr < unat (highest_usable_address s) \<and>
       unat addr + unat len \<le> unat (highest_usable_address s))) \<and>
   (2 ^ 64 < unat addr + unat len \<longrightarrow> 0x40000000 \<le> unat addr \<longrightarrow> unat addr < unat (highest_usable_address s) \<longrightarrow>
     is_address_valid addr len s)"
  using is_address_valid_nat is_address_valid_wraps by blast

theorem is_address_valid_spec_witness:
  "\<not> is_address_valid 0x7FFFFFF9 8 demo_pmm \<and> is_address_valid 0x7FFFFFF8 8 demo_pmm \<and>
   is_address_valid 0x40000010 0xFFFFFFFFFFFFFFFF demo_pmm"
  using is_address_valid_spec [of "0x7FFFFFF9" 8 demo_pmm] is_address_valid_spec [of "0x7FFFFFF8" 8 demo_pmm]
    is_address_valid_spec [of "0x40000010" "0xFFFFFFFFFFFFFFFF" demo_pmm]
  by (simp add: demo_pmm_def)

text \<open>
  (C14) A poke command writes the bytes it was asked for, little-endian, or nothing: on bad
  numbers, a bad size letter, a missing argument or an address outside RAM memory is as
  before.  When it writes, every byte it writes lies between the start of RAM and the highest
  usable address.
\<close>

theorem cmd_poke_spec:
  fixes s :: "'a pmm_state_scheme"
  assumes "tx_drains (uart s)" and "list_all2 (arg (mem s)) argv ws"
    and "unat (highest_usable_address s) \<le> 2 ^ 63"
  shows "(\<exists>out s'. logs out s s' \<and> cmd_poke argv s = Some (case poke_ref ws s of None \<Rightarrow> s'
      | Some (addr, val, n) \<Rightarrow> s'\<lparr>mem := store_le (unat n) (mem s) addr val\<rparr>)) \<and>
    (\<forall>addr val n x. poke_ref ws s = Some (addr, val, n) \<longrightarrow> store_le (unat n) (mem s) addr val x \<noteq> mem s x \<longrightarrow>
      0x40000000 \<le> unat x \<and> unat x < unat (highest_usable_address s))"
proof (intro conjI allI impI)
  show "\<exists>out s'. logs out s s' \<and> cmd_poke argv s = Some (case poke_ref ws s of None \<Rightarrow> s'
      | Some (addr, val, n) \<Rightarrow> s'\<lparr>mem := store_le (unat n) (mem s) addr val\<rparr>)"
    using cmd_poke_pokes [OF assms(1,2)] by (auto simp: pokes_def)
  fix addr val n x
  assume p: "poke_ref ws s = Some (addr, val, n)" and x: "store_le (unat n) (mem s) addr val x \<noteq> mem s x"
  have valid: "is_address_valid addr n s" and n: "n \<in> {1, 2, 4, 8}"
    using p by (auto simp: poke_ref_def bind_eq_Some_conv size_word_def size_bytes_def split: if_splits)
  then have "unat n \<le> 8" by auto
  then have "unat (x - addr) < unat n" using x by (auto simp: store_le_eq split: if_splits)
  moreover have lt: "unat addr < unat (highest_usable_address s)"
    using valid by (auto simp: is_address_valid_def pmm_get_highest_usable_address_def word_less_nat_alt word_le_nat_alt Let_def
        split: if_splits)
  moreover have "unat addr + unat n \<le> 2 ^ 64" using lt assms(3) \<open>unat n \<le> 8\<close> by simp
  ultimately have "unat addr \<le> unat x" "unat x < unat addr + unat n"
    using span_nat [of addr "unat n" x] by (simp_all add: mem_span)
  with valid is_address_valid_nat [OF \<open>unat addr + unat n \<le> 2 ^ 64\<close>, of s]
  show "0x40000000 \<le> unat x" "unat x < unat (highest_usable_address s)" by auto
qed

theorem cmd_poke_spec_witness:
  "\<exists>s'. cmd_poke demo_argv demo_pmm = Some s' \<and> mem s' = (mem demo_pmm)(0x40200000 := 255)"
proof -
  have "poke_ref demo_words demo_pmm = Some (0x40200000, 255, 1)"
    by (simp add: poke_ref_def demo_words_def demo_numbers size_word_def size_bytes_def
        is_address_valid_def pmm_get_highest_usable_address_def PMM_RAM_BASE_def demo_pmm_def
        del: bytes_simps(1,2)) simp
  with cmd_poke_spec [OF _ demo_args] show ?thesis by (auto simp: demo_pmm_def)
qed

text \<open>
  (C29) A peek command only reads: whatever its arguments are, it returns, memory is unchanged,
  and it does nothing but print.  It does not show the value either: for an aligned address
  inside RAM the text is the same whatever is stored there, since the width in its format is
  not supported.
\<close>

theorem cmd_peek_spec:
  fixes s :: "'a pmm_state_scheme"
  assumes "tx_drains (uart s)" and "list_all2 (arg (mem s)) argv ws"
  shows "(\<exists>out s'. cmd_peek argv s = Some s' \<and> logs out s s') \<and>
    (\<forall>addr c n. size_bytes c = Some n \<longrightarrow> is_address_valid addr n s \<longrightarrow> addr mod n = 0 \<longrightarrow>
      (\<exists>s'. peek_at addr c s = Some s' \<and>
        logs (bytes ''Peek at 0x'' @ positional 16 (\<lambda>d. of_char (''0123456789abcdef'' ! d)) (unat addr) @
          bytes '' (size %zu): '' @ bytes (peek_format n)) s s'))"
proof (intro conjI allI impI)
  show "\<exists>out s'. cmd_peek argv s = Some s' \<and> logs out s s'"
    using cmd_peek_quiet [OF assms] by (auto simp: quiet_def)
  fix addr c n
  assume a: "size_bytes c = Some n" "is_address_valid addr n s" "addr mod n = 0"
  let ?t = "bytes ''Peek at 0x'' @ hex_loop False addr [] @ bytes '' (size %zu): ''"
  have "0 \<notin> set (hex_loop False addr [])"
    using positional_value(2) [of 16 "\<lambda>d. of_char (hex_chars False ! d)" "unat addr", OF _ digit_of_hex]
    by (auto simp: hex_loop_positional is_digit_eq)
  then have "takeWhile (\<lambda>c. c \<noteq> 0) ?t = ?t" by (intro takeWhile_nonzero) simp
  moreover have "kprintf_buffer (mem s) ''Peek at 0x%llx (size %zu): '' [VA addr, VA n] = Inr ?t"
    using hex_loop_length [of False addr]
    by (simp add: kprintf_buffer_def kp_loop.simps(2) modifiers_def kp_spec_simps kp_spec_unsupported
        supported_def buffer_defs uint_width_def)
  ultimately obtain s1 where s1: "kprint ''Peek at 0x%llx (size %zu): '' [VA addr, VA n] s = Some s1" "logs ?t s s1"
    using kprint_logs assms(1) by metis
  have v: "verbatim (peek_format n)" by (simp add: verbatim_simps peek_format_def)
  obtain s2 where s2: "kprint (peek_format n) [VA (load_le (unat n) (mem s1) addr)] s1 = Some s2"
    "logs (bytes (peek_format n)) s1 s2" by (rule kprint_verbatim [OF v logs_tx [OF s1(2)]])
  have "peek_at addr c s = Some s2" using a s1(1) s2(1) by (simp add: peek_at_def check_access_def)
  moreover have "hex_loop False addr [] = positional 16 (\<lambda>d. of_char (''0123456789abcdef'' ! d)) (unat addr)"
    by (simp add: hex_loop_positional hex_chars_def)
  ultimately show "\<exists>s'. peek_at addr c s = Some s' \<and>
      logs (bytes ''Peek at 0x'' @ positional 16 (\<lambda>d. of_char (''0123456789abcdef'' ! d)) (unat addr) @
        bytes '' (size %zu): '' @ bytes (peek_format n)) s s'"
    using logs_trans [OF s1(2) s2(2)] by (intro exI [of _ s2]) (simp only: append_assoc)
qed

theorem cmd_peek_spec_witness:
  "\<exists>s'. cmd_peek [0x1000, 0x1005] demo_pmm = Some s' \<and> mem s' = mem demo_pmm"
proof -
  have "list_all2 (arg (mem demo_pmm)) [0x1000, 0x1005] (take 2 demo_words)"
    using demo_args by (simp add: demo_argv_def demo_words_def del: bytes_simps)
  moreover have "tx_drains (uart demo_pmm)" by (simp add: demo_pmm_def)
  ultimately show ?thesis using cmd_peek_spec [of demo_pmm] by (blast dest: logsD(1))
qed

text \<open>
  (C22) A memdump command returns, having only printed, unless its address lies in RAM and its
  length is above \<open>2^64 - 16\<close>: such a range is accepted, the loop counter wraps before it reaches the
  length, and the command never returns.  So malformed commands, ranges that are refused and
  accepted ranges of any length up to \<open>2^64 - 16\<close> all return, also those that wrap around the
  address space.  Memory is total here: that a wrapping range reads addresses where the
  machine has nothing, and may fault there, is outside the model.
\<close>

theorem cmd_memdump_spec:
  fixes s :: "'a pmm_state_scheme"
  assumes "tx_drains (uart s)" and "list_all2 (arg (mem s)) argv ws"
  shows "case dump_ref ws of
      None \<Rightarrow> (\<exists>out s'. cmd_memdump argv s = Some s' \<and> logs out s s')
    | Some (addr, len) \<Rightarrow>
        if 0x40000000 \<le> unat addr \<and> unat addr < unat (highest_usable_address s) \<and> 2 ^ 64 - 16 < unat len
        then cmd_memdump argv s = None
        else \<exists>out s'. cmd_memdump argv s = Some s' \<and> logs out s s'"
proof (cases "dump_ref ws")
  case None
  then show ?thesis using cmd_memdump_cases [OF assms(1,2)] by (auto simp: quiet_def)
next
  case (Some r)
  obtain addr len where r: "r = (addr, len)" by (cases r)
  let ?stuck = "0x40000000 \<le> unat addr \<and> unat addr < unat (highest_usable_address s) \<and> 2 ^ 64 - 16 < unat len"
  have cmd: "cmd_memdump argv s = dump_range addr len s" using cmd_memdump_cases [OF assms(1,2)] Some r by simp
  have "quiet (dump_range addr len s) s" if "\<not> ?stuck"
    by (rule dump_range_quiet [OF assms(1)]) (use that is_address_valid_start [of addr len s] in auto)
  moreover have "dump_range addr len s = None" if b: ?stuck
  proof -
    have "is_address_valid addr len s" using is_address_valid_wraps [of addr len s] b by simp
    moreover have "dump_rows addr len 0 t = None" for t :: "'a pmm_state_scheme"
      using dump_rows_bound [of addr len 0 t] b by (cases "dump_rows addr len 0 t") auto
    moreover have "len \<noteq> 0" using b by auto
    ultimately show ?thesis by (simp add: dump_range_def bind_eq_None_conv)
  qed
  ultimately show ?thesis using Some r cmd by (auto simp: quiet_def)
qed

theorem cmd_memdump_spec_witness:
  "\<exists>s'. cmd_memdump [0x1000, 0x1005] demo_pmm = Some s' \<and> mem s' = mem demo_pmm"
proof -
  have a: "list_all2 (arg (mem demo_pmm)) [0x1000, 0x1005] (take 2 demo_words)"
    using demo_args by (simp add: demo_argv_def demo_words_def del: bytes_simps)
  have d: "dump_ref (take 2 demo_words) = Some (0x40200000, 256)"
    using demo_numbers(1) by (simp add: dump_ref_def demo_words_def del: bytes_simps)
  have "tx_drains (uart demo_pmm)" by (simp add: demo_pmm_def)
  from cmd_memdump_spec [OF this a] show ?thesis by (auto simp: d dest: logsD(1))
qed

end
