(* ===== verification/Receiver.thy ===== *)
theory Receiver
  imports Kheap
begin

text \<open>
  Output does not touch input: no call that prints, allocates or releases reads the data
  register of the UART, so the characters that are still to come are the same afterwards.
  \<open>rx\<close> is the receiving side of the device.
\<close>

definition rx :: "uart \<Rightarrow> (nat \<Rightarrow> u32) \<times> (nat \<Rightarrow> u32) \<times> nat" where
  "rx u = (fr_at u, dr_at u, dr_reads u)"

lemma rx_upd_same [simp]: "rx (u\<lparr>fr_reads := n\<rparr>) = rx u" "rx (write_reg a v u) = rx u" "rx (u\<lparr>writes := w\<rparr>) = rx u"
  by (simp_all add: rx_def write_reg_def)

lemma tx_wait_rx: "tx_wait u = Some u' \<Longrightarrow> rx u' = rx u"
proof (rule tx_wait.raw_induct [of "\<lambda>u u'. rx u' = rx u"])
  fix wait u u'
  assume "\<And>x y. wait x = Some y \<Longrightarrow> rx y = rx x"
    and "(case read_fr u of (f, u') \<Rightarrow> if f AND UART_FR_TXFF \<noteq> 0 then wait u' else Some u') = Some u'"
  then show "rx u' = rx u" by (auto simp: read_fr_def split: if_splits)
qed

lemma uart_putc_rx: "uart_putc c u = Some u' \<Longrightarrow> rx u' = rx u"
proof (induction c u arbitrary: u' rule: uart_putc.induct)
  case (1 c u)
  then show ?case
    by (subst (asm) (2) uart_putc.simps) (auto simp: bind_eq_Some_conv Let_def dest!: tx_wait_rx split: if_splits)
qed

lemma uart_puts_rx: "uart_puts cs u = Some u' \<Longrightarrow> rx u' = rx u"
  by (induction cs arbitrary: u) (auto simp: bind_eq_Some_conv dest!: uart_putc_rx)

lemma kprint_rx: "kprint f args s = Some s' \<Longrightarrow> rx (uart s') = rx (uart s)"
  by (auto simp: kprint_def kprintf_def bind_eq_Some_conv dest!: uart_puts_rx split: sum.splits)


subsection \<open>The frame allocator\<close>

lemma mark_frame_uart [simp]: "uart (mark_used_frame L i s) = uart s" "uart (mark_free_frame L i s) = uart s"
  by (simp_all add: mark_used_frame_def mark_free_frame_def Let_def)

lemma mark_loops_uart [simp]:
  "uart (mark_used_loop L i e s) = uart s" "uart (mark_free_loop L i e s) = uart s"
proof -
  show "uart (mark_used_loop L i e s) = uart s"
    by (induction L i e s rule: mark_used_loop.induct) (subst mark_used_loop.simps, simp)
  show "uart (mark_free_loop L i e s) = uart s"
    by (induction L i e s rule: mark_free_loop.induct) (subst mark_free_loop.simps, simp)
qed

lemma mark_range_rx:
  "mark_range_used L b z s = Some s' \<Longrightarrow> rx (uart s') = rx (uart s)"
  "mark_range_free L b z s = Some s' \<Longrightarrow> rx (uart s') = rx (uart s)"
  by (auto simp: mark_range_used_def mark_range_free_def bind_eq_Some_conv dest!: kprint_rx split: option.splits)

lemma frame_alloc_init_rx: "frame_alloc_init L params s = Some s' \<Longrightarrow> rx (uart s') = rx (uart s)"
  by (auto simp: frame_alloc_init_def bind_eq_Some_conv Let_def dest!: kprint_rx mark_range_rx split: option.splits)

lemma alloc_frame_rx: "alloc_frame L s = Some (p, s') \<Longrightarrow> rx (uart s') = rx (uart s)"
proof -
  have "alloc_frame_loop L i s = Some (p, s') \<Longrightarrow> rx (uart s') = rx (uart s)" for i
    by (induction L i s rule: alloc_frame_loop.induct)
      (subst (asm) (2) alloc_frame_loop.simps, auto simp: bind_eq_Some_conv Let_def dest!: kprint_rx split: if_splits)
  then show "alloc_frame L s = Some (p, s') \<Longrightarrow> ?thesis" by (simp add: alloc_frame_def)
qed

subsection \<open>The heap\<close>

lemma list_ops_uart [simp]:
  "uart (add_to_free_list b s) = uart s" "uart (remove_from_free_list b s) = uart s" "uart (expand_link b s) = uart s"
  by (simp_all add: add_to_free_list_def remove_from_free_list_def expand_link_def Let_def)

lemma expand_loop_rx: "expand_loop L n nb s = Some (ok, b, s') \<Longrightarrow> rx (uart s') = rx (uart s)"
proof (induction n arbitrary: nb s)
  case (Suc n)
  obtain f t where t: "alloc_frame L s = Some (f, t)" using Suc.prems by (auto simp: bind_eq_Some_conv)
  show ?case
  proof (cases "f = NULL")
    case True
    with Suc.prems t show ?thesis by (auto simp: bind_eq_Some_conv dest!: kprint_rx alloc_frame_rx)
  next
    case False
    with Suc.prems t Suc.IH [of "if nb = NULL then f else nb" "expand_link f t"] show ?thesis
      by (simp add: alloc_frame_rx)
  qed
qed simp

lemma expand_merge_uart: "expand_merge b s = (b', s') \<Longrightarrow> uart s' = uart s"
  by (auto simp: expand_merge_def Let_def split: if_splits)

lemma expand_heap_rx: "expand_heap L z s = Some (ok, s') \<Longrightarrow> rx (uart s') = rx (uart s)"
  by (auto simp: expand_heap_def bind_eq_Some_conv Let_def dest!: expand_loop_rx kprint_rx expand_merge_uart
      simp del: expand_loop.simps split: if_splits prod.splits)

lemma coalesce_next_rx: "coalesce_next b s = Some s' \<Longrightarrow> rx (uart s') = rx (uart s)"
  by (cases "hnext (blk (mem s) b) \<noteq> NULL \<and> is_free (blk (mem s) (hnext (blk (mem s) b)))")
    (auto simp: coalesce_next_def bind_eq_Some_conv Let_def if_distrib [of uart] dest!: kprint_rx cong: if_cong)

lemma coalesce_prev_rx: "coalesce_prev b s = Some (b', s') \<Longrightarrow> rx (uart s') = rx (uart s)"
  by (cases "hprev (blk (mem s) b) \<noteq> NULL \<and> is_free (blk (mem s) (hprev (blk (mem s) b)))")
    (auto simp: coalesce_prev_def bind_eq_Some_conv Let_def if_distrib [of uart] dest!: kprint_rx cong: if_cong)

lemma coalesce_rx: "coalesce b s = Some (b', s') \<Longrightarrow> rx (uart s') = rx (uart s)"
  by (auto simp: coalesce_def bind_eq_Some_conv dest!: coalesce_next_rx coalesce_prev_rx split: if_splits)

lemma kmalloc_take_rx: "kmalloc_take b z s = Some (p, s') \<Longrightarrow> rx (uart s') = rx (uart s)"
  by (auto simp: kmalloc_take_def bind_eq_Some_conv Let_def dest!: kprint_rx split: if_splits)

lemma kmalloc_rx: "kmalloc L z s = Some (p, s') \<Longrightarrow> rx (uart s') = rx (uart s)"
  by (auto simp: kmalloc_def bind_eq_Some_conv Let_def dest!: kprint_rx kmalloc_take_rx expand_heap_rx split: if_splits)

lemma kfree_rx: "kfree p s = Some s' \<Longrightarrow> rx (uart s') = rx (uart s)"
  by (auto simp: kfree_def bind_eq_Some_conv Let_def dest!: kprint_rx coalesce_rx split: if_splits)

lemma kheap_init_rx: "kheap_init L s = Some s' \<Longrightarrow> rx (uart s') = rx (uart s)"
  by (auto simp: kheap_init_def bind_eq_Some_conv Let_def dest!: kprint_rx expand_heap_rx)

end
