(* ===== verification/Shell_Heap.thy ===== *)
theory Shell_Heap
  imports Shell_Cmds Kheap_Spec Receiver
begin

text \<open>
  The shell commands on the heap, and the heap under the rest of the shell: the line buffer,
  the console and the tokeniser's static leave it alone.
\<close>

lemma heap_ok_uart:
  assumes "heap_ok L s" and "tx_drains u"
  shows "heap_ok L (s\<lparr>uart := u\<rparr>)" and "heap_live (s\<lparr>uart := u\<rparr>) = heap_live s"
proof -
  obtain f0 where L: "link_ok L" and f0: "f0 < top_frame s" and inv: "heap_inv L s (heap_blocks s) f0 (top_frame s)"
    by (rule heap_okD [OF assms(1)])
  note ok = heap_okI [OF L heap_inv_uart [OF inv assms(2)] f0]
  show "heap_ok L (s\<lparr>uart := u\<rparr>)" by (rule ok(1))
  show "heap_live (s\<lparr>uart := u\<rparr>) = heap_live s" using ok(2) by (simp add: heap_live_def)
qed

lemma heap_ok_logs:
  fixes s s' :: "'a kheap_state_scheme"
  assumes "logs out s s'" and "heap_ok L s"
  shows "heap_ok L s'" and "heap_live s' = heap_live s" and "mem s' = mem s"
proof -
  obtain u where "s' = s\<lparr>uart := u\<rparr>" using assms(1) by (auto simp: logs_def)
  with logsD(2) [OF assms(1)] heap_ok_uart [OF assms(2)]
  show "heap_ok L s'" "heap_live s' = heap_live s" "mem s' = mem s" by auto
qed

lemma heap_ok_tx: "heap_ok L s \<Longrightarrow> tx_drains (uart s)"
  by (rule heap_okD) (auto dest: heap_invD(3))

lemma heap_room_logs:
  fixes s s' :: "'a kheap_state_scheme"
  assumes "logs out s s'"
  shows "heap_room L z s' = heap_room L z s"
  using assms by (auto simp: logs_def heap_room_def top_frame_def)

lemma heap_grown_logs:
  fixes s s' :: "'a kheap_state_scheme"
  assumes "logs out s s'"
  shows "heap_grown L s s'"
proof -
  obtain u where "s' = s\<lparr>uart := u\<rparr>" using assms by (auto simp: logs_def)
  with heap_grown_uart [of L s u] show ?thesis by simp
qed

lemma logs_rx: "logs out s s' \<Longrightarrow> rx (uart s') = rx (uart s)"
  by (auto simp: logs_def)

lemma queued_rx: "rx u' = rx u \<Longrightarrow> queued u' cs = queued u cs"
  by (simp add: rx_def queued_def rx_arrives_def inp_def)

subsection \<open>Changes elsewhere\<close>

definition heap_area :: "'a kheap_state_scheme \<Rightarrow> u64 set" where
  "heap_area s = {x. unat (heap_start s) \<le> unat x \<and> unat x < 0x40000000 + top_frame s * 4096}"

definition heap_same :: "layout \<Rightarrow> 'a kheap_state_scheme \<Rightarrow> 'a kheap_state_scheme \<Rightarrow> bool" where
  "heap_same L s s' \<longleftrightarrow> free_list_head s' = free_list_head s \<and> heap_start s' = heap_start s \<and>
     heap_end s' = heap_end s \<and> free_memory s' = free_memory s \<and> tx_drains (uart s') \<and>
     (\<forall>x \<in> heap_area s \<union> span (pmm_bitmap_start L) 0x20000. mem s' x = mem s x)"

lemma heap_area_inv:
  assumes "heap_inv L s as f0 k" and "f0 < k"
  shows "heap_area s = region f0 k"
proof -
  note wf = heap_invD(1) [OF assms(1)]
  have as: "as \<noteq> []" using heap_wf_tiles [OF wf] assms(2) by auto
  have "heap_start s = hd as" using wf as by (simp add: heap_wf_def block_list_def)
  moreover have "unat (hd as) = 0x40000000 + f0 * 4096" using heap_wf_tiles [OF wf] as by (cases as) auto
  ultimately show ?thesis using top_frame_inv [OF assms] by (simp add: heap_area_def region_def)
qed

lemma heap_area_region:
  assumes "heap_ok L s"
  obtains f0 where "link_ok L" and "f0 < top_frame s" and "heap_inv L s (heap_blocks s) f0 (top_frame s)"
    and "heap_area s = region f0 (top_frame s)"
  using heap_okD [OF assms] heap_area_inv by metis

lemma heap_live_area:
  assumes "heap_ok L s" and "(q, k) \<in> heap_live s"
  shows "span q k \<subseteq> heap_area s"
proof -
  obtain f0 where f0: "heap_inv L s (heap_blocks s) f0 (top_frame s)" "heap_area s = region f0 (top_frame s)"
    by (rule heap_area_region [OF assms(1)])
  have "q - 48 \<in> set (heap_blocks s)" "k = unat (hsize (blk (mem s) (q - 48)))"
    using assms(2) by (auto simp: heap_live_iff allocs_iff)
  with block_in_region(2) [OF heap_invD(1) [OF f0(1)], of "q - 48"] f0(2) show ?thesis
    by (simp add: data_span_def)
qed

lemma heap_ok_same:
  fixes s s' :: "'a kheap_state_scheme"
  assumes "heap_ok L s" and same: "heap_same L s s'"
  shows "heap_ok L s'" and "heap_live s' = heap_live s" and "heap_area s' = heap_area s"
    and "heap_room L z s' = heap_room L z s" and "top_frame s' = top_frame s"
    and "free_frames L (mem s') = free_frames L (mem s)"
proof -
  obtain f0 where L: "link_ok L" and f0: "f0 < top_frame s" and inv: "heap_inv L s (heap_blocks s) f0 (top_frame s)"
    and area: "heap_area s = region f0 (top_frame s)"
    by (rule heap_area_region [OF assms(1)])
  note I = heap_invD [OF inv]
  let ?as = "heap_blocks s" and ?lo = "0x40000000 + f0 * 4096"
  have eq: "blk (mem s') a = blk (mem s) a" if "a \<in> set ?as" for a
    using same block_in_region(1) [OF I(1) that] area by (intro blk_cong) (auto simp: heap_same_def headers_def)
  have "heap_wf (s\<lparr>mem := mem s'\<rparr>) ?as {} ?lo (0x40000000 + top_frame s * 4096)"
    using heap_wf_mem [of ?as "mem s'" s] eq I(1) by simp
  then have wf: "heap_wf s' ?as {} ?lo (0x40000000 + top_frame s * 4096)"
    using same by (simp add: heap_wf_def heap_same_def)
  have "span (pmm_bitmap_start L) 0x8000 \<subseteq> span (pmm_bitmap_start L) 0x20000" by (auto simp: mem_span)
  then have fr: "free_frames L (mem s') = free_frames L (mem s)"
    using same by (intro free_frames_cong) (auto simp: heap_same_def)
  have "heap_inv L s' ?as f0 (top_frame s)"
    using I wf fr same by (simp add: heap_inv_def heap_same_def pmm_inv_def pmm_acct_def)
  note ok = heap_okI [OF L this f0]
  show "heap_ok L s'" by (rule ok(1))
  have "chunks (mem s') ?as = chunks (mem s) ?as" by (rule chunks_cong) (simp add: eq)
  then show "heap_live s' = heap_live s" using ok(2) by (simp add: heap_live_def allocs_def)
  show "heap_area s' = heap_area s" using ok(3) same by (simp add: heap_area_def heap_same_def)
  obtain c where c: "free_chain s c" "set c \<subseteq> {a \<in> set ?as. is_free (blk (mem s) a)} - {}" "NULL \<notin> set c"
    by (rule heap_wf_free_chain [OF I(1)])
  have "dseg (next_free \<circ> blk (mem s')) (prev_free \<circ> blk (mem s')) NULL c NULL =
      dseg (next_free \<circ> blk (mem s)) (prev_free \<circ> blk (mem s)) NULL c NULL"
    by (rule dseg_cong) (use c(2) eq in auto)
  then have "free_chain s' c" using c(1) same by (simp add: free_chain_def heap_same_def)
  have find: "List.find (\<lambda>a. align8 z \<le> hsize (blk (mem s') a)) c = List.find (\<lambda>a. align8 z \<le> hsize (blk (mem s) a)) c"
    using c(2) eq by (intro find_cong) auto
  have "first_fit (mem s') (free_list_head s') (align8 z) = first_fit (mem s) (free_list_head s) (align8 z)"
    unfolding first_fit_wf [OF wf \<open>free_chain s' c\<close> c(3)] first_fit_wf [OF I(1) c(1,3)] find ..
  then show "heap_room L z s' = heap_room L z s" using ok(3) fr by (simp add: heap_room_def)
  show "top_frame s' = top_frame s" by (rule ok(3))
  show "free_frames L (mem s') = free_frames L (mem s)" by (rule fr)
qed

subsection \<open>alloc and free\<close>

text \<open>The number in the first argument, if there is one.\<close>

definition num_arg :: "u8 list list \<Rightarrow> u64 option" where
  "num_arg ws = (if length ws < 2 then None else number (ws ! 1))"

lemma num_argE:
  assumes "list_all2 (arg m) argv ws" and "\<not> length argv < 2"
  obtains v e where "strtoull m (argv ! 1) 0 = Some (v, e)" and "m e \<noteq> 0 \<longleftrightarrow> num_arg ws = None"
    and "\<forall>n. num_arg ws = Some n \<longrightarrow> v = n" and "arg m (argv ! 1) (ws ! 1)"
proof -
  have "arg m (argv ! 1) (ws ! 1)" using assms(2) by (intro list_all2_nthD [OF assms(1)]) simp
  then show thesis
    using that assms list_all2_lengthD [OF assms(1)] by (rule_tac strtoull_arg) (auto simp: num_arg_def)
qed

lemma cmd_alloc_cases:
  fixes s :: "'a kheap_state_scheme"
  assumes "tx_drains (uart s)" and "list_all2 (arg (mem s)) argv ws"
  shows "case num_arg ws of None \<Rightarrow> quiet (cmd_alloc L argv s) s
    | Some z \<Rightarrow> if z = 0 then quiet (cmd_alloc L argv s) s
      else cmd_alloc L argv s = do {
        (ptr, s) \<leftarrow> kmalloc L z s;
        if ptr \<noteq> NULL then kprint ''Allocated %zu bytes at 0x%p\<newline>'' [VA z, VA ptr] s
        else kprint ''Allocation failed!\<newline>'' [] s }"
proof (cases "length argv < 2")
  case True
  then have "num_arg ws = None" using list_all2_lengthD [OF assms(2)] by (simp add: num_arg_def)
  with True assms(1) show ?thesis by (simp add: cmd_alloc_def quiet_kprint cmd_fits)
next
  case False
  obtain v e where e: "strtoull (mem s) (argv ! 1) 0 = Some (v, e)" "mem s e \<noteq> 0 \<longleftrightarrow> num_arg ws = None"
    "\<forall>n. num_arg ws = Some n \<longrightarrow> v = n" "arg (mem s) (argv ! 1) (ws ! 1)"
    by (rule num_argE [OF assms(2) False])
  have "quiet (kprint ''Error: Invalid size '%s'\<newline>'' [VA (argv ! 1)] s) s"
    using e(4) assms(1) by (auto simp: arg_def intro!: quiet_arg arg_fits)
  with False e show ?thesis by (cases "num_arg ws") (auto simp: cmd_alloc_def)
qed

lemma cmd_free_cases:
  fixes s :: "'a kheap_state_scheme"
  assumes "tx_drains (uart s)" and "list_all2 (arg (mem s)) argv ws"
  shows "case num_arg ws of None \<Rightarrow> quiet (cmd_free argv s) s
    | Some addr \<Rightarrow> cmd_free argv s = do { s \<leftarrow> kprint ''Freeing memory at 0x%p\<newline>'' [VA addr] s; kfree addr s }"
proof (cases "length argv < 2")
  case True
  then have "num_arg ws = None" using list_all2_lengthD [OF assms(2)] by (simp add: num_arg_def)
  with True assms(1) show ?thesis by (simp add: cmd_free_def quiet_kprint cmd_fits)
next
  case False
  obtain v e where e: "strtoull (mem s) (argv ! 1) 0 = Some (v, e)" "mem s e \<noteq> 0 \<longleftrightarrow> num_arg ws = None"
    "\<forall>n. num_arg ws = Some n \<longrightarrow> v = n" "arg (mem s) (argv ! 1) (ws ! 1)"
    by (rule num_argE [OF assms(2) False])
  have "quiet (kprint ''Error: Invalid address format '%s'\<newline>'' [VA (argv ! 1)] s) s"
    using e(4) assms(1) by (auto simp: arg_def intro!: quiet_arg arg_fits)
  with False e show ?thesis by (cases "num_arg ws") (auto simp: cmd_free_def)
qed

text \<open>What the two commands do to the heap, on a heap in order.\<close>

lemma cmd_alloc_effect:
  fixes s :: "'a kheap_state_scheme"
  assumes ok: "heap_ok L s" and "list_all2 (arg (mem s)) argv ws" and "num_arg ws = Some z" and nz: "z \<noteq> 0"
    and room: "heap_room L z s"
  obtains p s' where "cmd_alloc L argv s = Some s'" and "heap_ok L s'" and "heap_grown L s s'" and "rx (uart s') = rx (uart s)"
    and "p = NULL \<Longrightarrow> heap_live s' = heap_live s"
    and "p \<noteq> NULL \<Longrightarrow> \<exists>n \<ge> unat (align8 z). p \<notin> fst ` heap_live s \<and> heap_live s' = insert (p, n) (heap_live s)"
    and "\<And>q k x. (q, k) \<in> heap_live s \<Longrightarrow> x \<in> span q k \<Longrightarrow> mem s' x = mem s x"
proof -
  have cmd: "cmd_alloc L argv s = do {
      (ptr, s) \<leftarrow> kmalloc L z s;
      if ptr \<noteq> NULL then kprint ''Allocated %zu bytes at 0x%p\<newline>'' [VA z, VA ptr] s
      else kprint ''Allocation failed!\<newline>'' [] s }"
    using cmd_alloc_cases [OF heap_ok_tx [OF ok] assms(2), of L] assms(3) nz by simp
  obtain p t where t: "kmalloc L z s = Some (p, t)" using heap.alloc_returns [OF ok room] by blast
  have okt: "heap_ok L t" by (rule heap.alloc_ok [OF ok room t])
  have grt: "heap_grown L s t" by (rule heap_alloc_effect [OF ok room]) (use t in simp)
  have "quiet (if p \<noteq> NULL then kprint ''Allocated %zu bytes at 0x%p\<newline>'' [VA z, VA p] t
      else kprint ''Allocation failed!\<newline>'' [] t) t"
    using heap_ok_tx [OF okt] by (simp add: quiet_kprint cmd_fits)
  then obtain s' out where s': "cmd_alloc L argv s = Some s'" "logs out t s'"
    using cmd t by (auto elim: quietE)
  note same = heap_ok_logs [OF s'(2) okt]
  show thesis
    by (rule that [OF s'(1) same(1) heap_grown_trans [OF grt heap_grown_logs [OF s'(2)]], of p])
      (use same heap.alloc_null [OF ok room] heap.alloc_live [OF ok room] heap.alloc_keeps [OF ok room] t logs_rx [OF s'(2)] kmalloc_rx [OF t] in auto)
qed

lemma cmd_free_effect:
  fixes s :: "'a kheap_state_scheme"
  assumes ok: "heap_ok L s" and "list_all2 (arg (mem s)) argv ws" and "num_arg ws = Some p" and p: "(p, n) \<in> heap_live s"
  obtains s' where "cmd_free argv s = Some s'" and "heap_ok L s'" and "heap_grown L s s'" and "rx (uart s') = rx (uart s)" and "heap_live s' = heap_live s - {(p, n)}"
    and "\<And>q k x. (q, k) \<in> heap_live s - {(p, n)} \<Longrightarrow> x \<in> span q k \<Longrightarrow> mem s' x = mem s x"
proof -
  have cmd: "cmd_free argv s = do { s \<leftarrow> kprint ''Freeing memory at 0x%p\<newline>'' [VA p] s; kfree p s }"
    using cmd_free_cases [OF heap_ok_tx [OF ok] assms(2)] assms(3) by simp
  obtain t out where t: "kprint ''Freeing memory at 0x%p\<newline>'' [VA p] s = Some t" "logs out s t"
    by (rule kprint_fits_logs [OF cmd_fits(22) heap_ok_tx [OF ok]])
  note same = heap_ok_logs [OF t(2) ok]
  obtain s' where s': "kfree p t = Some s'" "heap_ok L s'" "heap_live s' = heap_live t - {(p, n)}"
    "\<forall>(q, k) \<in> heap_live s'. \<forall>x \<in> span q k. mem s' x = mem t x"
    using heap.release_live [OF same(1), of p n] p same(2) by auto
  have keep: "mem s' x = mem s x" if "(q, k) \<in> heap_live s - {(p, n)}" "x \<in> span q k" for q k x
    using s'(3,4) same(2,3) that by fastforce
  have pt: "(p, n) \<in> heap_live t" using p same(2) by simp
  have "heap_grown L t s'" by (rule heap_release_effect [OF same(1) pt]) (use s'(1) in simp)
  note gr = heap_grown_trans [OF heap_grown_logs [OF t(2)] this]
  show thesis
    by (rule that [OF _ s'(2) gr _ _ keep]) (use cmd t(1) s' same logs_rx [OF t(2)] kfree_rx [OF s'(1)] in auto)
qed

text \<open>Stores into live areas, byte by byte.\<close>

lemma heap_store:
  fixes s :: "'a kheap_state_scheme"
  shows "heap_ok L s \<Longrightarrow> n \<le> 8 \<Longrightarrow> \<forall>x \<in> span a n. \<exists>(p, k) \<in> heap_live s. x \<in> span p k \<Longrightarrow>
    heap_ok L (s\<lparr>mem := store_le n (mem s) a v\<rparr>) \<and> heap_live (s\<lparr>mem := store_le n (mem s) a v\<rparr>) = heap_live s \<and>
    heap_grown L s (s\<lparr>mem := store_le n (mem s) a v\<rparr>)"
proof (induction n arbitrary: s a v)
  case (Suc n)
  have "a \<in> span a (Suc n)" by (simp add: mem_span)
  then obtain p k where "(p, k) \<in> heap_live s" "a \<in> span p k" using Suc.prems(3) by blast
  from heap_poke [OF Suc.prems(1) this, of "ucast v"]
  have s1: "heap_ok L (poke_mem a (ucast v) s)" "heap_live (poke_mem a (ucast v) s) = heap_live s"
    "heap_grown L s (poke_mem a (ucast v) s)" by simp_all
  have "\<exists>(p, k) \<in> heap_live s. x \<in> span p k" if "x \<in> span (a + 1) n" for x
  proof -
    have "x \<in> span a (Suc n)" using that by (cases "x = a") (simp_all add: mem_span unat_sub_Suc)
    then show ?thesis using Suc.prems(3) by blast
  qed
  with Suc.IH [OF s1(1), of "a + 1" "drop_bit 8 v"] Suc.prems(2) s1(2) heap_grown_trans [OF s1(3)] show ?case
    by (simp add: poke_mem_def fun_upd_def)
qed simp

end
