(* ===== verification/Shell_Spec.thy ===== *)
theory Shell_Spec
  imports Shell_Heap
begin

text \<open>
  A whole turn of the shell.  \<open>objs_ok\<close> is what the linker guarantees of the shell's objects:
  the line buffer does not wrap and overlaps neither the command names nor the delimiter;
  \<open>strings_ok\<close> says that the constant strings still hold their contents.
\<close>

fun cmd_name :: "cmd \<Rightarrow> string" where
  "cmd_name Cmd_help = ''help''"
| "cmd_name Cmd_memdump = ''memdump''"
| "cmd_name Cmd_peek = ''peek''"
| "cmd_name Cmd_poke = ''poke''"
| "cmd_name Cmd_alloc = ''alloc''"
| "cmd_name Cmd_free = ''free''"
| "cmd_name Cmd_pmm_info = ''pmm_info''"

definition all_cmds :: "cmd list" where
  "all_cmds = [Cmd_help, Cmd_memdump, Cmd_peek, Cmd_poke, Cmd_alloc, Cmd_free, Cmd_pmm_info]"

definition lookup :: "u8 list \<Rightarrow> cmd option" where
  "lookup w = List.find (\<lambda>c. bytes (cmd_name c) = w) all_cmds"

definition objs_ok :: "shell_objs \<Rightarrow> bool" where
  "objs_ok E \<longleftrightarrow> cmd_buffer E \<noteq> NULL \<and> unat (cmd_buffer E) + 128 \<le> 2 ^ 64 \<and>
     span (space_at E) 2 \<inter> span (cmd_buffer E) 128 = {} \<and>
     (\<forall>c \<in> set all_cmds. name_at E c \<noteq> NULL \<and> span (name_at E c) 9 \<inter> span (cmd_buffer E) 128 = {})"

definition strings_ok :: "shell_objs \<Rightarrow> mem \<Rightarrow> bool" where
  "strings_ok E m \<longleftrightarrow> cstr m (space_at E) [32] \<and>
     (\<forall>c \<in> set all_cmds. cstr m (name_at E c) (bytes (cmd_name c)))"

lemma cmd_in_all: "c \<in> set all_cmds"
  by (cases c) (simp_all add: all_cmds_def)

lemma cmd_name_length: "length (cmd_name c) \<le> 8"
  by (cases c) simp_all

lemma lookup_name: "lookup (bytes (cmd_name c)) = Some c"
  by (cases c) (simp_all add: lookup_def all_cmds_def)

lemma lookup_Some: "lookup w = Some c \<longleftrightarrow> w = bytes (cmd_name c)"
proof
  assume "lookup w = Some c"
  then show "w = bytes (cmd_name c)" by (auto simp: lookup_def find_Some_iff)
qed (simp add: lookup_name)

lemma strings_ok_cong:
  assumes "\<And>x. x \<in> span (space_at E) 2 \<Longrightarrow> m' x = m x"
    and "\<And>c x. c \<in> set all_cmds \<Longrightarrow> x \<in> span (name_at E c) 9 \<Longrightarrow> m' x = m x"
  shows "strings_ok E m' = strings_ok E m"
proof -
  have "cstr m' (space_at E) [32] = cstr m (space_at E) [32]"
    by (rule cstr_cong) (use assms(1) in \<open>auto simp: mem_span\<close>)
  moreover have "cstr m' (name_at E c) (bytes (cmd_name c)) = cstr m (name_at E c) (bytes (cmd_name c))"
    if c: "c \<in> set all_cmds" for c
  proof (rule cstr_cong)
    fix x assume "x \<in> span (name_at E c) (Suc (length (bytes (cmd_name c))))"
    then have "x \<in> span (name_at E c) 9" using cmd_name_length [of c] by (simp add: mem_span)
    then show "m' x = m x" by (rule assms(2) [OF c])
  qed (use cmd_name_length [of c] in simp)
  ultimately show ?thesis by (simp add: strings_ok_def)
qed

lemma strings_ok_keep:
  assumes "objs_ok E" and "strings_ok E m" and "\<forall>x. x \<notin> span (cmd_buffer E) 128 \<longrightarrow> m' x = m x"
  shows "strings_ok E m'"
proof -
  have "strings_ok E m' = strings_ok E m" by (rule strings_ok_cong) (use assms in \<open>auto simp: objs_ok_def\<close>)
  with assms(2) show ?thesis by simp
qed

subsection \<open>Dispatch\<close>

lemma command_table_all: "command_table E = map (\<lambda>c. (name_at E c, Some c)) all_cmds @ [(NULL, None)]"
  by (simp add: command_table_def all_cmds_def)

lemma arg_logs: "logs out s s' \<Longrightarrow> arg (mem s') a w = arg (mem s) a w"
  by (simp add: logsD(1))

lemma dispatch_find:
  fixes s :: "'a kheap_state_scheme"
  assumes "objs_ok E"
  shows "strings_ok E (mem s) \<Longrightarrow> tx_drains (uart s) \<Longrightarrow> arg (mem s) (argv ! 0) w \<Longrightarrow>
   case List.find (\<lambda>c. bytes (cmd_name c) = w) cs of
     None \<Rightarrow> \<exists>s' out. dispatch L argv (map (\<lambda>c. (name_at E c, Some c)) cs @ [(NULL, None)]) s = Some (False, s') \<and> logs out s s'
   | Some c \<Rightarrow> \<exists>s' out. logs out s s' \<and> dispatch L argv (map (\<lambda>c. (name_at E c, Some c)) cs @ [(NULL, None)]) s
       = map_option (\<lambda>t. (True, t)) (run_cmd L c argv s')"
proof (induction cs arbitrary: s)
  case Nil
  then have "logs [] s s" by simp
  then show ?case by (simp del: logs_refl) blast
next
  case (Cons c cs)
  have nm: "arg (mem s) (name_at E c) (bytes (cmd_name c))" "0 \<notin> set (bytes (cmd_name c))"
    using Cons.prems(1) assms cmd_in_all [of c] cmd_name_length [of c]
    by (auto simp: strings_ok_def objs_ok_def arg_def cstr_iff)
  have "quiet (kprint ''Comparing with command: '%s'\<newline>'' [VA (name_at E c)] s) s"
    using nm Cons.prems(2) cmd_name_length [of c] by (intro quiet_arg [OF nm(1)] arg_fits) auto
  then obtain s1 o1 where s1: "kprint ''Comparing with command: '%s'\<newline>'' [VA (name_at E c)] s = Some s1" "logs o1 s s1"
    by (rule quietE)
  have w: "0 \<notin> set w" using Cons.prems(3) by (simp add: arg_def cstr_iff)
  have "strcmp (mem s1) (argv ! 0) (name_at E c) = Some (byte_diff w (bytes (cmd_name c)))"
    using Cons.prems(3) nm(1) logsD(1) [OF s1(2)] by (intro strcmp_cstr) (simp_all add: arg_def)
  moreover have "byte_diff w (bytes (cmd_name c)) = 0 \<longleftrightarrow> bytes (cmd_name c) = w"
    using byte_diff_0 [OF w nm(2)] by auto
  moreover have "name_at E c \<noteq> NULL" using nm by (simp add: arg_def)
  ultimately have step: "dispatch L argv (map (\<lambda>c. (name_at E c, Some c)) (c # cs) @ [(NULL, None)]) s =
      (if bytes (cmd_name c) = w then do {
         s \<leftarrow> kprint ''Match found! Executing...\<newline>'' [] s1;
         s \<leftarrow> run_cmd L c argv s;
         Some (True, s) }
       else dispatch L argv (map (\<lambda>c. (name_at E c, Some c)) cs @ [(NULL, None)]) s1)"
    using s1(1) by simp
  show ?case
  proof (cases "bytes (cmd_name c) = w")
    case True
    obtain s2 o2 where s2: "kprint ''Match found! Executing...\<newline>'' [] s1 = Some s2" "logs o2 s1 s2"
      by (rule kprint_fits_logs [OF cmd_fits(23) logs_tx [OF s1(2)]])
    have "dispatch L argv (map (\<lambda>c. (name_at E c, Some c)) (c # cs) @ [(NULL, None)]) s
        = map_option (\<lambda>t. (True, t)) (run_cmd L c argv s2)"
      unfolding step using True s2(1) by (cases "run_cmd L c argv s2") simp_all
    with True logs_trans [OF s1(2) s2(2)] show ?thesis by auto
  next
    case False
    have "strings_ok E (mem s1)" "tx_drains (uart s1)" "arg (mem s1) (argv ! 0) w"
      using Cons.prems logsD(1,2) [OF s1(2)] by simp_all
    from Cons.IH [OF this] False show ?thesis
      unfolding step by (auto split: option.splits intro: logs_trans [OF s1(2)])
  qed
qed

lemma execute_lookup:
  fixes s :: "'a shell_state_scheme"
  assumes "objs_ok E" and "strings_ok E (mem s)" and "commands s = command_table E" and "tx_drains (uart s)"
    and "arg (mem s) (argv ! 0) w"
  shows "case lookup w of None \<Rightarrow> quiet (execute L argv s) s
    | Some c \<Rightarrow> \<exists>s' out. logs out s s' \<and> execute L argv s = run_cmd L c argv s'"
proof -
  have w: "length w < 128" using assms(5) by (simp add: arg_def)
  have "quiet (kprint ''Command entered: '%s'\<newline>'' [VA (argv ! 0)] s) s"
    by (rule quiet_arg [OF assms(5) arg_fits(6) [OF w] assms(4)])
  then obtain s1 o1 where s1: "kprint ''Command entered: '%s'\<newline>'' [VA (argv ! 0)] s = Some s1" "logs o1 s s1"
    by (rule quietE)
  have p: "strings_ok E (mem s1)" "tx_drains (uart s1)" "arg (mem s1) (argv ! 0) w"
    using assms logsD(1,2) [OF s1(2)] by simp_all
  have c1: "commands s1 = command_table E" using assms(3) s1(2) by (auto simp: logs_def)
  note d = dispatch_find [OF assms(1) p, where cs = all_cmds and L = L, folded lookup_def command_table_all]
  show ?thesis
  proof (cases "lookup w")
    case None
    with d obtain s2 o2 where s2: "dispatch L argv (command_table E) s1 = Some (False, s2)" "logs o2 s1 s2" by auto
    have "quiet (kprint ''Unknown command: %s\<newline>'' [VA (argv ! 0)] s2) s2"
      using p(3) logsD(1) [OF s2(2)] logs_tx [OF s2(2)] by (intro quiet_arg [OF _ arg_fits(7) [OF w]]) simp_all
    then obtain s3 o3 where "kprint ''Unknown command: %s\<newline>'' [VA (argv ! 0)] s2 = Some s3" "logs o3 s2 s3" by (rule quietE)
    with None s1(1) s2(1) c1 logs_trans [OF s1(2) logs_trans [OF s2(2) this(2)]] show ?thesis
      by (auto simp: quiet_def execute_def)
  next
    case (Some c)
    with d obtain s2 o2 where s2: "dispatch L argv (command_table E) s1 = map_option (\<lambda>t. (True, t)) (run_cmd L c argv s2)"
      "logs o2 s1 s2" by auto
    then have "execute L argv s = run_cmd L c argv s2"
      using s1(1) c1 by (cases "run_cmd L c argv s2") (simp_all add: execute_def)
    with Some logs_trans [OF s1(2) s2(2)] show ?thesis by auto
  qed
qed

subsection \<open>One turn\<close>

text \<open>Everything but the line buffer, the console and the tokeniser's static is as before.\<close>

definition line_only :: "shell_objs \<Rightarrow> 'a lib_state_scheme \<Rightarrow> 'a lib_state_scheme \<Rightarrow> bool" where
  "line_only E s s' \<longleftrightarrow> s' = s\<lparr>mem := mem s', uart := uart s', strtok_last := strtok_last s'\<rparr> \<and>
     tx_drains (uart s') \<and> (\<forall>x. x \<notin> span (cmd_buffer E) 128 \<longrightarrow> mem s' x = mem s x)"

lemma line_only_trans: "line_only E s t \<Longrightarrow> line_only E t u \<Longrightarrow> line_only E s u"
  by (cases s, cases t, cases u) (simp add: line_only_def)

lemma line_only_io:
  fixes s s' :: "'a lib_state_scheme"
  assumes "io_only (span (cmd_buffer E) 128) s s'" and "tx_drains (uart s')"
  shows "line_only E s s'"
  using assms by (cases s, cases s') (simp add: line_only_def io_only_def)

lemma line_only_logs:
  fixes s s' :: "'a lib_state_scheme"
  shows "logs out s s' \<Longrightarrow> line_only E s s'"
  using line_only_io logs_io logs_tx by metis

lemma line_only_commands:
  fixes s s' :: "'a shell_state_scheme"
  shows "line_only E s s' \<Longrightarrow> commands s' = commands s"
  by (cases s, cases s') (simp add: line_only_def)

text \<open>Reading the line into the buffer.\<close>

lemma round_reads:
  fixes s :: "'a shell_state_scheme"
  assumes "tx_drains (uart s)" and "queued (uart s) keys" and "edit [] keys = Some (line, rest)"
  obtains s1 where "shell_round L E s = (if line = [] then Some s1 else do {
      (argv, s) \<leftarrow> parse_line E s1; if argv = [] then Some s else execute L argv s })"
    and "cstr (mem s1) (cmd_buffer E) line" and "length line < 128" and "line_only E s s1"
    and "queued (uart s1) rest"
proof -
  let ?b = "cmd_buffer E"
  obtain s1 where s1: "kprint ''> '' [] s = Some s1" "logs (bytes ''> '') s s1"
    by (rule kprint_verbatim [OF keys_fit(1) assms(1)])
  define s2 where "s2 = s1\<lparr>mem := memset (mem s1) ?b 0 128\<rparr>"
  have io2: "io_only (span ?b 128) s1 s2" by (auto simp: io_only_def s2_def memset_eq mem_span)
  have tx2: "tx_drains (uart s2)" "queued (uart s2) keys"
    using logsD(2) [OF s1(2)] logs_queued [OF s1(2), of keys] assms(2) by (simp_all add: s2_def)
  obtain s3 where s3: "read_line E 0 s2 = Some (length line, s3)" "bytes_at (mem s3) ?b line"
    "queued (uart s3) rest" "tx_drains (uart s3)" "io_only (span ?b 127) s2 s3"
    using read_line_edit [OF assms(3) tx2(2,1)] by auto
  have line: "length line \<le> 127" "list_all printable line" using edit_props [OF assms(3)] by simp_all
  then have nz: "0 \<notin> set line" by (auto simp: list_all_iff printable_def)
  define s4 where "s4 = s3\<lparr>mem := (mem s3)(?b + of_nat (length line) := 0)\<rparr>"
  have b: "?b + of_nat (length line) \<in> span ?b 128" using line(1) by (simp add: mem_span unat_of_nat64)
  then have io4: "io_only (span ?b 128) s3 s4" by (auto simp: io_only_def s4_def)
  have io3: "io_only (span ?b 128) s2 s3" using s3(5) by (rule io_only_mono) (auto simp: mem_span)
  have c: "cstr (mem s4) ?b line"
  proof -
    have "bytes_at (mem s4) ?b line = bytes_at (mem s3) ?b line"
      using line(1) by (intro bytes_at_cong) (auto simp: s4_def mem_span unat_of_nat64)
    with s3(2) nz show ?thesis by (simp add: cstr_iff s4_def)
  qed
  have "io_only (span ?b 128) s s4"
    using io_only_trans [OF logs_io [OF s1(2)] io_only_trans [OF io2 io_only_trans [OF io3 io4]]] .
  then have "line_only E s s4" using s3(4) by (intro line_only_io) (simp_all add: s4_def)
  moreover have "shell_round L E s = (if line = [] then Some s4 else do {
      (argv, s) \<leftarrow> parse_line E s4; if argv = [] then Some s else execute L argv s })"
    using s1(1) s3(1) by (simp add: shell_round_def MAX_CMD_LEN_def s2_def [symmetric] s4_def [symmetric])
  ultimately show thesis using that c line(1) s3(3) by (simp add: s4_def)
qed

lemma shell_round_runs:
  fixes s :: "'a shell_state_scheme"
  assumes E: "objs_ok E" "strings_ok E (mem s)" "commands s = command_table E"
    and "tx_drains (uart s)" and "queued (uart s) keys" and "edit [] keys = Some (line, rest)"
  obtains s1 where "line_only E s s1" and "queued (uart s1) rest" and "strings_ok E (mem s1)"
    and "words line = [] \<or> lookup (hd (words line)) = None \<longrightarrow> shell_round L E s = Some s1"
    and "\<forall>c. words line \<noteq> [] \<longrightarrow> lookup (hd (words line)) = Some c \<longrightarrow>
      (\<exists>argv. list_all2 (arg (mem s1)) argv (take 10 (words line)) \<and> shell_round L E s = run_cmd L c argv s1)"
proof -
  obtain t where t: "shell_round L E s = (if line = [] then Some t else do {
      (argv, s) \<leftarrow> parse_line E t; if argv = [] then Some s else execute L argv s })"
    "cstr (mem t) (cmd_buffer E) line" "length line < 128" "line_only E s t" "queued (uart t) rest"
    by (rule round_reads [OF assms(4-6)])
  have st: "strings_ok E (mem t)" using strings_ok_keep [OF E(1,2)] t(4) by (simp add: line_only_def)
  show thesis
  proof (cases "line = []")
    case True
    then show thesis using that [of t] t st by (simp add: words_blank)
  next
    case False
    obtain argv u where u: "parse_line E t = Some (argv, u)" "u = t\<lparr>mem := mem u, strtok_last := strtok_last u\<rparr>"
      "\<forall>x. x \<notin> span (cmd_buffer E) 128 \<longrightarrow> mem u x = mem t x"
      "list_all2 (\<lambda>a w. a \<noteq> NULL \<and> cstr (mem u) a w \<and> length w < 128) argv (take 10 (words line))"
      by (rule parse_line_words [OF t(2)]) (use st E(1) t(3) in \<open>auto simp: strings_ok_def objs_ok_def\<close>)
    have uu: "uart u = uart t" using arg_cong [OF u(2), of uart] by simp
    have lo: "line_only E t u" using u(2,3) t(4) uu by (simp add: line_only_def)
    note lou = line_only_trans [OF t(4) lo]
    have args: "list_all2 (arg (mem u)) argv (take 10 (words line))" using u(4) by (simp add: arg_def [abs_def])
    have su: "strings_ok E (mem u)" by (rule strings_ok_keep [OF E(1) st u(3)])
    have r: "shell_round L E s = (if argv = [] then Some u else execute L argv u)" using t(1) u(1) False by simp
    show thesis
    proof (cases "words line")
      case Nil
      then have "argv = []" using args by simp
      then show thesis using that [OF lou _ su] r Nil t(5) uu by simp
    next
      case (Cons w ws)
      then obtain a as where a: "argv = a # as" "arg (mem u) a w" using args by (auto simp: list_all2_Cons2)
      have ex: "case lookup w of None \<Rightarrow> quiet (execute L argv u) u
          | Some c \<Rightarrow> \<exists>s' out. logs out u s' \<and> execute L argv u = run_cmd L c argv s'"
        using execute_lookup [OF E(1) su, of argv w L] a lou line_only_commands [OF lou] E(3)
        by (simp add: line_only_def)
      then obtain v out where v: "logs out u v" "lookup w = None \<longrightarrow> execute L argv u = Some v"
        "\<forall>c. lookup w = Some c \<longrightarrow> execute L argv u = run_cmd L c argv v"
        by (cases "lookup w") (auto simp: quiet_def)
      note m = logsD(1) [OF v(1)]
      show thesis
        by (rule that [OF line_only_trans [OF lou line_only_logs [OF v(1)]]])
          (use v(2,3) r a(1) Cons t(5) uu logs_queued [OF v(1), of rest] m args su in auto)
    qed
  qed
qed

subsection \<open>The heap under the shell\<close>

text \<open>
  The commands that keep the heap in order: those that only read; an allocation that does not
  grow the heap across a gap (\<open>heap_room\<close>); the release of an address it handed out; and a store into memory
  it handed out.
\<close>

fun harmless :: "layout \<Rightarrow> cmd \<Rightarrow> u8 list list \<Rightarrow> 'a kheap_state_scheme \<Rightarrow> bool" where
  "harmless L Cmd_memdump ws s = (\<forall>addr len. dump_ref ws = Some (addr, len) \<longrightarrow> unat addr + unat len \<le> 2 ^ 64)"
| "harmless L Cmd_poke ws s = (\<forall>addr val n. poke_ref ws s = Some (addr, val, n) \<longrightarrow>
     (\<forall>x \<in> span addr (unat n). \<exists>(p, k) \<in> heap_live s. x \<in> span p k))"
| "harmless L Cmd_alloc ws s = (\<forall>z. num_arg ws = Some z \<longrightarrow> heap_room L z s)"
| "harmless L Cmd_free ws s = (\<forall>p. num_arg ws = Some p \<longrightarrow> p \<in> fst ` heap_live s)"
| "harmless L c ws s = True"

text \<open>The bytes a command may change: those a poke stores to.\<close>

definition poked :: "cmd \<Rightarrow> u8 list list \<Rightarrow> 'a pmm_state_scheme \<Rightarrow> u64 set" where
  "poked c ws s = (if c = Cmd_poke then case poke_ref ws s of None \<Rightarrow> {} | Some (addr, val, n) \<Rightarrow> span addr (unat n) else {})"

definition heap_step :: "layout \<Rightarrow> u64 set \<Rightarrow> 'a kheap_state_scheme \<Rightarrow> 'a kheap_state_scheme option \<Rightarrow> bool" where
  "heap_step L X s r \<longleftrightarrow> (\<exists>s'. r = Some s' \<and> heap_ok L s' \<and> heap_grown L s s' \<and> rx (uart s') = rx (uart s) \<and>
     (\<forall>(q, k) \<in> heap_live s \<inter> heap_live s'. \<forall>x \<in> span q k - X. mem s' x = mem s x))"

lemma heap_step_quiet:
  fixes s :: "'a kheap_state_scheme"
  assumes "heap_ok L s" and "quiet r s"
  shows "heap_step L X s r"
  using assms(2) heap_ok_logs [OF _ assms(1)] heap_grown_logs [of _ s] logs_rx [of _ s] by (fastforce simp: quiet_def heap_step_def)

lemma poke_ref_size: "poke_ref ws s = Some (addr, val, n) \<Longrightarrow> unat n \<le> 8"
  by (auto simp: poke_ref_def bind_eq_Some_conv size_word_def size_bytes_def split: if_splits)

lemma run_cmd_heap:
  fixes s :: "'a kheap_state_scheme"
  assumes ok: "heap_ok L s" and args: "list_all2 (arg (mem s)) argv ws" and h: "harmless L c ws s"
    and hi: "unat (highest_usable_address s) \<le> 2 ^ 63"
  shows "heap_step L (poked c ws s) s (run_cmd L c argv s)"
proof (cases c)
  case Cmd_memdump
  have "quiet (cmd_memdump argv s) s"
  proof (cases "dump_ref ws")
    case None
    then show ?thesis using cmd_memdump_cases [OF heap_ok_tx [OF ok] args] by simp
  next
    case (Some r)
    then obtain addr len where r: "dump_ref ws = Some (addr, len)" by (cases r) auto
    then have "unat addr + unat len \<le> 2 ^ 64" using h Cmd_memdump by simp
    from is_address_valid_nat [OF this, of s] hi have "quiet (dump_range addr len s) s"
      by (intro dump_range_quiet heap_ok_tx [OF ok]) auto
    then show ?thesis using cmd_memdump_cases [OF heap_ok_tx [OF ok] args] r by simp
  qed
  then show ?thesis using heap_step_quiet [OF ok] Cmd_memdump by simp
next
  case Cmd_poke
  obtain out s1 where s1: "logs out s s1" "cmd_poke argv s = Some (case poke_ref ws s of None \<Rightarrow> s1
      | Some (addr, val, n) \<Rightarrow> s1\<lparr>mem := store_le (unat n) (mem s) addr val\<rparr>)"
    using cmd_poke_pokes [OF heap_ok_tx [OF ok] args] by (auto simp: pokes_def)
  note same = heap_ok_logs [OF s1(1) ok] and gr = heap_grown_logs [OF s1(1)] and r1 = logs_rx [OF s1(1)]
  show ?thesis
  proof (cases "poke_ref ws s")
    case None
    then show ?thesis using s1 same gr r1 Cmd_poke by (auto simp: heap_step_def)
  next
    case (Some r)
    then obtain addr val n where r: "poke_ref ws s = Some (addr, val, n)" by (cases r) auto
    have "\<forall>x \<in> span addr (unat n). \<exists>(p, k) \<in> heap_live s1. x \<in> span p k" using h Cmd_poke r same(2) by simp
    from heap_store [OF same(1) poke_ref_size [OF r] this, of val] heap_grown_trans [OF gr] r1 same(3) s1(2) r Cmd_poke
    show ?thesis by (auto simp: heap_step_def poked_def store_le_eq [OF poke_ref_size [OF r]] mem_span)
  qed
next
  case Cmd_alloc
  show ?thesis
  proof (cases "num_arg ws = None \<or> num_arg ws = Some 0")
    case True
    then have "quiet (cmd_alloc L argv s) s" using cmd_alloc_cases [OF heap_ok_tx [OF ok] args, of L] by auto
    then show ?thesis using heap_step_quiet [OF ok] Cmd_alloc by simp
  next
    case False
    then obtain z where z: "num_arg ws = Some z" "z \<noteq> 0" "heap_room L z s" using h Cmd_alloc by auto
    show ?thesis
      by (rule cmd_alloc_effect [OF ok args z]) (use Cmd_alloc in \<open>auto simp: heap_step_def\<close>)
  qed
next
  case Cmd_free
  show ?thesis
  proof (cases "num_arg ws")
    case None
    then have "quiet (cmd_free argv s) s" using cmd_free_cases [OF heap_ok_tx [OF ok] args] by simp
    then show ?thesis using heap_step_quiet [OF ok] Cmd_free by simp
  next
    case (Some p)
    then obtain n where "(p, n) \<in> heap_live s" using h Cmd_free by force
    then obtain s' where s': "cmd_free argv s = Some s'" "heap_ok L s'" "heap_grown L s s'" "rx (uart s') = rx (uart s)"
      "heap_live s' = heap_live s - {(p, n)}"
      "\<forall>q k x. (q, k) \<in> heap_live s - {(p, n)} \<longrightarrow> x \<in> span q k \<longrightarrow> mem s' x = mem s x"
      by (rule cmd_free_effect [OF ok args Some]) blast
    then show ?thesis using Cmd_free by (auto simp: heap_step_def)
  qed
next
  case Cmd_peek
  then show ?thesis using heap_step_quiet [OF ok cmd_peek_quiet [OF heap_ok_tx [OF ok] args]] by simp
qed (use heap_step_quiet [OF ok cmd_help_quiet [OF heap_ok_tx [OF ok]]]
    heap_step_quiet [OF ok cmd_pmm_info_quiet [OF heap_ok_tx [OF ok]]] in simp_all)

end
