(* ===== verification/Kernel.thy ===== *)
theory Kernel
  imports Shell_Spec
begin

text \<open>
  The kernel's entry point, \<open>kernel_main\<close> of \<open>src/src/boot/kernel.c\<close>, and what holds when the
  shell starts.  \<open>kernel_main L E params n\<close> is the machine after \<open>n\<close> turns of the shell; what
  follows the call of \<open>shell_loop\<close> in the source is never reached.
\<close>

definition print_sections :: "layout \<Rightarrow> 'a machine_scheme \<Rightarrow> 'a machine_scheme option" where
  "print_sections L s = do {
     s \<leftarrow> kprint ''Memory Sections:\<newline>'' [] s;
     s \<leftarrow> kprint ''  .text:   %p to %p\<newline>'' [VA (kernel_start L), VA (text_end L)] s;
     s \<leftarrow> kprint ''  .rodata: %p to %p (load: %p)\<newline>'' [VA (rodata_start L), VA (rodata_end L), VA (rodata_load L)] s;
     s \<leftarrow> kprint ''  .data:   %p to %p (load: %p)\<newline>'' [VA (data_start L), VA (data_end L), VA (data_load L)] s;
     kprint ''  .bss:    %p to %p\<newline>'' [VA (bss_start L), VA (bss_end L)] s }"

definition kernel_main ::
  "layout \<Rightarrow> shell_objs \<Rightarrow> KERNEL_BOOT_PARAMS option \<Rightarrow> nat \<Rightarrow> 'a shell_state_scheme \<Rightarrow> 'a shell_state_scheme option" where
  "kernel_main L E params n s = do {
     s \<leftarrow> kprint ''MeringueOS starting...\<newline>'' [] s;
     s \<leftarrow> kprint ''Kernel loaded at physical address: 0x%llx\<newline>''
       [VA (case params of Some p \<Rightarrow> kernel_phys_start p | None \<Rightarrow> 0)] s;
     s \<leftarrow> print_sections L s;
     s \<leftarrow> kprint ''Initializing Physical Memory Manager...\<newline>'' [] s;
     s \<leftarrow> frame_alloc_init L params s;
     s \<leftarrow> kprint ''Initializing Kernel Heap Allocator...\<newline>'' [] s;
     s \<leftarrow> kheap_init L s;
     s \<leftarrow> kprint ''Initializing TUI subsystem...\<newline>'' [] s;
     (r, s) \<leftarrow> tui_init s;
     s \<leftarrow> (if r \<noteq> 0 then kprint ''Failed to initialize TUI subsystem!\<newline>'' [] s else Some s);
     s \<leftarrow> kprint ''Starting shell...\<newline>'' [] s;
     shell_loop L E n s }"

subsection \<open>The start of the shell\<close>

lemma kernel_fits:
  "fits ''MeringueOS starting...\<newline>'' []" "fits ''Kernel loaded at physical address: 0x%llx\<newline>'' [VA a]"
  "fits ''Memory Sections:\<newline>'' []" "fits ''  .text:   %p to %p\<newline>'' [VA a, VA b]"
  "fits ''  .rodata: %p to %p (load: %p)\<newline>'' [VA a, VA b, VA c]"
  "fits ''  .data:   %p to %p (load: %p)\<newline>'' [VA a, VA b, VA c]" "fits ''  .bss:    %p to %p\<newline>'' [VA a, VA b]"
  "fits ''Initializing Physical Memory Manager...\<newline>'' []" "fits ''Initializing Kernel Heap Allocator...\<newline>'' []"
  "fits ''Initializing TUI subsystem...\<newline>'' []" "fits ''Starting shell...\<newline>'' []"
  "fits ''\<newline>MeringueOS Shell\<newline>'' []" "fits ''Type 'help' for available commands.\<newline>'' []"
  "fits ''Command table initialized:\<newline>'' []" "fits ''Command table at %p:\<newline>'' [VA a]"
  "fits ''Debug: .rodata section address range: %p to %p\<newline>'' [VA a, VA b]"
  "fits ''TUI: Initializing...\<newline>'' []" "fits ''TUI: Using fallback console mode (no framebuffer)\<newline>'' []"
  by (simp_all add: fits_def modifiers_def)

lemma quiet_args:
  assumes "list_all2 (denotes (mem s)) args args'" and "fits f args'" and "tx_drains (uart s)"
  shows "quiet (kprint f args s) s"
  by (rule kprint_denotes [OF assms]) (auto simp: quiet_def)

lemma name_denotes:
  assumes "objs_ok E" and "strings_ok E m"
  shows "denotes m (VA (name_at E c)) (VStr (bytes (cmd_name c)))"
    and "cstr m (name_at E c) (bytes (cmd_name c))" and "name_at E c \<noteq> NULL"
  using assms cmd_in_all [of c] cmd_name_length [of c] by (auto simp: denotes_def objs_ok_def strings_ok_def)

lemma print_names_quiet:
  assumes E: "objs_ok E"
  shows "strings_ok E (mem s) \<Longrightarrow> tx_drains (uart s) \<Longrightarrow> \<forall>i \<in> set is. \<exists>c. fst (tab ! i) = name_at E c \<Longrightarrow>
   quiet (print_names tab is s) s"
proof (induction "is" arbitrary: s)
  case (Cons i "is")
  obtain c where c: "fst (tab ! i) = name_at E c" using Cons.prems(3) by auto
  note nm = name_denotes [OF E Cons.prems(1), of c]
  let ?n = "of_nat (length (bytes (cmd_name c))) :: u64"
  have "quiet (kprint ''  [%d] name at %p: '%s', len=%d\<newline>''
      [VA (of_nat i), VA (name_at E c), VA (name_at E c), VA ?n] s) s"
    by (rule quiet_args [of _ _ "[VA (of_nat i), VA (name_at E c), VStr (bytes (cmd_name c)), VA ?n]"])
      (use nm(1) Cons.prems(2) cmd_name_length [of c] in \<open>simp_all add: fits_def modifiers_def\<close>)
  then have "quiet (kprint ''  [%d] name at %p: '%s', len=%d\<newline>''
      [VA (of_nat i), VA (name_at E c), VA (name_at E c), VA ?n] s \<bind> print_names tab is) s"
  proof (rule quiet_bind)
    fix s' out assume l: "logs out s s'"
    show "quiet (print_names tab is s') s'"
      using Cons.prems logsD(1,2) [OF l] by (intro Cons.IH) auto
  qed
  then show ?case using strlen_cstr [OF nm(2)] by (simp add: c)
qed simp

lemma print_table_quiet:
  assumes E: "objs_ok E"
  shows "strings_ok E (mem s) \<Longrightarrow> tx_drains (uart s) \<Longrightarrow>
   quiet (print_table E i (map (\<lambda>c. (name_at E c, Some c)) cs @ [(NULL, None)]) s) s"
proof (induction cs arbitrary: i s)
  case (Cons c cs)
  note nm = name_denotes [OF E Cons.prems(1), of c]
  have "quiet (kprint ''  [%d] name at %p: '%s', func at %p\<newline>''
      [VA (of_nat i), VA (name_at E c), VA (name_at E c), VA (func_at E c)] s) s"
    by (rule quiet_args [of _ _ "[VA (of_nat i), VA (name_at E c), VStr (bytes (cmd_name c)), VA (func_at E c)]"])
      (use nm(1) Cons.prems(2) cmd_name_length [of c] in \<open>simp_all add: fits_def modifiers_def\<close>)
  then have "quiet (kprint ''  [%d] name at %p: '%s', func at %p\<newline>''
      [VA (of_nat i), VA (name_at E c), VA (name_at E c), VA (func_at E c)] s \<bind>
      print_table E (i + 1) (map (\<lambda>c. (name_at E c, Some c)) cs @ [(NULL, None)])) s"
  proof (rule quiet_bind)
    fix s' out assume l: "logs out s s'"
    show "quiet (print_table E (i + 1) (map (\<lambda>c. (name_at E c, Some c)) cs @ [(NULL, None)]) s') s'"
      using Cons.prems logsD(1,2) [OF l] by (intro Cons.IH) auto
  qed
  then show ?case using nm(3) by simp
qed simp

lemma shell_start_ready:
  fixes s :: "'a shell_state_scheme"
  assumes E: "objs_ok E" and "strings_ok E (mem s)" and "tx_drains (uart s)"
  obtains s' out where "shell_start L E s = Some s'" and "logs out (s\<lparr>commands := command_table E\<rparr>) s'"
proof -
  have "quiet (kprint ''\<newline>MeringueOS Shell\<newline>'' [] s \<bind> kprint ''Type 'help' for available commands.\<newline>'' []) s"
    using assms(3) by (intro quiet_intros kernel_fits) (auto dest: logs_tx)
  then obtain t o1 where t: "kprint ''\<newline>MeringueOS Shell\<newline>'' [] s \<bind> kprint ''Type 'help' for available commands.\<newline>'' [] = Some t"
    "logs o1 s t" by (rule quietE)
  let ?t = "t\<lparr>commands := command_table E\<rparr>"
  have lt: "logs o1 (s\<lparr>commands := command_table E\<rparr>) ?t"
  proof -
    obtain n where "t = s\<lparr>uart := (uart s)\<lparr>fr_reads := n, writes := writes (uart s) @ sent o1\<rparr>\<rparr>"
      using t(2) by (auto simp: logs_def)
    then have "?t = s\<lparr>commands := command_table E\<rparr>\<lparr>uart := (uart s)\<lparr>fr_reads := n, writes := writes (uart s) @ sent o1\<rparr>\<rparr>"
      by (cases s) simp
    then show ?thesis using assms(3) by (auto simp: logs_def)
  qed
  have st: "strings_ok E (mem ?t)" "tx_drains (uart ?t)" using assms(2) logsD(1,2) [OF t(2)] by simp_all
  have tab: "\<forall>i \<in> set [0..<7]. \<exists>c. fst (command_table E ! i) = name_at E c"
    by (auto simp: command_table_def nth_append less_Suc_eq numeral_eq_Suc)
  have c: "commands v = commands u" "mem v = mem u" "tx_drains (uart v)" if "logs out u v"
    for out and u v :: "'a shell_state_scheme"
    using that by (auto simp: logs_def)
  obtain a oa where a: "kprint ''Command table initialized:\<newline>'' [] ?t = Some a" "logs oa ?t a"
    by (rule kprint_fits_logs [OF kernel_fits(14) st(2)])
  have "quiet (print_names (commands a) [0..<7] a) a"
    using st(1) tab c [OF a(2)] by (intro print_names_quiet [OF E]) (simp_all del: upt_rec_numeral)
  then obtain b ob where b: "print_names (commands a) [0..<7] a = Some b" "logs ob a b" by (rule quietE)
  obtain d od where d: "kprint ''Command table at %p:\<newline>'' [VA (commands_at E)] b = Some d" "logs od b d"
    by (rule kprint_fits_logs [OF kernel_fits(15) logs_tx [OF b(2)]])
  obtain e oe where e: "kprint ''Debug: .rodata section address range: %p to %p\<newline>''
      [VA (rodata_start L), VA (rodata_end L)] d = Some e" "logs oe d e"
    by (rule kprint_fits_logs [OF kernel_fits(16) logs_tx [OF d(2)]])
  have "quiet (print_table E 0 (commands e) e) e"
    using st(1) c [OF a(2)] c [OF b(2)] c [OF d(2)] c [OF e(2)]
    by (simp add: command_table_all print_table_quiet [OF E])
  then obtain f of' where f: "print_table E 0 (commands e) e = Some f" "logs of' e f" by (rule quietE)
  have "shell_start L E s = Some f"
    using t(1) a(1) b(1) d(1) e(1) f(1)
    by (auto simp: shell_start_def init_command_table_def bind_eq_Some_conv simp del: upt_rec_numeral)
  with that logs_trans [OF lt logs_trans [OF a(2) logs_trans [OF b(2) logs_trans [OF d(2) logs_trans [OF e(2) f(2)]]]]]
  show thesis by blast
qed

subsection \<open>Booting\<close>

text \<open>
  Where the linker puts the shell's objects: inside the image, below the bitmap.
\<close>

definition in_image :: "layout \<Rightarrow> u64 \<Rightarrow> nat \<Rightarrow> bool" where
  "in_image L a n \<longleftrightarrow> unat (kernel_start L) \<le> unat a \<and> unat a + n \<le> unat (pmm_bitmap_start L)"

definition objs_linked :: "layout \<Rightarrow> shell_objs \<Rightarrow> bool" where
  "objs_linked L E \<longleftrightarrow> objs_ok E \<and> in_image L (cmd_buffer E) 128 \<and> in_image L (space_at E) 2 \<and>
     (\<forall>c \<in> set all_cmds. in_image L (name_at E c) 9)"

text \<open>
  The invariant of the shell's main loop.  The heap lies below the image, which starts at frame
  256, and stays there, since that frame is never free.
\<close>

definition shell_ready :: "layout \<Rightarrow> shell_objs \<Rightarrow> 'a shell_state_scheme \<Rightarrow> bool" where
  "shell_ready L E s \<longleftrightarrow> objs_linked L E \<and> strings_ok E (mem s) \<and> commands s = command_table E \<and> heap_ok L s \<and>
     highest_usable_address s = 0x80000000 \<and> top_frame s \<le> 256 \<and> 256 \<notin> free_frames L (mem s)"

lemma in_image_apart:
  assumes "link_ok L" and "in_image L a n" and "k \<le> 256"
  shows "span a n \<inter> (region 0 k \<union> span (pmm_bitmap_start L) 0x20000) = {}"
proof -
  note D = link_okD [OF assms(1)]
  have ks: "unat (kernel_start L) = 0x40100000" by (simp add: D(1))
  have n: "unat a + n \<le> 2 ^ 64" using assms(2) D(3) by (simp add: in_image_def)
  have b: "unat (pmm_bitmap_start L) + 0x20000 \<le> 2 ^ 64" using D(3) by simp
  show ?thesis
    using assms(2,3) ks by (auto simp: in_image_def region_def span_nat [OF n] span_nat [OF b])
qed

lemma strings_ok_only:
  assumes "link_ok L" and "objs_linked L E" and "strings_ok E m"
    and "only_in (region 0 k \<union> span (pmm_bitmap_start L) 0x20000) m m'" and "k \<le> 256"
  shows "strings_ok E m'"
proof -
  have keep: "m' x = m x" if "in_image L a n" "x \<in> span a n" for x a n
    using in_image_apart [OF assms(1) that(1) assms(5)] that(2) assms(4) by (auto simp: only_in_def)
  have "strings_ok E m' = strings_ok E m"
    by (rule strings_ok_cong) (use keep assms(2) in \<open>auto simp: objs_linked_def\<close>)
  with assms(3) show ?thesis by simp
qed

lemma reserved_high:
  assumes "link_ok L"
  shows "kernel_range L None = (kernel_start L, kernel_end L - kernel_start L)"
    and "in_ram (kernel_start L) (kernel_end L - kernel_start L)" and "i < 256 \<Longrightarrow> i \<notin> reserved L None"
    and "256 \<in> reserved L None"
proof -
  note D = link_okD [OF assms]
  show kr: "kernel_range L None = (kernel_start L, kernel_end L - kernel_start L)" by (simp add: kernel_range_def)
  have ks: "unat (kernel_start L) = 0x40100000" by (simp add: D(1))
  then have "kernel_start L \<le> kernel_end L" using D(2,7) by (simp add: word_le_nat_alt)
  then have sz: "unat (kernel_end L - kernel_start L) = unat (kernel_end L) - 0x40100000"
    using ks by (simp add: unat_sub)
  show "in_ram (kernel_start L) (kernel_end L - kernel_start L)"
    using sz ks D(2,3,7) by (simp add: in_ram_def)
  show "i < 256 \<Longrightarrow> i \<notin> reserved L None"
    using ks D(2) unfolding reserved_def kr by (auto simp: frame_meets_def)
  show "256 \<in> reserved L None"
    using ks sz D unfolding reserved_def kr by (auto simp: frame_meets_def)
qed

lemma boot_memory:
  fixes s :: "'a kheap_state_scheme"
  assumes L: "link_ok L" and tx: "tx_drains (uart s)"
  obtains t where "frame_alloc_init L None s = Some t" and "pmm_inv L t" and "tx_drains (uart t)"
    and "\<forall>i < 5. 0 + i \<in> free_frames L (mem t)" and "highest_usable_address t = 0x80000000" and "pmm_only L s t"
    and "256 \<notin> free_frames L (mem t)"
proof -
  note R = reserved_high [OF L]
  obtain t where t: "frame_alloc_init L None s = Some t" "free_frames L (mem t) = {..<FRAMES} - reserved L None"
    "pmm_acct L t" "highest_usable_address t = PMM_MAX_ADDRESS" "tx_drains (uart t)" "pmm_only L s t"
    by (rule frame_alloc_init_effect [OF L tx R(1,2)])
  have "pmm_inv L t" using t(2,3) bitmap_frames_reserved [of L None] by (auto simp: pmm_inv_def)
  moreover have "\<forall>i < 5. 0 + i \<in> free_frames L (mem t)" using t(2) R(3) by auto
  moreover have "highest_usable_address t = 0x80000000" using t(4) by (simp add: pmm_consts)
  moreover have "256 \<notin> free_frames L (mem t)" using t(2) R(4) by simp
  ultimately show thesis using that t by blast
qed

lemma print_sections_quiet: "tx_drains (uart s) \<Longrightarrow> quiet (print_sections L s) s"
  unfolding print_sections_def by (intro quiet_intros kernel_fits) (auto dest: logs_tx)

lemma heap_ready:
  fixes s :: "'a kheap_state_scheme"
  assumes L: "link_ok L" and tx: "tx_drains (uart s)"
  obtains t v where "frame_alloc_init L None s = Some t" and "tx_drains (uart t)"
    and "\<And>t' out. logs out t t' \<Longrightarrow> \<exists>v. kheap_init L t' = Some v \<and> heap_ok L v \<and> heap_live v = {} \<and>
      top_frame v = 5 \<and> 256 \<notin> free_frames L (mem v) \<and> highest_usable_address v = 0x80000000 \<and>
      rx (uart v) = rx (uart s) \<and> only_in (region 0 5 \<union> span (pmm_bitmap_start L) 0x20000) (mem s) (mem v)"
proof -
  obtain t where t: "frame_alloc_init L None s = Some t" "pmm_inv L t" "tx_drains (uart t)"
    "\<forall>i < 5. 0 + i \<in> free_frames L (mem t)" "highest_usable_address t = 0x80000000" "pmm_only L s t" "256 \<notin> free_frames L (mem t)"
    by (rule boot_memory [OF L tx])
  have "\<exists>v. kheap_init L t' = Some v \<and> heap_ok L v \<and> heap_live v = {} \<and>
      top_frame v = 5 \<and> 256 \<notin> free_frames L (mem v) \<and> highest_usable_address v = 0x80000000 \<and>
      rx (uart v) = rx (uart s) \<and> only_in (region 0 5 \<union> span (pmm_bitmap_start L) 0x20000) (mem s) (mem v)"
    if l: "logs out t t'" for t' out
  proof -
    obtain u where u: "t' = t\<lparr>uart := u\<rparr>" using l by (auto simp: logs_def)
    have "pmm_inv L t'" "\<forall>i < 5. 0 + i \<in> free_frames L (mem t')" using t(2,4) by (simp_all add: u pmm_inv_def pmm_acct_def)
    then obtain v as where v: "kheap_init L t' = Some v" "heap_inv L v as 0 (0 + 5)" "chunks (mem v) as = pages 0 5"
      "grows t' v" "free_frames L (mem v) = free_frames L (mem t') - {0..<0 + 5}" "only_in (region 0 (0 + 5) \<union> span (pmm_bitmap_start L) 0x20000) (mem t') (mem v)"
      by (rule kheap_init_wf [OF L _ logs_tx [OF l]]) auto
    have "(0 :: nat) < 0 + 5" by simp
    note ok = heap_okI [OF L v(2) this]
    have "heap_live v = {}" using v(3) ok(2) by (simp add: heap_live_def allocs_def)
    moreover have "top_frame v = 5" "256 \<notin> free_frames L (mem v)" using ok(3) v(5) t(7) u by simp_all
    moreover have "highest_usable_address v = 0x80000000"
      using v(4) t(5) u by (cases v, cases t) (simp add: grows_def)
    moreover have "rx (uart v) = rx (uart s)"
      using kheap_init_rx [OF v(1)] frame_alloc_init_rx [OF t(1)] logs_rx [OF l] by simp
    moreover have "only_in (region 0 5 \<union> span (pmm_bitmap_start L) 0x20000) (mem s) (mem v)"
      using v(6) t(6) u by (auto simp: only_in_def pmm_only_def)
    ultimately show ?thesis using v(1) ok(1) by blast
  qed
  with that t(1,3) show thesis by blast
qed

text \<open>The boot, up to the first prompt.\<close>

lemma kernel_main_ready:
  fixes s :: "'a shell_state_scheme"
  assumes L: "link_ok L" and E: "objs_linked L E" and "strings_ok E (mem s)" and "tx_drains (uart s)"
  obtains s' where "shell_ready L E s'" and "heap_live s' = {}" and "rx (uart s') = rx (uart s)"
    and "\<And>n. kernel_main L E None n s = shell_rounds L E n s'"
proof -
  have "quiet (do { s \<leftarrow> kprint ''MeringueOS starting...\<newline>'' [] s;
      s \<leftarrow> kprint ''Kernel loaded at physical address: 0x%llx\<newline>'' [VA 0] s;
      s \<leftarrow> print_sections L s;
      kprint ''Initializing Physical Memory Manager...\<newline>'' [] s }) s"
    using assms(4) by (intro quiet_intros kernel_fits print_sections_quiet) (auto dest: logs_tx)
  then obtain a oa where a: "(do { s \<leftarrow> kprint ''MeringueOS starting...\<newline>'' [] s;
      s \<leftarrow> kprint ''Kernel loaded at physical address: 0x%llx\<newline>'' [VA 0] s;
      s \<leftarrow> print_sections L s;
      kprint ''Initializing Physical Memory Manager...\<newline>'' [] s }) = Some a" "logs oa s a" by (rule quietE)
  obtain b where b: "frame_alloc_init L None a = Some b" "tx_drains (uart b)"
    "\<And>t' out. logs out b t' \<Longrightarrow> \<exists>v. kheap_init L t' = Some v \<and> heap_ok L v \<and> heap_live v = {} \<and>
      top_frame v = 5 \<and> 256 \<notin> free_frames L (mem v) \<and> highest_usable_address v = 0x80000000 \<and>
      rx (uart v) = rx (uart a) \<and> only_in (region 0 5 \<union> span (pmm_bitmap_start L) 0x20000) (mem a) (mem v)"
    by (rule heap_ready [OF L logs_tx [OF a(2)]]) blast
  obtain c oc where c: "kprint ''Initializing Kernel Heap Allocator...\<newline>'' [] b = Some c" "logs oc b c"
    by (rule kprint_fits_logs [OF kernel_fits(9) b(2)])
  obtain d where d: "kheap_init L c = Some d" "heap_ok L d" "heap_live d = {}" "top_frame d = 5"
    "256 \<notin> free_frames L (mem d)" "highest_usable_address d = 0x80000000" "rx (uart d) = rx (uart a)"
    "only_in (region 0 5 \<union> span (pmm_bitmap_start L) 0x20000) (mem a) (mem d)"
    using b(3) [OF c(2)] by blast
  have "quiet (do { s \<leftarrow> kprint ''Initializing TUI subsystem...\<newline>'' [] d;
      s \<leftarrow> kprint ''TUI: Initializing...\<newline>'' [] s;
      s \<leftarrow> kprint ''TUI: Using fallback console mode (no framebuffer)\<newline>'' [] s;
      kprint ''Starting shell...\<newline>'' [] s }) d"
    using heap_ok_tx [OF d(2)] by (intro quiet_intros kernel_fits) (auto dest: logs_tx)
  then obtain e oe where e: "(do { s \<leftarrow> kprint ''Initializing TUI subsystem...\<newline>'' [] d;
      s \<leftarrow> kprint ''TUI: Initializing...\<newline>'' [] s;
      s \<leftarrow> kprint ''TUI: Using fallback console mode (no framebuffer)\<newline>'' [] s;
      kprint ''Starting shell...\<newline>'' [] s }) = Some e" "logs oe d e" by (rule quietE)
  have E': "objs_ok E" using E by (simp add: objs_linked_def)
  have "strings_ok E (mem a)" using assms(3) logsD(1) [OF a(2)] by simp
  then have "strings_ok E (mem d)" using strings_ok_only [OF L E _ d(8)] by simp
  then have se: "strings_ok E (mem e)" using logsD(1) [OF e(2)] by simp
  obtain s' o' where s': "shell_start L E e = Some s'" "logs o' (e\<lparr>commands := command_table E\<rparr>) s'"
    by (rule shell_start_ready [OF E' se logs_tx [OF e(2)]])
  have st: "strings_ok E (mem s')" "commands s' = command_table E" "highest_usable_address s' = 0x80000000"
    using se d(6) s'(2) e(2) by (auto simp: logs_def)
  have "heap_same L d s'" using s'(2) e(2) by (auto simp: heap_same_def logs_def)
  note ok = heap_ok_same [OF d(2) this]
  show thesis
  proof (rule that)
    show "kernel_main L E None n s = shell_rounds L E n s'" for n
      using a(1) b(1) c(1) d(1) e(1) s'(1)
      by (auto simp: kernel_main_def tui_init_def shell_loop_def bind_eq_Some_conv)
    show "heap_live s' = {}" using ok(2) d(3) by simp
    have m: "mem s' = mem d" "heap_end s' = heap_end d" using s'(2) e(2) by (auto simp: logs_def)
    then have "top_frame s' = 5" "256 \<notin> free_frames L (mem s')" using d(4,5) by (simp_all add: top_frame_def)
    then show "shell_ready L E s'" using E st ok(1) by (simp add: shell_ready_def)
    show "rx (uart s') = rx (uart s)" using logs_rx [OF s'(2)] logs_rx [OF e(2)] logs_rx [OF a(2)] d(7) by simp
  qed
qed

subsection \<open>Turns of a ready shell\<close>

lemma shell_readyD:
  assumes "shell_ready L E s"
  shows "link_ok L" and "objs_ok E" and "strings_ok E (mem s)" and "commands s = command_table E" and "heap_ok L s"
    and "highest_usable_address s = 0x80000000" and "tx_drains (uart s)"
    and "span (cmd_buffer E) 128 \<inter> (heap_area s \<union> span (pmm_bitmap_start L) 0x20000) = {}"
proof -
  show ok: "heap_ok L s" using assms by (simp add: shell_ready_def)
  obtain f0 where L: "link_ok L" and a: "heap_area s = region f0 (top_frame s)" by (rule heap_area_region [OF ok])
  show "link_ok L" by (rule L)
  have "heap_area s \<subseteq> region 0 (top_frame s)" unfolding a by (auto simp: region_def)
  moreover have "in_image L (cmd_buffer E) 128" "top_frame s \<le> 256" using assms by (simp_all add: shell_ready_def objs_linked_def)
  ultimately show "span (cmd_buffer E) 128 \<inter> (heap_area s \<union> span (pmm_bitmap_start L) 0x20000) = {}"
    using in_image_apart [OF L] by fastforce
qed (use assms heap_ok_tx [of L s] in \<open>simp_all add: shell_ready_def objs_linked_def\<close>)

lemma line_only_same:
  fixes s s' :: "'a shell_state_scheme"
  assumes "line_only E s s'" and "shell_ready L E s"
  shows "heap_same L s s'" and "highest_usable_address s' = highest_usable_address s"
    and "\<And>ws. poke_ref ws s' = poke_ref ws s"
proof -
  show "heap_same L s s'"
    using assms(1) shell_readyD(8) [OF assms(2)] by (cases s, cases s') (auto simp: heap_same_def line_only_def)
  show h: "highest_usable_address s' = highest_usable_address s"
    using assms(1) by (cases s, cases s') (simp add: line_only_def)
  show "poke_ref ws s' = poke_ref ws s" for ws
    using h by (simp add: poke_ref_def is_address_valid_def pmm_get_highest_usable_address_def)
qed

text \<open>What keeps the shell ready: reading a line, and growing the heap.\<close>

lemma shell_ready_line:
  fixes s s' :: "'a shell_state_scheme"
  assumes "line_only E s s'" and "shell_ready L E s"
  shows "shell_ready L E s'"
proof -
  note D = shell_readyD [OF assms(2)] and same = line_only_same [OF assms]
  have "strings_ok E (mem s')" using strings_ok_keep [OF D(2,3)] assms(1) by (simp add: line_only_def)
  moreover have "top_frame s' = top_frame s" "free_frames L (mem s') = free_frames L (mem s)"
    using heap_ok_same(5,6) [OF D(5) same(1)] by simp_all
  ultimately show ?thesis
    using assms(2) same(2) heap_ok_same(1) [OF D(5) same(1)] line_only_commands [OF assms(1)]
    by (simp add: shell_ready_def)
qed

lemma shell_ready_grown:
  fixes s s' :: "'a shell_state_scheme"
  assumes "shell_ready L E s" and "heap_ok L s'" and g: "heap_grown L s s'"
  shows "shell_ready L E s'"
proof -
  note D = shell_readyD [OF assms(1)]
  have top: "top_frame s \<le> 256" "256 \<notin> free_frames L (mem s)" "objs_linked L E" using assms(1) by (simp_all add: shell_ready_def)
  have "256 \<notin> {top_frame s..<top_frame s'}" using g top(2) by (auto simp: heap_grown_def)
  then have t': "top_frame s' \<le> 256" using top(1) by simp
  have "strings_ok E (mem s')"
    using g by (intro strings_ok_only [OF D(1) top(3) D(3) _ t']) (simp add: heap_grown_def)
  moreover have "commands s' = commands s" "highest_usable_address s' = highest_usable_address s"
    using g by (cases s, cases s', simp add: heap_grown_def grows_def)+
  moreover have "256 \<notin> free_frames L (mem s')" using g top(2) by (auto simp: heap_grown_def)
  ultimately show ?thesis using assms(1,2) t' by (simp add: shell_ready_def)
qed

lemma harmless_same:
  fixes s s' :: "'a shell_state_scheme"
  assumes "line_only E s s'" and "shell_ready L E s"
  shows "harmless L c ws s' = harmless L c ws s" and "poked c ws s' = poked c ws s"
proof -
  note same = line_only_same [OF assms]
  have "heap_ok L s" using assms(2) by (simp add: shell_ready_def)
  note ok = heap_ok_same [OF this same(1)]
  show "harmless L c ws s' = harmless L c ws s" by (cases c) (simp_all add: ok same(3))
  show "poked c ws s' = poked c ws s" by (simp add: poked_def same(3))
qed

definition harmless_line :: "layout \<Rightarrow> u8 list \<Rightarrow> 'a kheap_state_scheme \<Rightarrow> bool" where
  "harmless_line L line s \<longleftrightarrow> (\<forall>w ws c. words line = w # ws \<longrightarrow> lookup w = Some c \<longrightarrow> harmless L c (take 10 (words line)) s)"

definition poked_line :: "u8 list \<Rightarrow> 'a pmm_state_scheme \<Rightarrow> u64 set" where
  "poked_line line s = (case words line of [] \<Rightarrow> {} | w # ws \<Rightarrow>
     (case lookup w of None \<Rightarrow> {} | Some c \<Rightarrow> poked c (take 10 (words line)) s))"

lemma shell_round_safe:
  fixes s :: "'a shell_state_scheme"
  assumes "shell_ready L E s" and "queued (uart s) keys" and "edit [] keys = Some (line, rest)" and "harmless_line L line s"
  obtains s' where "shell_round L E s = Some s'" and "shell_ready L E s'" and "queued (uart s') rest"
    and "\<forall>(q, k) \<in> heap_live s \<inter> heap_live s'. \<forall>x \<in> span q k - poked_line line s. mem s' x = mem s x"
proof -
  note r = shell_readyD [OF assms(1)]
  obtain s1 where s1: "line_only E s s1" "queued (uart s1) rest" "strings_ok E (mem s1)"
    "words line = [] \<or> lookup (hd (words line)) = None \<longrightarrow> shell_round L E s = Some s1"
    "\<forall>c. words line \<noteq> [] \<longrightarrow> lookup (hd (words line)) = Some c \<longrightarrow>
      (\<exists>argv. list_all2 (arg (mem s1)) argv (take 10 (words line)) \<and> shell_round L E s = run_cmd L c argv s1)"
    by (rule shell_round_runs [OF r(2-4,7) assms(2,3), where L = L])
  note same = line_only_same [OF s1(1) assms(1)] and ok = heap_ok_same [OF r(5) line_only_same(1) [OF s1(1) assms(1)]]
    and ready = shell_ready_line [OF s1(1) assms(1)]
  have keep: "mem s1 x = mem s x" if "(q, k) \<in> heap_live s" "x \<in> span q k" for q k x
    using heap_live_area [OF r(5) that(1)] that(2) same(1) by (auto simp: heap_same_def)
  show thesis
  proof (cases "words line = [] \<or> lookup (hd (words line)) = None")
    case True
    then show thesis using that [of s1] s1(2,4) ready keep by auto
  next
    case False
    then obtain w ws c where w: "words line = w # ws" "lookup w = Some c" by (cases "words line") auto
    then obtain argv where argv: "list_all2 (arg (mem s1)) argv (take 10 (words line))"
      "shell_round L E s = run_cmd L c argv s1" using s1(5) by auto
    have pk: "poked c (take 10 (words line)) s1 = poked_line line s"
      using w by (simp add: poked_line_def harmless_same(2) [OF s1(1) assms(1)])
    have "harmless L c (take 10 (words line)) s1"
      using assms(4) w harmless_same(1) [OF s1(1) assms(1)] by (auto simp: harmless_line_def)
    then have "heap_step L (poked c (take 10 (words line)) s1) s1 (run_cmd L c argv s1)"
      using r(6) same(2) by (intro run_cmd_heap [OF ok(1) argv(1)]) simp_all
    then obtain s' where s': "run_cmd L c argv s1 = Some s'" "heap_ok L s'" "heap_grown L s1 s'" "rx (uart s') = rx (uart s1)"
      "\<forall>(q, k) \<in> heap_live s1 \<inter> heap_live s'. \<forall>x \<in> span q k - poked_line line s. mem s' x = mem s1 x"
      unfolding pk heap_step_def by blast
    have "mem s' x = mem s x" if "(q, k) \<in> heap_live s \<inter> heap_live s'" "x \<in> span q k - poked_line line s" for q k x
      using bspec [OF s'(5), of "(q, k)"] that ok(2) keep [of q k x] by auto
    then show thesis
      using that [of s'] argv(2) s'(1) shell_ready_grown [OF ready s'(2,3)] queued_rx [OF s'(4), of rest] s1(2) by auto
  qed
qed

subsection \<open>A concrete machine\<close>

text \<open>The shell's objects in the data section and on the stack of the checked-in image.\<close>

definition demo_objs :: shell_objs where
  "demo_objs = \<lparr>cmd_buffer = 0x40117000, commands_at = 0x40106b80,
     name_at = (\<lambda>c. case c of Cmd_help \<Rightarrow> 0x40106aa0 | Cmd_memdump \<Rightarrow> 0x40106aa5 | Cmd_peek \<Rightarrow> 0x40106aad
       | Cmd_poke \<Rightarrow> 0x40106ab2 | Cmd_alloc \<Rightarrow> 0x40106ab7 | Cmd_free \<Rightarrow> 0x40106abd | Cmd_pmm_info \<Rightarrow> 0x40106ac2),
     func_at = (\<lambda>c. 0x40100000), space_at = 0x40106acb\<rparr>"

definition demo_strings :: "u8 list" where
  "demo_strings = concat (map (\<lambda>w. bytes w @ [0])
     [''help'', ''memdump'', ''peek'', ''poke'', ''alloc'', ''free'', ''pmm_info'', '' ''])"

definition demo_boot :: shell_state where
  "demo_boot = \<lparr>mem = place 0x40106aa0 demo_strings, uart = idle_uart, strtok_last = 0, total_memory = 0,
     free_memory = 0, highest_usable_address = 0, free_list_head = 0, heap_start = 0, heap_end = 0, commands = []\<rparr>"

lemma demo_linked: "objs_linked elf_layout demo_objs"
proof -
  have "apart (space_at demo_objs) 2 (cmd_buffer demo_objs) 128"
    by (simp add: apart_def demo_objs_def)
  moreover have "apart (name_at demo_objs c) 9 (cmd_buffer demo_objs) 128 \<and> name_at demo_objs c \<noteq> NULL \<and>
      in_image elf_layout (name_at demo_objs c) 9" for c
    by (cases c) (simp_all add: apart_def demo_objs_def in_image_def elf_layout_def)
  ultimately have "objs_ok demo_objs \<and> (\<forall>c. in_image elf_layout (name_at demo_objs c) 9)"
    using apart_disjoint by (auto simp: objs_ok_def demo_objs_def)
  then show ?thesis by (simp add: objs_linked_def in_image_def demo_objs_def elf_layout_def)
qed

lemma demo_strings_ok: "strings_ok demo_objs (mem demo_boot)"
proof -
  have m: "mem demo_boot = place 0x40106aa0 demo_strings" by (simp add: demo_boot_def)
  have "cstr (place 0x40106aa0 demo_strings) (name_at demo_objs c) (bytes (cmd_name c))" for c
    by (cases c) (simp_all add: demo_objs_def demo_strings_def place_def)
  moreover have "cstr (place 0x40106aa0 demo_strings) (space_at demo_objs) [32]"
    by (simp add: demo_objs_def demo_strings_def place_def)
  ultimately show ?thesis by (simp add: strings_ok_def m)
qed

lemma demo_ready:
  obtains s :: shell_state where "shell_ready elf_layout demo_objs s" and "heap_live s = {}"
    and "kernel_main elf_layout demo_objs None 0 demo_boot = Some s"
proof -
  have tx: "tx_drains (uart demo_boot)" by (simp add: demo_boot_def)
  show thesis by (rule kernel_main_ready [OF link_ok_elf demo_linked demo_strings_ok tx]) (rule that, simp_all)
qed

lemma ready_uart:
  assumes "shell_ready L E s" and "tx_drains u"
  shows "shell_ready L E (s\<lparr>uart := u\<rparr>)" and "heap_live (s\<lparr>uart := u\<rparr>) = heap_live s"
  using assms heap_ok_uart [of L s u] by (simp_all add: shell_ready_def top_frame_def)

subsection \<open>Properties\<close>

text \<open>
  (C7) The kernel boots: without boot parameters, from any memory contents in which the
  shell's constant strings are in place, \<open>kernel_main\<close> reaches the main loop of the shell.
  There the heap is in order with nothing allocated, the command table is filled, the constant
  strings are still intact, all of the managed gigabyte is usable, and the heap lies
  below the image.  What is typed is not lost.  From then on the kernel is the shell's turns.
\<close>

theorem kernel_main_boots:
  fixes s :: "'a shell_state_scheme"
  assumes "link_ok L" and "objs_linked L E" and "strings_ok E (mem s)" and "tx_drains (uart s)"
  shows "\<exists>s'. shell_ready L E s' \<and> heap_live s' = {} \<and> (\<forall>keys. queued (uart s) keys \<longrightarrow> queued (uart s') keys) \<and>
    (\<forall>n. kernel_main L E None n s = shell_rounds L E n s')"
  using kernel_main_ready [OF assms] queued_rx by metis

theorem kernel_main_boots_witness:
  "\<exists>s'. kernel_main elf_layout demo_objs None 0 demo_boot = Some s' \<and> heap_ok elf_layout s' \<and>
     commands s' = command_table demo_objs"
proof -
  have "tx_drains (uart demo_boot)" by (simp add: demo_boot_def)
  then obtain s' where "shell_ready elf_layout demo_objs s'"
    "\<forall>n. kernel_main elf_layout demo_objs None n demo_boot = shell_rounds elf_layout demo_objs n s'"
    using kernel_main_boots [OF link_ok_elf demo_linked demo_strings_ok] by blast
  then show ?thesis by (auto simp: shell_ready_def)
qed

text \<open>
  (C9) One turn of the shell does what was typed.  Given keys that make up a line after
  editing, the turn reads exactly those, leaves all memory but the line buffer alone, and
  then hands the words of the line, at most ten, as arguments to the command named by the
  first word, in that state.  A line without words and an unknown command do nothing more.
\<close>

theorem shell_round_spec:
  fixes s :: "'a shell_state_scheme"
  assumes "objs_ok E" and "strings_ok E (mem s)" and "commands s = command_table E"
    and "tx_drains (uart s)" and "queued (uart s) keys" and "edit [] keys = Some (line, rest)"
  shows "\<exists>s1. line_only E s s1 \<and> queued (uart s1) rest \<and>
    (case words line of
       [] \<Rightarrow> shell_round L E s = Some s1
     | w # ws \<Rightarrow> (case lookup w of
         None \<Rightarrow> shell_round L E s = Some s1
       | Some c \<Rightarrow> \<exists>argv. list_all2 (arg (mem s1)) argv (take 10 (words line)) \<and>
           shell_round L E s = run_cmd L c argv s1))"
proof -
  obtain s1 where s1: "line_only E s s1" "queued (uart s1) rest" "strings_ok E (mem s1)"
    "words line = [] \<or> lookup (hd (words line)) = None \<longrightarrow> shell_round L E s = Some s1"
    "\<forall>c. words line \<noteq> [] \<longrightarrow> lookup (hd (words line)) = Some c \<longrightarrow>
      (\<exists>argv. list_all2 (arg (mem s1)) argv (take 10 (words line)) \<and> shell_round L E s = run_cmd L c argv s1)"
    by (rule shell_round_runs [OF assms, where L = L])
  show ?thesis
  proof (intro exI [of _ s1] conjI s1(1,2))
    show "case words line of [] \<Rightarrow> shell_round L E s = Some s1
      | w # ws \<Rightarrow> (case lookup w of None \<Rightarrow> shell_round L E s = Some s1
        | Some c \<Rightarrow> \<exists>argv. list_all2 (arg (mem s1)) argv (take 10 (words line)) \<and>
            shell_round L E s = run_cmd L c argv s1)"
    proof (cases "words line")
      case (Cons w ws)
      with s1(4,5) show ?thesis by (cases "lookup w") simp_all
    qed (use s1(4) in simp)
  qed
qed

theorem shell_round_spec_witness:
  "\<exists>(s :: shell_state) s' argv. shell_ready elf_layout demo_objs s \<and>
     shell_round elf_layout demo_objs (s\<lparr>uart := typing (bytes ''hx'' @ [8] @ bytes ''elp'' @ [13])\<rparr>)
       = run_cmd elf_layout Cmd_help argv s'"
proof -
  let ?k = "bytes ''hx'' @ [8] @ bytes ''elp'' @ [13]"
  obtain s :: shell_state where s: "shell_ready elf_layout demo_objs s" by (rule demo_ready)
  note r = ready_uart [OF s typing_tx [of ?k]]
  have e: "edit [] ?k = Some (bytes ''help'', [])" by (simp add: printable_def)
  have w: "words (bytes ''help'') = [bytes ''help'']" using words_last [of "[]" "bytes ''help''"] by simp
  have l: "lookup (bytes ''help'') = Some Cmd_help" using lookup_name [of Cmd_help] by simp
  have q: "queued (typing ?k) ?k" by (rule typing_queued) simp
  define t where "t = s\<lparr>uart := typing ?k\<rparr>"
  have t: "objs_ok demo_objs" "strings_ok demo_objs (mem t)" "commands t = command_table demo_objs"
    "tx_drains (uart t)" "queued (uart t) ?k"
    using r(1) q typing_tx [of ?k] by (simp_all add: shell_ready_def objs_linked_def t_def del: bytes_simps)
  obtain s1 argv where "shell_round elf_layout demo_objs t = run_cmd elf_layout Cmd_help argv s1"
    using shell_round_spec [OF t e, of elf_layout] by (simp only: w l list.case option.case) blast
  with s show ?thesis unfolding t_def by blast
qed

text \<open>
  (C8) The shell survives its user.  From a ready state, a turn with an empty line, an unknown
  command or a harmless one returns to a ready state: the heap in order and below the image,
  the constant strings and the command table intact, and the keys after the line still to be
  read.  Every byte of memory that was allocated and stays allocated is as it was, except
  those a poke into it names.  Harmless are help, peek, pmm_info, a memdump whose range does not
  wrap, an alloc the allocator has room for, a free of an address it handed out and a poke into
  memory it handed out.
\<close>

theorem shell_round_heap:
  fixes s :: "'a shell_state_scheme"
  assumes "shell_ready L E s" and "queued (uart s) keys" and "edit [] keys = Some (line, rest)" and "harmless_line L line s"
  shows "\<exists>s'. shell_round L E s = Some s' \<and> shell_ready L E s' \<and> queued (uart s') rest \<and>
    (\<forall>(q, k) \<in> heap_live s \<inter> heap_live s'. \<forall>x \<in> span q k - poked_line line s. mem s' x = mem s x)"
  by (rule shell_round_safe [OF assms]) blast

theorem shell_round_heap_witness:
  "\<exists>s s' :: shell_state. shell_ready elf_layout demo_objs s \<and>
     shell_round elf_layout demo_objs (s\<lparr>uart := typing (bytes ''help'' @ [13])\<rparr>) = Some s' \<and> shell_ready elf_layout demo_objs s'"
proof -
  let ?k = "bytes ''help'' @ [13]"
  obtain s :: shell_state where s: "shell_ready elf_layout demo_objs s" by (rule demo_ready)
  note r = ready_uart [OF s typing_tx [of ?k]]
  have e: "edit [] ?k = Some (bytes ''help'', [])" by (simp add: printable_def)
  have w: "words (bytes ''help'') = [bytes ''help'']" using words_last [of "[]" "bytes ''help''"] by simp
  have l: "lookup (bytes ''help'') = Some Cmd_help" using lookup_name [of Cmd_help] by simp
  have q: "queued (uart (s\<lparr>uart := typing ?k\<rparr>)) ?k" using typing_queued [of ?k] by simp
  have "harmless_line elf_layout (bytes ''help'') (s\<lparr>uart := typing ?k\<rparr>)"
    unfolding harmless_line_def w using l by (simp del: bytes_simps)
  from shell_round_heap [OF r(1) q e this] s show ?thesis by blast
qed

end
