(* ===== verification/Session.thy ===== *)
theory Session
  imports Kernel
begin

text \<open>
  Whole sessions at the shell.  A state is what is still to be typed together with the machine; one
  step is a turn of the main loop on a harmless line.  Every state that boot and such turns
  reach satisfies the loop's invariant, and from each of them the next harmless line is served.
\<close>

inductive turn ::
  "layout \<Rightarrow> shell_objs \<Rightarrow> u8 list \<times> 'a shell_state_scheme \<Rightarrow> u8 list \<times> 'a shell_state_scheme \<Rightarrow> bool" for L E where
  turn: "edit [] keys = Some (line, rest) \<Longrightarrow> harmless_line L line s \<Longrightarrow> shell_round L E s = Some s' \<Longrightarrow>
    turn L E (keys, s) (rest, s')"

inductive_cases turnE: "turn L E (keys, s) (rest, s')"

definition session_ok :: "layout \<Rightarrow> shell_objs \<Rightarrow> u8 list \<times> 'a shell_state_scheme \<Rightarrow> bool" where
  "session_ok L E = (\<lambda>(keys, s). shell_ready L E s \<and> queued (uart s) keys)"

lemma turn_ok:
  assumes "turn L E c c'" and "session_ok L E c"
  shows "session_ok L E c'"
  using assms
proof cases
  case (turn keys line rest s s')
  have ready: "shell_ready L E s" "queued (uart s) keys" using assms(2) turn(1) by (simp_all add: session_ok_def)
  show ?thesis
    by (rule shell_round_safe [OF ready turn(3,4)]) (use turn(2,5) in \<open>simp add: session_ok_def\<close>)
qed

lemma turns_ok:
  assumes "(turn L E)\<^sup>*\<^sup>* c c'" and "session_ok L E c"
  shows "session_ok L E c'"
  using assms by (induction rule: rtranclp_induct) (auto dest: turn_ok)

lemma shell_rounds_snoc: "shell_rounds L E (Suc n) s = shell_rounds L E n s \<bind> shell_round L E"
proof (induction n arbitrary: s)
  case 0
  show ?case by (cases "shell_round L E s") simp_all
next
  case (Suc n)
  show ?case
  proof (cases "shell_round L E s")
    case (Some t)
    with Suc.IH [of t] show ?thesis by simp
  qed simp
qed

lemma turns_rounds:
  assumes "(turn L E)\<^sup>*\<^sup>* (keys, s) (rest, s')"
  shows "\<exists>n. shell_rounds L E n s = Some s'"
  using assms
proof (induction rule: rtranclp_induct2)
  case refl
  have "shell_rounds L E 0 s = Some s" by simp
  then show ?case by blast
next
  case (step k1 s1 k2 s2)
  obtain n where n: "shell_rounds L E n s = Some s1" using step.IH by blast
  from step.hyps(2) have "shell_round L E s1 = Some s2" by (rule turnE)
  with n have "shell_rounds L E (Suc n) s = Some s2" unfolding shell_rounds_snoc by simp
  then show ?case by blast
qed

text \<open>
  (C1) The kernel stays up.  From boot with any keys to come, after any sequence of turns on
  harmless lines the machine is the one \<open>kernel_main\<close> has reached after so many turns, the loop's
  invariant holds (heap in order and below the image, constant strings and command table
  intact), no key has been lost, and if the keys to come begin with another harmless line,
  the kernel serves it.
\<close>

theorem session_safe:
  fixes s :: "'a shell_state_scheme"
  assumes "link_ok L" and "objs_linked L E" and "strings_ok E (mem s)" and "tx_drains (uart s)" and "queued (uart s) keys"
    and "kernel_main L E None 0 s = Some s0" and "(turn L E)\<^sup>*\<^sup>* (keys, s0) (rest, s')"
  shows "(\<exists>n. kernel_main L E None n s = Some s') \<and> shell_ready L E s' \<and> queued (uart s') rest \<and>
    (\<forall>line rest'. edit [] rest = Some (line, rest') \<longrightarrow> harmless_line L line s' \<longrightarrow>
      (\<exists>s''. turn L E (rest, s') (rest', s'')))"
proof -
  obtain t where t: "shell_ready L E t" "rx (uart t) = rx (uart s)" "\<And>n. kernel_main L E None n s = shell_rounds L E n t"
    by (rule kernel_main_ready [OF assms(1-4)]) blast
  then have "t = s0" using assms(6) by simp
  then have "session_ok L E (keys, s0)" using t queued_rx [OF t(2)] assms(5) by (simp add: session_ok_def)
  from turns_ok [OF assms(7) this] have ok: "shell_ready L E s'" "queued (uart s') rest" by (simp_all add: session_ok_def)
  have "\<exists>s''. turn L E (rest, s') (rest', s'')" if "edit [] rest = Some (line, rest')" "harmless_line L line s'" for line rest'
    by (rule shell_round_safe [OF ok that]) (use that in \<open>auto intro: turn.intros\<close>)
  moreover have "\<exists>n. kernel_main L E None n s = Some s'" using turns_rounds [OF assms(7)] t(3) \<open>t = s0\<close> by simp
  ultimately show ?thesis using ok by blast
qed

theorem session_safe_witness:
  "\<exists>s0 s1 s2 :: shell_state. kernel_main elf_layout demo_objs None 0
      (demo_boot\<lparr>uart := typing (bytes ''help'' @ [13] @ bytes ''pmm_info'' @ [13])\<rparr>) = Some s0 \<and>
    turn elf_layout demo_objs (bytes ''help'' @ [13] @ bytes ''pmm_info'' @ [13], s0) (bytes ''pmm_info'' @ [13], s1) \<and>
    turn elf_layout demo_objs (bytes ''pmm_info'' @ [13], s1) ([], s2) \<and> shell_ready elf_layout demo_objs s2"
proof -
  define k1 k2 where "k1 = bytes ''help'' @ [13] @ bytes ''pmm_info'' @ [13]" and "k2 = bytes ''pmm_info'' @ [13]"
  let ?L = elf_layout and ?E = demo_objs and ?s = "demo_boot\<lparr>uart := typing k1\<rparr>"
  have k: "0 \<notin> set k1" "edit [] k1 = Some (bytes ''help'', k2)" "edit [] k2 = Some (bytes ''pmm_info'', [])"
    by (simp_all add: k1_def k2_def printable_def)
  have "words (bytes (cmd_name c)) = [bytes (cmd_name c)]" for c
    using words_last [of "[]" "bytes (cmd_name c)"] by (cases c) simp_all
  from this [of Cmd_help] this [of Cmd_pmm_info]
  have w: "words (bytes ''help'') = [bytes ''help'']" "words (bytes ''pmm_info'') = [bytes ''pmm_info'']" by simp_all
  have h: "harmless_line ?L (bytes ''help'') s" "harmless_line ?L (bytes ''pmm_info'') s" for s :: shell_state
    unfolding harmless_line_def w using lookup_name [of Cmd_help] lookup_name [of Cmd_pmm_info] by (auto simp del: bytes_simps)
  have p: "strings_ok ?E (mem ?s)" "tx_drains (uart ?s)" "queued (uart ?s) k1"
    using demo_strings_ok typing_tx typing_queued [OF k(1)] by simp_all
  obtain s0 where s0: "kernel_main ?L ?E None 0 ?s = Some s0"
    by (rule kernel_main_ready [OF link_ok_elf demo_linked p(1,2)]) simp
  note safe = session_safe [OF link_ok_elf demo_linked p s0]
  obtain s1 where s1: "turn ?L ?E (k1, s0) (k2, s1)" using safe [OF rtranclp.rtrancl_refl] k(2) h(1) by blast
  then have r1: "(turn ?L ?E)\<^sup>*\<^sup>* (k1, s0) (k2, s1)" by (rule r_into_rtranclp)
  obtain s2 where s2: "turn ?L ?E (k2, s1) ([], s2)" using safe [OF r1] k(3) h(2) by blast
  have "shell_ready ?L ?E s2" using safe [OF rtranclp.rtrancl_into_rtrancl [OF r1 s2]] by simp
  with s0 s1 s2 show ?thesis unfolding k1_def k2_def by blast
qed

end
