(* ===== verification/Spec2Isabelle.thy ===== *)
theory Spec2Isabelle
  imports Exceptions Kheap_Gap Session
begin

text \<open>
  A verification of MeringueOS, a small AArch64 kernel for the QEMU virt machine.

  \<^bold>\<open>The program.\<close>  The start-up code enters \<open>kernel_main\<close> (\<open>src/src/boot/kernel.c\<close>) with a null
  pointer for the boot parameters.  It prints the linked sections, initialises the physical memory
  manager (\<open>src/src/memory/frame_alloc.c\<close>), a bitmap over the frames of one gigabyte of RAM, then the
  kernel heap (\<open>src/src/memory/kheap.c\<close>), which takes pages from it and keeps an address-ordered
  list of blocks and a free list inside them, then the placeholder text interface
  (\<open>src/src/ui/tui.c\<close>), and enters the shell (\<open>src/src/shell/shell.c\<close>), which reads lines and runs
  commands that inspect and change memory and call the heap.  Underneath are formatted
  output and blocking input (\<open>src/src/lib/stdio.c\<close>), string functions (\<open>src/src/lib/string.c\<close>), number
  parsing (\<open>src/src/lib/stdlib_stubs.c\<close>) and the UART driver (\<open>src/src/lib/uart.c\<close>).  The exception
  handlers (\<open>src/src/exceptions/exceptions.c\<close>) run when the processor traps.

  \<^bold>\<open>State.\<close>  All components work on one byte memory, a function from 64-bit addresses to bytes,
  so that headers, bitmap, strings and line buffer can alias as they do in the program; loads and
  stores are little-endian.  The state is a record that grows along the components: \<open>machine\<close>
  (memory and UART), \<open>lib_state\<close> (the static of \<open>strtok\<close>), \<open>pmm_state\<close> (the counters),
  \<open>kheap_state\<close> (free list head, first and last block), \<open>shell_state\<close> (the command table).  Integers
  are words of their C width; a C \<open>int\<close> that cannot overflow is an \<open>int\<close> or \<open>nat\<close>.  \<open>None\<close> is a
  computation that does not return or steps outside its objects.

  \<^bold>\<open>Theories.\<close>
  \<^item> \<open>Prelude\<close>, \<open>Memory\<close>, \<open>Machine\<close>: words and casts; address ranges, loads, stores, \<open>memset\<close> and
    \<open>memcpy\<close> with their closed forms; the linker symbols \<open>layout\<close> with \<open>link_ok\<close>, which
    states what the linker script guarantees, and \<open>elf_layout\<close>, the symbols of the checked-in image.
  \<^item> \<open>Allocator\<close>: the interface of an allocator as a locale, with the lemmas on sequences of calls
    proved once.  It is interpreted twice: on frames in \<open>Frame_Alloc\<close> and on the heap in \<open>Kheap_Spec\<close>.
  \<^item> \<open>Uart\<close>: the device as the values its registers will show and the log of writes; the driver.
  \<^item> \<open>CString\<close>, \<open>Strtok\<close>: the string functions as partial functions, and what they compute on
    terminated strings; tokenising a line is splitting it into its words.
  \<^item> \<open>Stdio\<close>, \<open>Console\<close>: \<open>kprintf\<close> with its 1024 byte buffer, where an overrun and a read behind the
    format are error values; bounds; what is sent for the kernel's own calls (\<open>logs\<close>).
  \<^item> \<open>Stdlib\<close>: number parsing, equal to a parser on lists with its own digit table; printed numbers parse back.
  \<^item> \<open>Frame_Alloc\<close>: the frame allocator; its state abstracts to the set of free frames.
  \<^item> \<open>Dll\<close>, \<open>Kheap\<close>, \<open>Kheap_Blocks\<close>, \<open>Kheap_Shape\<close>, \<open>Kheap_Inv\<close>, \<open>Kheap_Free\<close>, \<open>Kheap_Alloc\<close>,
    \<open>Kheap_Expand\<close>, \<open>Kheap_Calls\<close>, \<open>Kheap_Spec\<close>: doubly linked lists in general; the heap's
    operations; headers as records in memory; the abstract heap, a list of chunks, and the
    operations on it; the invariant (blocks tile the heap's frames, both lists are well linked);
    releasing, splitting, growing; whole calls; the properties.
  \<^item> \<open>Kheap_Gap\<close>: what goes wrong when the heap grows across a gap.
  \<^item> \<open>Exceptions\<close>: the handlers on the saved register frame; which traps return and which halt.
  \<^item> \<open>Boot\<close>: the early printer, the conversion of sizes, the text interface.
  \<^item> \<open>Shell\<close>, \<open>Shell_Input\<close>, \<open>Shell_Cmds\<close>, \<open>Shell_Heap\<close>, \<open>Shell_Spec\<close>: the shell; line input refines
    the list editor \<open>edit\<close> and parsing the splitting into words; each command against its arguments'
    contents; the commands on the heap; a whole turn of the loop.
  \<^item> \<open>Receiver\<close>: no call that prints or allocates touches the receiving side of the UART.
  \<^item> \<open>Kernel\<close>: \<open>kernel_main\<close>, the state in which the shell starts, the invariant \<open>shell_ready\<close> of its loop
    and what one turn does.
  \<^item> \<open>Session\<close>: turns as a step relation on the machine and the keys still to come; every state
    that boot and harmless turns reach satisfies the invariant, and the next line is served.

  \<^bold>\<open>Hypotheses.\<close>  \<open>tx_drains\<close>: the transmitter becomes ready again and again.  \<open>rx_arrives\<close> and
  \<open>queued\<close>: characters keep arriving, and which ones are next.  \<open>link_ok\<close> and \<open>objs_linked\<close>: where the
  linker puts the sections and the shell's objects.  \<open>strings_ok\<close>: the constant strings are in
  memory.  \<open>heap_room\<close>, of an allocation: if no block on the free list is large enough, so that the
  heap has to grow, the frames it gets directly follow the heap, or the frame allocator runs
  out first.  The code joins neighbours of its block list without checking adjacency, and
  \<open>expand_heap_gap\<close> shows that the hypothesis is needed: growing across the kernel image makes a
  free block that covers it.  Sizes are not restricted; a size within eight of \<open>2^64\<close> is rounded to
  zero, and the guarantee is in terms of the rounded size.  Of the clients of the frame
  allocator: they do not release frames of the kernel image (\<open>pmm_step\<close>) or of the bitmap (\<open>pmm_step\<close>
  and \<open>live_frames\<close>).  \<open>free_frame\<close> accepts these too, and \<open>free_frame_bitmap_unsafe\<close> shows what
  follows.  \<open>fmt_supported\<close>: a format whose conversions \<open>kprintf\<close> knows and which does not end inside
  one; the others can overrun its buffer.  \<open>harmless\<close>: a shell command that is not asked to damage
  the heap; poke and free take any number and can.

  \<^bold>\<open>Loops.\<close>  Loops with a counter are structural recursions or have a measure.  Scans for a
  terminator, waits for the device, the search of the free list and the rows of a memory dump
  are partial functions, and the theorems that use them prove that they return.  The endless
  loop of the shell is \<open>shell_rounds n\<close>, the state after \<open>n\<close> turns; a halt is the outcome \<open>Halted\<close>.

  \<^bold>\<open>Not modelled.\<close>  Faults: memory is total, so a load or store at an address where the machine has
  no memory reads or writes a byte like any other; this matters for a \<open>memdump\<close> of a
  range that wraps around the address space, which the address check accepts.  The assembly files \<open>boot.S\<close> and \<open>exceptions_asm.S\<close>, the linker script, the build
  files and the test program.  The stack is not part of the memory model, except for the
  shell's line buffer and the register frame of an exception.  Interrupts do not interleave with
  the code: nothing in the kernel enables them.
\<close>

end
